(* ===== verification/EduPrelude.thy ===== *)
theory EduPrelude
  imports Complex_Main "HOL-Library.Word"
begin

text \<open>
  Shared vocabulary of the development: the C types the EduMPI sources use, the model of a C
  character buffer that is written at an offset (a store outside the array is undefined
  behaviour and is the value \<open>None\<close>), C's truncating division, and the generic lemmas on
  lists and words that the component theories rely on.
\<close>

unbundle bit_operations_syntax

section \<open>Machine types\<close>

type_synonym byte = "8 word"
type_synonym int32 = "32 word"
type_synonym int64 = "64 word"
type_synonym uint64 = "64 word"

text \<open>A C buffer together with the offset of the next free byte.\<close>

type_synonym cursor = "byte list \<times> nat"

named_theorems enc_simps \<open>rewrite rules for the PGCOPY encoders\<close>
named_theorems ring_simps \<open>rewrite rules for the event rings\<close>
named_theorems topo_simps \<open>rewrite rules for the topology arithmetic\<close>

section \<open>C arithmetic\<close>

text \<open>C's \<^verbatim>\<open>/\<close> and \<^verbatim>\<open>%\<close> on signed integers truncate towards zero.\<close>

definition c_div :: "int \<Rightarrow> int \<Rightarrow> int" where
  "c_div a b = sgn a * sgn b * (\<bar>a\<bar> div \<bar>b\<bar>)"

definition c_mod :: "int \<Rightarrow> int \<Rightarrow> int" where
  "c_mod a b = a - c_div a b * b"

lemma c_div_nonneg [simp]: "0 \<le> a \<Longrightarrow> 0 \<le> b \<Longrightarrow> c_div a b = a div b"
  by (cases "a = 0"; cases "b = 0") (auto simp: c_div_def sgn_if)

lemma c_mod_nonneg [simp]: "0 \<le> a \<Longrightarrow> 0 \<le> b \<Longrightarrow> c_mod a b = a mod b"
  by (simp add: c_mod_def minus_div_mult_eq_mod)

section \<open>Stores into a C buffer\<close>

text \<open>\<^verbatim>\<open>buffer[i] = b\<close>.\<close>

definition poke :: "nat \<Rightarrow> byte \<Rightarrow> byte list \<Rightarrow> byte list option" where
  "poke i b buf = (if i < length buf then Some (buf[i := b]) else None)"

text \<open>A run of stores to consecutive addresses, and \<^verbatim>\<open>memcpy(buffer + i, bs, length bs)\<close>.\<close>

fun pokes :: "nat \<Rightarrow> byte list \<Rightarrow> byte list \<Rightarrow> byte list option" where
  "pokes i [] buf = Some buf"
| "pokes i (b # bs) buf = (case poke i b buf of None \<Rightarrow> None | Some buf' \<Rightarrow> pokes (Suc i) bs buf')"

lemma pokes_Some:
  "i + length bs \<le> length buf \<Longrightarrow>
   pokes i bs buf = Some (take i buf @ bs @ drop (i + length bs) buf)"
proof (induction bs arbitrary: i buf)
  case Nil
  then show ?case by simp
next
  case (Cons b bs)
  have "pokes (Suc i) bs (buf[i := b]) =
      Some (take (Suc i) (buf[i := b]) @ bs @ drop (Suc i + length bs) (buf[i := b]))"
    by (rule Cons.IH) (use Cons.prems in simp)
  moreover have "take (Suc i) (buf[i := b]) = take i buf @ [b]"
    using Cons.prems by (simp add: take_Suc_conv_app_nth)
  ultimately show ?case
    using Cons.prems by (simp add: poke_def)
qed

lemma pokes_None:
  "bs \<noteq> [] \<Longrightarrow> length buf < i + length bs \<Longrightarrow> pokes i bs buf = None"
proof (induction bs arbitrary: i buf)
  case Nil
  then show ?case by simp
next
  case (Cons b bs)
  show ?case
  proof (cases "bs = []")
    case True
    with Cons.prems show ?thesis by (simp add: poke_def)
  next
    case False
    with Cons.IH [of "buf[i := b]" "Suc i"] Cons.prems show ?thesis
      by (simp add: poke_def)
  qed
qed

lemma pokes_append:
  "pokes i (as @ bs) buf =
     (case pokes i as buf of None \<Rightarrow> None | Some buf' \<Rightarrow> pokes (i + length as) bs buf')"
  by (induction as arbitrary: i buf) (auto split: option.split)

lemma pokes_length: "pokes i bs buf = Some buf' \<Longrightarrow> length buf' = length buf"
  by (induction bs arbitrary: i buf) (auto simp: poke_def split: option.splits if_splits)

section \<open>C strings\<close>

text \<open>
  \<^verbatim>\<open>strlen\<close> of a character array: the position of the first NUL. An array without NUL makes
  \<^verbatim>\<open>strlen\<close> read past its end, which is undefined behaviour (\<open>None\<close>).
\<close>

definition strlen :: "byte list \<Rightarrow> nat option" where
  "strlen s = (if 0 \<in> set s then Some (length (takeWhile (\<lambda>c. c \<noteq> 0) s)) else None)"

text \<open>The string held by a character array.\<close>

definition cstr :: "byte list \<Rightarrow> byte list" where
  "cstr s = takeWhile (\<lambda>c. c \<noteq> 0) s"

lemma strlen_cstr: "strlen s = Some n \<Longrightarrow> n = length (cstr s) \<and> take n s = cstr s"
  by (auto simp: strlen_def cstr_def split: if_splits intro: takeWhile_eq_take [symmetric])

lemma length_cstr: "0 \<in> set s \<Longrightarrow> length (cstr s) < length s"
  unfolding cstr_def
  by (metis (mono_tags, lifting) length_takeWhile_le linorder_neqE_nat not_le
      set_takeWhileD takeWhile_eq_take take_all_iff)

lemma cstr_append_NUL: "0 \<notin> set s \<Longrightarrow> cstr (s @ 0 # t) = s"
  unfolding cstr_def by (subst takeWhile_append2) auto

text \<open>\<open>overwrite s new\<close> is \<^verbatim>\<open>memcpy(s, new, length new)\<close> into an array \<open>s\<close>.\<close>

definition overwrite :: "byte list \<Rightarrow> byte list \<Rightarrow> byte list option" where
  "overwrite s new = pokes 0 new s"

lemma overwrite_Some:
  "length new \<le> length s \<Longrightarrow> overwrite s new = Some (new @ drop (length new) s)"
  by (simp add: overwrite_def pokes_Some)

text \<open>ASCII text as bytes.\<close>

definition ascii :: "string \<Rightarrow> byte list" where
  "ascii s = map (\<lambda>c. of_nat (of_char c)) s"

lemma ascii_Nil [simp]: "ascii [] = []"
  and ascii_Cons [simp]: "ascii (c # s) = of_nat (of_char c) # ascii s"
  and ascii_append [simp]: "ascii (s @ t) = ascii s @ ascii t"
  and length_ascii [simp]: "length (ascii s) = length s"
  by (simp_all add: ascii_def)

section \<open>Options in sequence\<close>

lemma bind_Some_iff: "Option.bind m f = Some y \<longleftrightarrow> (\<exists>x. m = Some x \<and> f x = Some y)"
  by (cases m) auto

end
