(* ===== verification/PgCopy.thy ===== *)
theory PgCopy
  imports EduPrelude "HOL-Library.Monad_Syntax"
begin

text \<open>
  The PostgreSQL binary COPY encoders of \<^verbatim>\<open>src/ompi/mpi/c/pgcopy.c\<close>. Every encoder stores bytes
  into a caller-supplied buffer at \<open>*offset\<close> and advances the offset; here it is a function on
  the pair (buffer, offset), and a store outside the buffer is \<open>None\<close>. The reader at the end of
  the definitions is the tuple format as the comment at the head of \<^verbatim>\<open>pgcopy.c\<close> documents it.
\<close>

section \<open>The encoders\<close>

definition PGCOPY_HEADER :: "byte list" where
  "PGCOPY_HEADER = ascii ''PGCOPY'' @ [10, 0xff, 13, 10, 0] @ replicate 8 0"

definition PGCOPY_TRAILER :: "byte list" where
  "PGCOPY_TRAILER = [0xff, 0xff]"

definition intToBinary :: "int32 \<Rightarrow> cursor \<Rightarrow> cursor option" where
  "intToBinary integer c =
     (let buffer = fst c; offset = snd c; off = offset in
      do { buffer \<leftarrow> pokes off [0, 0, 0, 4] buffer;
           let off = off + 4;
           buffer \<leftarrow> pokes off
             [ucast (signed_drop_bit 24 integer AND 0xff),
              ucast (signed_drop_bit 16 integer AND 0xff),
              ucast (signed_drop_bit 8 integer AND 0xff),
              ucast (integer AND 0xff)] buffer;
           Some (buffer, offset + 8) })"

definition int64ToBinary :: "int64 \<Rightarrow> cursor \<Rightarrow> cursor option" where
  "int64ToBinary integer c =
     (let buffer = fst c; offset = snd c; off = offset; u = integer in
      do { buffer \<leftarrow> pokes off [0, 0, 0, 8] buffer;
           let off = off + 4;
           buffer \<leftarrow> pokes off
             [ucast (drop_bit 56 u), ucast (drop_bit 48 u), ucast (drop_bit 40 u),
              ucast (drop_bit 32 u), ucast (drop_bit 24 u), ucast (drop_bit 16 u),
              ucast (drop_bit 8 u), ucast (drop_bit 0 u)] buffer;
           Some (buffer, offset + 12) })"

text \<open>A \<^verbatim>\<open>double\<close> is passed as its 64-bit object representation, which is what the code stores.\<close>

definition doubleToBinary :: "uint64 \<Rightarrow> cursor \<Rightarrow> cursor option" where
  "doubleToBinary integer_value c =
     (let buffer = fst c; offset = snd c; off = offset in
      do { buffer \<leftarrow> pokes off [0, 0, 0, 8] buffer;
           let off = off + 4;
           buffer \<leftarrow> pokes off
             [ucast (drop_bit 56 integer_value AND 0xff), ucast (drop_bit 48 integer_value AND 0xff),
              ucast (drop_bit 40 integer_value AND 0xff), ucast (drop_bit 32 integer_value AND 0xff),
              ucast (drop_bit 24 integer_value AND 0xff), ucast (drop_bit 16 integer_value AND 0xff),
              ucast (drop_bit 8 integer_value AND 0xff), ucast (integer_value AND 0xff)] buffer;
           Some (buffer, offset + 12) })"

definition stringToBinary :: "byte list \<Rightarrow> cursor \<Rightarrow> cursor option" where
  "stringToBinary string c =
     (let buffer = fst c; offset = snd c; off = offset in
      do { len \<leftarrow> strlen string;
           buffer \<leftarrow> pokes off [0, 0, 0, of_nat len] buffer;
           let off = off + 4;
           buffer \<leftarrow> pokes off (take len string) buffer;
           Some (buffer, offset + (len + 4)) })"

text \<open>\<^verbatim>\<open>struct timespec\<close>.\<close>

record timespec =
  tv_sec :: int
  tv_nsec :: int

text \<open>The store loop \<^verbatim>\<open>for (int i = 7; i >= 0; i--)\<close>; the argument counts \<open>i + 1\<close>.\<close>

fun timestamp_loop :: "nat \<Rightarrow> nat \<Rightarrow> int64 \<Rightarrow> byte list \<Rightarrow> byte list option" where
  "timestamp_loop off 0 timestamp_us buffer = Some buffer"
| "timestamp_loop off (Suc i) timestamp_us buffer =
     do { buffer \<leftarrow> poke (off + i) (ucast (timestamp_us AND 0xff)) buffer;
          timestamp_loop off i (signed_drop_bit 8 timestamp_us) buffer }"

definition timestamp_us :: "timespec \<Rightarrow> int \<Rightarrow> int64" where
  "timestamp_us time round_seconds =
     (let seconds = tv_sec time - 946684800 in
      if round_seconds = 0
      then let microseconds = c_div (tv_nsec time) 1000 in of_int (seconds * 1000000 + microseconds)
      else of_int (seconds * 1000000))"

definition timestampToBinary :: "timespec \<Rightarrow> int \<Rightarrow> cursor \<Rightarrow> cursor option" where
  "timestampToBinary time round_seconds c =
     (let buffer = fst c; offset = snd c in
      do { buffer \<leftarrow> pokes offset [0, 0, 0, 8] buffer;
           let offset = offset + 4;
           buffer \<leftarrow> timestamp_loop offset 8 (timestamp_us time round_seconds) buffer;
           Some (buffer, offset + 8) })"

text \<open>The scan for a non-zero byte in \<^verbatim>\<open>byteaToBinary\<close>; it reads \<open>n\<close> bytes of the array.\<close>

fun bytea_isEmpty :: "byte list \<Rightarrow> nat \<Rightarrow> bool option" where
  "bytea_isEmpty array 0 = Some True"
| "bytea_isEmpty [] (Suc n) = None"
| "bytea_isEmpty (a # array) (Suc n) = (if a \<noteq> 0 then Some False else bytea_isEmpty array n)"

definition byteaToBinary :: "byte list \<Rightarrow> int \<Rightarrow> int \<Rightarrow> cursor \<Rightarrow> cursor option" where
  "byteaToBinary array len p2p c =
     (if len \<le> 0 then Some c
      else let buffer = fst c; offset = snd c; off = offset; byteSize = nat (c_div len 8) in
        do { isEmpty \<leftarrow> (if p2p = 0 then bytea_isEmpty array byteSize else Some True);
             if isEmpty
             then do { buffer \<leftarrow> pokes off [0, 0, 0, 0] buffer;
                       Some (buffer, offset + 4) }
             else do { buffer \<leftarrow> pokes off [0, 0, 0, of_nat byteSize] buffer;
                       let off = off + 4;
                       src \<leftarrow> (if byteSize \<le> length array then Some (take byteSize array) else None);
                       buffer \<leftarrow> pokes off src buffer;
                       Some (buffer, offset + 4 + byteSize) } })"

definition newRow :: "int \<Rightarrow> cursor \<Rightarrow> cursor option" where
  "newRow column_count c =
     do { buffer \<leftarrow> pokes (snd c) [0, of_int column_count] (fst c);
          Some (buffer, snd c + 2) }"

definition createTrailer :: "cursor \<Rightarrow> cursor option" where
  "createTrailer c =
     do { buffer \<leftarrow> pokes (snd c) PGCOPY_TRAILER (fst c);
          Some (buffer, snd c + 2) }"

section \<open>The documented tuple format, as a reader\<close>

text \<open>
  "Tuples: a 16-bit field count, then for each field a 32-bit length word and that many bytes of
  field data, no alignment padding" (\<^verbatim>\<open>pgcopy.c\<close>, comment at the head of the file).
\<close>

definition be_nat :: "byte list \<Rightarrow> nat" where
  "be_nat bs = foldl (\<lambda>a b. a * 256 + unat b) 0 bs"

definition read_field :: "byte list \<Rightarrow> (byte list \<times> byte list) option" where
  "read_field bs =
     (if length bs < 4 then None
      else let n = be_nat (take 4 bs); rest = drop 4 bs in
        if length rest < n then None else Some (take n rest, drop n rest))"

fun read_fields :: "nat \<Rightarrow> byte list \<Rightarrow> (byte list list \<times> byte list) option" where
  "read_fields 0 bs = Some ([], bs)"
| "read_fields (Suc n) bs =
     do { (f, bs) \<leftarrow> read_field bs;
          (fs, bs) \<leftarrow> read_fields n bs;
          Some (f # fs, bs) }"

definition read_row :: "byte list \<Rightarrow> (byte list list \<times> byte list) option" where
  "read_row bs = (if length bs < 2 then None else read_fields (be_nat (take 2 bs)) (drop 2 bs))"

section \<open>Big-endian images\<close>

text \<open>The \<open>n\<close> low bytes of a word, most significant first.\<close>

fun be_bytes :: "nat \<Rightarrow> 'a::len word \<Rightarrow> byte list" where
  "be_bytes 0 w = []"
| "be_bytes (Suc n) w = be_bytes n (drop_bit 8 w) @ [ucast w]"

lemma length_be_bytes [simp]: "length (be_bytes n w) = n"
  by (induction n w rule: be_bytes.induct) auto

lemma be_nat_append1: "be_nat (bs @ [b]) = be_nat bs * 256 + unat b"
  by (simp add: be_nat_def)

lemma be_nat_be_bytes: "be_nat (be_bytes n w) = unat w mod 256 ^ n"
proof (induction n w rule: be_bytes.induct)
  case (1 w)
  then show ?case by (simp add: be_nat_def)
next
  case (2 n w)
  have "unat (drop_bit 8 w) = unat w div 256"
    by (simp only: unat_drop_bit_eq) (simp add: drop_bit_eq_div)
  moreover have "unat (ucast w :: byte) = unat w mod 256"
    by (simp add: unsigned_ucast_eq take_bit_eq_mod)
  ultimately show ?case
    using 2 by (simp add: be_nat_append1 mod_mult2_eq)
qed

lemma ucast_byte_mask: "ucast (w AND 0xff :: 'a::len word) = (ucast w :: byte)"
proof (rule bit_eqI)
  fix n
  assume "possible_bit TYPE(8 word) n"
  then have n: "n < 8" by simp
  have "bit (0xff :: int) n"
    using n by (auto simp: less_Suc_eq numeral_eq_Suc bit_simps)
  moreover have "(0xff :: 'a word) = word_of_int 0xff" by simp
  ultimately have "n < LENGTH('a) \<Longrightarrow> bit (0xff :: 'a word) n"
    by (simp only: bit_word_of_int_iff)
  then show "bit (ucast (w AND 0xff :: 'a word) :: byte) n = bit (ucast w :: byte) n"
    using n by (auto simp: bit_simps dest: bit_imp_le_length)
qed

lemma ucast_byte_signed_drop:
  "n + 8 \<le> LENGTH('a) \<Longrightarrow> ucast (signed_drop_bit n w :: 'a::len word) = (ucast (drop_bit n w) :: byte)"
  by (rule bit_eqI) (auto simp: bit_simps)

lemmas byte_simps [enc_simps] =
  ucast_byte_mask ucast_byte_signed_drop drop_bit_drop_bit

lemma be_bytes_4: "be_bytes 4 w =
    [ucast (drop_bit 24 w), ucast (drop_bit 16 w), ucast (drop_bit 8 w), ucast w]"
  by (simp add: eval_nat_numeral drop_bit_drop_bit)

lemma be_bytes_8: "be_bytes 8 w =
    [ucast (drop_bit 56 w), ucast (drop_bit 48 w), ucast (drop_bit 40 w), ucast (drop_bit 32 w),
     ucast (drop_bit 24 w), ucast (drop_bit 16 w), ucast (drop_bit 8 w), ucast w]"
  by (simp add: eval_nat_numeral drop_bit_drop_bit)

text \<open>The 32-bit length word.\<close>

definition length_word :: "nat \<Rightarrow> byte list" where
  "length_word n = be_bytes 4 (of_nat n :: 32 word)"

lemma length_length_word [simp]: "length (length_word n) = 4"
  by (simp add: length_word_def)

lemma length_word_small:
  assumes "n < 256"
  shows "length_word n = [0, 0, 0, of_nat n]"
proof -
  have "drop_bit k (of_nat n :: 32 word) = 0" if "8 \<le> k" for k
  proof (rule word_unat_eq_iff [THEN iffD2])
    have "n < 2 ^ k"
      using assms power_increasing [OF that, of "2 :: nat"] by simp
    then show "unat (drop_bit k (of_nat n :: 32 word)) = unat (0 :: 32 word)"
      using assms by (simp only: unat_drop_bit_eq) (simp add: drop_bit_eq_div unat_of_nat)
  qed
  moreover have "(ucast (of_nat n :: 32 word) :: byte) = of_nat n"
    using assms by (simp add: word_unat_eq_iff unsigned_ucast_eq unat_of_nat take_bit_eq_mod)
  ultimately show ?thesis
    by (simp only: length_word_def be_bytes_4) simp
qed

lemma be_nat_length_word: "n < 2 ^ 32 \<Longrightarrow> be_nat (length_word n) = n"
  by (simp add: length_word_def be_nat_be_bytes unat_of_nat)

section \<open>The encoder interface\<close>

text \<open>
  \<open>emits f bs\<close>: called at any offset of any buffer, \<open>f\<close> stores exactly the bytes \<open>bs\<close> there
  and advances the offset by their number, or runs out of the buffer.
\<close>

definition emits :: "(cursor \<Rightarrow> cursor option) \<Rightarrow> byte list \<Rightarrow> bool" where
  "emits f bs \<longleftrightarrow>
     (\<forall>buf off. f (buf, off) = map_option (\<lambda>buf'. (buf', off + length bs)) (pokes off bs buf))"

lemma emitsI:
  "(\<And>buf off. f (buf, off) = map_option (\<lambda>buf'. (buf', off + length bs)) (pokes off bs buf)) \<Longrightarrow> emits f bs"
  by (simp add: emits_def)

lemma emits_seq:
  assumes "emits f as" and "emits g bs"
  shows "emits (\<lambda>c. Option.bind (f c) g) (as @ bs)"
proof (rule emitsI)
  fix buf off
  show "Option.bind (f (buf, off)) g =
      map_option (\<lambda>buf'. (buf', off + length (as @ bs))) (pokes off (as @ bs) buf)"
    using assms by (cases "pokes off as buf") (simp_all add: emits_def pokes_append add.assoc)
qed

lemma emits_fits:
  assumes "emits f bs" and "off + length bs \<le> length buf"
  shows "f (buf, off) = Some (take off buf @ bs @ drop (off + length bs) buf, off + length bs)"
  using assms by (simp add: emits_def pokes_Some)

lemma emits_overflow:
  assumes "emits f bs" and "bs \<noteq> []" and "length buf < off + length bs"
  shows "f (buf, off) = None"
  using assms by (simp add: emits_def pokes_None)

lemma read_field_image:
  assumes "length d < 2 ^ 32"
  shows "read_field (length_word (length d) @ d @ rest) = Some (d, rest)"
  using assms be_nat_length_word [OF assms] by (simp add: read_field_def Let_def)

text \<open>
  What every field encoder of \<^verbatim>\<open>pgcopy.c\<close> promises its caller: on an admissible value it emits
  a length word and the payload, and the payload determines the value.
\<close>

locale pg_field =
  fixes enc :: "'v \<Rightarrow> cursor \<Rightarrow> cursor option"
    and payload :: "'v \<Rightarrow> byte list"
    and admissible :: "'v \<Rightarrow> bool"
    and dec :: "byte list \<Rightarrow> 'v option"
  assumes enc_emits: "admissible v \<Longrightarrow> emits (enc v) (length_word (length (payload v)) @ payload v)"
    and payload_small: "admissible v \<Longrightarrow> length (payload v) < 2 ^ 32"
    and dec_payload: "admissible v \<Longrightarrow> dec (payload v) = Some v"
begin

lemma enc_length:
  assumes "admissible v" and "off + 4 + length (payload v) \<le> length buf"
  shows "\<exists>buf'. enc v (buf, off) = Some (buf', off + 4 + length (payload v)) \<and> length buf' = length buf"
  using emits_fits [OF enc_emits [OF assms(1)], of off buf] assms(2) by (simp add: add.assoc)

text \<open>Nothing before the offset is touched, and the bytes written read back as the value.\<close>

lemma enc_read:
  assumes "admissible v" and "off + 4 + length (payload v) \<le> length buf"
    and "enc v (buf, off) = Some (buf', off')"
  shows "take off buf' = take off buf"
    and "read_field (drop off buf') = Some (payload v, drop off' buf)"
    and "Option.bind (read_field (drop off buf')) (\<lambda>(d, _). dec d) = Some v"
proof -
  have *: "buf' = take off buf @ (length_word (length (payload v)) @ payload v) @ drop off' buf"
    "off' = off + length (length_word (length (payload v)) @ payload v)"
    using emits_fits [OF enc_emits [OF assms(1)], of off buf] assms(2,3) by (simp_all add: add.assoc)
  have off: "off \<le> length buf" using assms(2) by simp
  then have d: "drop off buf' = length_word (length (payload v)) @ payload v @ drop off' buf"
    by (simp add: *(1))
  show "take off buf' = take off buf"
    using off by (simp add: *(1))
  show r: "read_field (drop off buf') = Some (payload v, drop off' buf)"
    unfolding d by (rule read_field_image [OF payload_small [OF assms(1)]])
  show "Option.bind (read_field (drop off buf')) (\<lambda>(d, _). dec d) = Some v"
    unfolding r by (simp add: dec_payload [OF assms(1)])
qed

end

section \<open>Every encoder of the source meets the interface\<close>

lemma four_length_word: "[0, 0, 0, 4 :: byte] = length_word 4" "[0, 0, 0, 8 :: byte] = length_word 8"
  by (simp_all add: length_word_small)

lemma emits_two_stores:
  assumes "\<And>buf off. f (buf, off) =
      do { b \<leftarrow> pokes off as buf; b \<leftarrow> pokes (off + n) bs b; Some (b, off + m) }"
    and "length as = n" and "n + length bs = m"
  shows "emits f (as @ bs)"
  using assms(2,3) by (intro emitsI) (auto simp: assms(1) pokes_append split: option.split bind_split)

lemma emits_int: "emits (intToBinary v) (length_word 4 @ be_bytes 4 v)"
  by (rule emits_two_stores [where n = 4 and m = 8])
    (simp_all add: intToBinary_def Let_def be_bytes_4 enc_simps four_length_word del: pokes.simps)

lemma emits_int64: "emits (int64ToBinary v) (length_word 8 @ be_bytes 8 v)"
  by (rule emits_two_stores [where n = 4 and m = 12])
    (simp_all add: int64ToBinary_def Let_def be_bytes_8 four_length_word del: pokes.simps)

lemma emits_double: "emits (doubleToBinary v) (length_word 8 @ be_bytes 8 v)"
  by (rule emits_two_stores [where n = 4 and m = 12])
    (simp_all add: doubleToBinary_def Let_def be_bytes_8 enc_simps four_length_word del: pokes.simps)

text \<open>The descending loop of \<^verbatim>\<open>timestampToBinary\<close> stores the big-endian image.\<close>

fun loop_bytes :: "nat \<Rightarrow> int64 \<Rightarrow> byte list" where
  "loop_bytes 0 w = []"
| "loop_bytes (Suc n) w = loop_bytes n (signed_drop_bit 8 w) @ [ucast (w AND 0xff)]"

lemma length_loop_bytes [simp]: "length (loop_bytes n w) = n"
  by (induction n w rule: loop_bytes.induct) auto

lemma poke_pokes_commute:
  "Option.bind (poke (off + length bs) b buf) (pokes off bs) =
   Option.bind (pokes off bs buf) (poke (off + length bs) b)"
proof (cases "off + length bs < length buf")
  case True
  then show ?thesis
    by (simp add: poke_def pokes_Some list_update_append upd_conv_take_nth_drop)
next
  case False
  then show ?thesis
    by (auto simp: poke_def dest!: pokes_length split: bind_split)
qed

lemma timestamp_loop_pokes: "timestamp_loop off n w buf = pokes off (loop_bytes n w) buf"
proof (induction n w arbitrary: buf rule: loop_bytes.induct)
  case (1 w)
  then show ?case by simp
next
  case (2 n w)
  have "timestamp_loop off (Suc n) w buf =
      Option.bind (poke (off + n) (ucast (w AND 0xff)) buf) (pokes off (loop_bytes n (signed_drop_bit 8 w)))"
    using 2 by (simp cong: Option.bind_cong)
  also have "\<dots> = Option.bind (pokes off (loop_bytes n (signed_drop_bit 8 w)) buf)
      (poke (off + n) (ucast (w AND 0xff)))"
    using poke_pokes_commute [of off "loop_bytes n (signed_drop_bit 8 w)"] by simp
  also have "\<dots> = pokes off (loop_bytes (Suc n) w) buf"
    by (auto simp: pokes_append split: option.split bind_split)
  finally show ?case .
qed

lemma loop_bytes_8: "loop_bytes 8 w = be_bytes 8 w"
  by (simp add: eval_nat_numeral enc_simps signed_drop_bit_signed_drop_bit)

lemma emits_timestamp:
  "emits (timestampToBinary t r) (length_word 8 @ be_bytes 8 (timestamp_us t r))"
  by (rule emits_two_stores [where n = 4 and m = 12])
    (simp_all add: timestampToBinary_def Let_def timestamp_loop_pokes loop_bytes_8 four_length_word
      add.commute del: pokes.simps)

lemma emits_string:
  assumes "0 \<in> set s" and "length (cstr s) < 256"
  shows "emits (stringToBinary s) (length_word (length (cstr s)) @ cstr s)"
proof -
  from assms(1) have len: "strlen s = Some (length (cstr s))"
    by (simp add: strlen_def cstr_def)
  then have "take (length (cstr s)) s = cstr s"
    by (auto dest: strlen_cstr)
  with len assms(2) show ?thesis
    by (intro emits_two_stores [where n = 4])
      (simp_all add: stringToBinary_def Let_def length_word_small add.commute del: pokes.simps)
qed

lemma string_unterminated: "0 \<notin> set s \<Longrightarrow> stringToBinary s c = None"
  by (simp add: stringToBinary_def strlen_def Let_def)

lemma bytea_isEmpty_eq:
  "n \<le> length a \<Longrightarrow> bytea_isEmpty a n = Some (\<forall>b \<in> set (take n a). b = 0)"
  by (induction a n rule: bytea_isEmpty.induct) auto

text \<open>
  What \<^verbatim>\<open>byteaToBinary\<close> sends: the bit mask of a collective call that has a bit set, an empty
  value for every other call.
\<close>

definition bytea_image :: "byte list \<Rightarrow> int \<Rightarrow> int \<Rightarrow> byte list" where
  "bytea_image a len p2p =
     (let m = take (nat (len div 8)) a in if p2p = 0 \<and> (\<exists>b \<in> set m. b \<noteq> 0) then m else [])"

lemma emits_bytea:
  assumes "0 < len" and "nat (len div 8) \<le> length a" and "len div 8 < 256"
  shows "emits (byteaToBinary a len p2p)
    (length_word (length (bytea_image a len p2p)) @ bytea_image a len p2p)"
proof -
  let ?n = "nat (len div 8)"
  show ?thesis
  proof (cases "p2p = 0 \<and> (\<exists>b \<in> set (take ?n a). b \<noteq> 0)")
    case True
    with assms show ?thesis
      by (intro emits_two_stores [where n = 4])
        (auto simp: byteaToBinary_def bytea_image_def Let_def bytea_isEmpty_eq length_word_small
          add.assoc simp del: pokes.simps)
  next
    case False
    with assms show ?thesis
      by (intro emits_two_stores [where n = 4])
        (auto simp: byteaToBinary_def bytea_image_def Let_def bytea_isEmpty_eq length_word_small
          simp del: pokes.simps(2))
  qed
qed

lemma emits_newRow:
  assumes "0 \<le> n" and "n < 256"
  shows "emits (newRow n) [0, of_int n]"
  by (rule emitsI) (auto simp: newRow_def simp del: pokes.simps split: bind_split)

lemma be_nat_count: "0 \<le> n \<Longrightarrow> n < 256 \<Longrightarrow> be_nat [0, of_int n] = nat n"
  by (cases n) (auto simp: be_nat_def unat_of_nat)

text \<open>Decoders of the payloads.\<close>

definition dec_word :: "nat \<Rightarrow> byte list \<Rightarrow> 'a::len word option" where
  "dec_word n bs = (if length bs = n then Some (of_nat (be_nat bs)) else None)"

lemma dec_word_be_bytes:
  "LENGTH('a) \<le> 8 * n \<Longrightarrow> dec_word n (be_bytes n (w :: 'a::len word)) = Some w"
proof -
  assume n: "LENGTH('a) \<le> 8 * n"
  have "unat w < 2 ^ LENGTH('a)" by simp
  also have "\<dots> \<le> 2 ^ (8 * n)" using n by (simp add: power_increasing)
  also have "\<dots> = 256 ^ n" by (simp add: power_mult)
  finally show ?thesis
    by (simp add: dec_word_def be_nat_be_bytes)
qed

interpretation pg_int: pg_field intToBinary "be_bytes 4" "\<lambda>_. True" "dec_word 4"
  by unfold_locales (simp_all add: emits_int dec_word_be_bytes)

interpretation pg_int64: pg_field int64ToBinary "be_bytes 8" "\<lambda>_. True" "dec_word 8"
  by unfold_locales (simp_all add: emits_int64 dec_word_be_bytes)

interpretation pg_double: pg_field doubleToBinary "be_bytes 8" "\<lambda>_. True" "dec_word 8"
  by unfold_locales (simp_all add: emits_double dec_word_be_bytes)

end
