(* ===== verification/Qentry.thy ===== *)
theory Qentry
  imports PgCopy
begin

text \<open>
  The event entry \<open>qentry\<close> of \<^verbatim>\<open>src/ompi/mpi/c/init.h\<close>, its lifecycle word, and the functions of
  \<^verbatim>\<open>src/ompi/mpi/c/init.c\<close> that fill an entry in: \<open>initQentry\<close>, the communicator label, the
  translation of a peer to its rank in \<^verbatim>\<open>MPI_COMM_WORLD\<close>, and the time difference.
\<close>

section \<open>MPI handles the entries refer to\<close>

text \<open>
  The topology of a communicator (\<^verbatim>\<open>src/ompi/mca/topo/topo.h\<close>): the structures that the union
  \<^verbatim>\<open>mtc\<close> of \<^verbatim>\<open>c_topo\<close> points to. The bits \<^verbatim>\<open>OMPI_COMM_CART\<close>, \<^verbatim>\<open>OMPI_COMM_GRAPH\<close> and
  \<^verbatim>\<open>OMPI_COMM_DIST_GRAPH\<close> of \<^verbatim>\<open>c_flags\<close> say which one it is. A NULL array is \<open>None\<close>.
\<close>

record cart_topo =
  cart_ndims :: int
  cart_dims :: "int list"
  cart_periods :: "int list"
  cart_coords :: "int list"

record graph_topo =
  graph_nnodes :: int
  graph_index :: "int list"
  graph_edges :: "int list"

record dist_graph_topo =
  dg_in :: "int list"
  dg_inw :: "int list option"
  dg_out :: "int list"
  dg_outw :: "int list option"
  dg_indegree :: int
  dg_outdegree :: int
  dg_weighted :: bool

datatype topology = Cart cart_topo | Graph graph_topo | Dist_graph dist_graph_topo

text \<open>
  The fields of \<^verbatim>\<open>ompi_communicator_t\<close> that the logging code and the bindings read, with the bits of
  \<^verbatim>\<open>c_flags\<close> as booleans. A group is the list of its
  process pointers, each the world rank (\<^verbatim>\<open>proc_name.vpid\<close>) of the process or NULL.
\<close>

record communicator =
  c_name :: "byte list option"
  c_index :: int
  c_my_rank :: int
  c_inter :: bool
  c_freed :: bool
  c_invalid :: bool
  c_topo :: "topology option"
  c_revoked :: bool
  c_coll_revoked :: bool
  c_local_group :: "32 word option list"
  c_remote_group :: "32 word option list"

datatype comm_handle = Comm_NULL | MPI_COMM_NULL | MPI_COMM_WORLD | Comm communicator

datatype mpi_datatype = MPI_INT | MPI_CHAR | MPI_DOUBLE | MPI_LONG | Other_Datatype

datatype mpi_op = MPI_SUM | MPI_MAX | MPI_MIN | MPI_PROD | MPI_LAND | MPI_BAND | MPI_LOR | MPI_BOR
  | MPI_LXOR | MPI_BXOR | Other_Op

definition ompi_comm_size :: "communicator \<Rightarrow> int" where
  "ompi_comm_size comm = int (length (c_local_group comm))"

definition ompi_comm_rank :: "communicator \<Rightarrow> int" where
  "ompi_comm_rank c = c_my_rank c"

definition ompi_comm_remote_size :: "communicator \<Rightarrow> int" where
  "ompi_comm_remote_size comm = (if c_inter comm then int (length (c_remote_group comm)) else 0)"

definition ompi_comm_peer_lookup :: "communicator \<Rightarrow> int \<Rightarrow> 32 word option" where
  "ompi_comm_peer_lookup comm peer_id =
     (if 0 \<le> peer_id \<and> peer_id < int (length (c_remote_group comm))
      then c_remote_group comm ! nat peer_id else None)"

section \<open>The entry\<close>

record qentry =
  id' :: int
  function' :: "byte list"
  communicationType :: "byte list"
  blocking :: int
  sendDatatype :: "byte list"
  recvDatatype :: "byte list"
  sendcount :: int
  sendDatasize :: int64
  recvcount :: int
  recvDatasize :: int64
  operation :: "byte list"
  communicationArea :: "byte list"
  communicator' :: comm_handle
  processorname :: "byte list"
  processrank' :: int
  partnerrank :: int
  coll_partnerranks :: "byte list"
  sendmode :: "byte list"
  immediate :: int
  usedBtl :: "byte list"
  usedProtocol :: "byte list"
  withinEagerLimit :: int
  foundMatchWild :: int
  usedAlgorithm :: "byte list"
  request' :: "nat option"
  start' :: timespec
  end' :: timespec
  lateSenderTime :: rat
  lateReceiverTime :: rat
  sendWaitingTime :: rat
  recvWaitingTime :: rat
  initializeRequest :: timespec
  startRequest :: timespec
  requestCompletePmlLevel :: timespec
  requestWaitCompletion :: timespec
  requestFini :: timespec
  sent :: timespec
  bufferFree :: timespec
  pending_request :: int
  request_done :: int
  lifecycle :: uint64

definition zero_timespec :: timespec where
  "zero_timespec = \<lparr>tv_sec = 0, tv_nsec = 0\<rparr>"

text \<open>An entry of zero bytes with the given lifecycle word.\<close>

definition zero_entry :: "uint64 \<Rightarrow> qentry" where
  "zero_entry lc = \<lparr>id' = 0, function' = replicate 30 0, communicationType = replicate 30 0,
     blocking = 0, sendDatatype = replicate 64 0, recvDatatype = replicate 64 0,
     sendcount = 0, sendDatasize = 0, recvcount = 0, recvDatasize = 0,
     operation = replicate 30 0, communicationArea = replicate 64 0, communicator' = Comm_NULL,
     processorname = replicate 30 0, processrank' = 0, partnerrank = 0,
     coll_partnerranks = replicate 50 0, sendmode = replicate 30 0, immediate = 0,
     usedBtl = replicate 30 0, usedProtocol = replicate 30 0, withinEagerLimit = 0,
     foundMatchWild = 0, usedAlgorithm = replicate 30 0, request' = None,
     start' = zero_timespec, end' = zero_timespec,
     lateSenderTime = 0, lateReceiverTime = 0, sendWaitingTime = 0, recvWaitingTime = 0,
     initializeRequest = zero_timespec, startRequest = zero_timespec,
     requestCompletePmlLevel = zero_timespec, requestWaitCompletion = zero_timespec,
     requestFini = zero_timespec, sent = zero_timespec, bufferFree = zero_timespec,
     pending_request = 0, request_done = 0, lifecycle = lc\<rparr>"

section \<open>The lifecycle word\<close>

definition EDUMPI_LC_NONE :: uint64 where "EDUMPI_LC_NONE = 0"
definition EDUMPI_LC_PENDING :: uint64 where "EDUMPI_LC_PENDING = 1"
definition EDUMPI_LC_FINISHING :: uint64 where "EDUMPI_LC_FINISHING = 2"
definition EDUMPI_LC_ABANDONED :: uint64 where "EDUMPI_LC_ABANDONED = 3"

lemmas lc_states = EDUMPI_LC_NONE_def EDUMPI_LC_PENDING_def EDUMPI_LC_FINISHING_def
  EDUMPI_LC_ABANDONED_def

definition EDUMPI_LC :: "uint64 \<Rightarrow> uint64 \<Rightarrow> uint64" where
  "EDUMPI_LC ticket state = (push_bit 2 ticket OR state)"

definition lc_state :: "uint64 \<Rightarrow> uint64" where
  "lc_state lc = lc AND 3"

text \<open>
  \<open>edumpi_lifecycle_try_abandon\<close>: load, test, compare-and-swap. Run without interference the
  swap succeeds.
\<close>

definition edumpi_lifecycle_try_abandon :: "qentry \<Rightarrow> bool \<times> qentry" where
  "edumpi_lifecycle_try_abandon e =
     (let lc = lifecycle e in
      if lc AND 3 \<noteq> EDUMPI_LC_PENDING then (False, e)
      else (True, e\<lparr>lifecycle := (lc AND NOT 3) OR EDUMPI_LC_ABANDONED\<rparr>))"

definition edumpi_request_ready :: "qentry \<Rightarrow> bool" where
  "edumpi_request_ready e \<longleftrightarrow> pending_request e = 0 \<or> request_done e \<noteq> 0"

definition edumpi_request_done :: "qentry \<Rightarrow> qentry" where
  "edumpi_request_done e = e\<lparr>request_done := 1\<rparr>"

definition edumpi_request_done_bytes :: "qentry \<Rightarrow> int64 \<Rightarrow> qentry" where
  "edumpi_request_done_bytes e recv_bytes = edumpi_request_done (e\<lparr>recvDatasize := recv_bytes\<rparr>)"

text \<open>\<open>edumpi_entry_reset\<close>: everything zeroed but the lifecycle word, which gets the new ticket.\<close>

definition edumpi_entry_reset :: "qentry \<Rightarrow> uint64 \<Rightarrow> qentry" where
  "edumpi_entry_reset slot ticket = zero_entry (EDUMPI_LC ticket EDUMPI_LC_NONE)"

section \<open>Time difference\<close>

text \<open>
  The exact value that \<open>timespec_diff\<close> computes; the C code returns it rounded to a \<^verbatim>\<open>double\<close>.
\<close>

definition timespec_diff :: "timespec \<Rightarrow> timespec \<Rightarrow> rat" where
  "timespec_diff start end =
     (let elapsed_sec = tv_sec end - tv_sec start;
          elapsed_ns = tv_nsec end - tv_nsec start;
          (elapsed_sec, elapsed_ns) =
            (if elapsed_ns < 0 then (elapsed_sec - 1, elapsed_ns + 1000000000)
             else (elapsed_sec, elapsed_ns))
      in of_int elapsed_sec + of_int elapsed_ns / 1000000000)"

section \<open>Names\<close>

fun get_mpi_op_name :: "mpi_op \<Rightarrow> byte list" where
  "get_mpi_op_name MPI_SUM = ascii ''MPI_SUM''"
| "get_mpi_op_name MPI_MAX = ascii ''MPI_MAX''"
| "get_mpi_op_name MPI_MIN = ascii ''MPI_MIN''"
| "get_mpi_op_name MPI_PROD = ascii ''MPI_PROD''"
| "get_mpi_op_name MPI_LAND = ascii ''MPI_LAND''"
| "get_mpi_op_name MPI_BAND = ascii ''MPI_BAND''"
| "get_mpi_op_name MPI_LOR = ascii ''MPI_LOR''"
| "get_mpi_op_name MPI_BOR = ascii ''MPI_BOR''"
| "get_mpi_op_name MPI_LXOR = ascii ''MPI_LXOR''"
| "get_mpi_op_name MPI_BXOR = ascii ''MPI_BXOR''"
| "get_mpi_op_name Other_Op = ascii ''UNKNOWN_OP''"

fun convert_MPI_datatype :: "mpi_datatype \<Rightarrow> byte list \<Rightarrow> byte list option" where
  "convert_MPI_datatype MPI_INT field = overwrite field (ascii ''MPI_INT'')"
| "convert_MPI_datatype MPI_CHAR field = overwrite field (ascii ''MPI_CHAR'')"
| "convert_MPI_datatype MPI_DOUBLE field = overwrite field (ascii ''MPI_DOUBLE'')"
| "convert_MPI_datatype MPI_LONG field = overwrite field (ascii ''MPI_LONG'')"
| "convert_MPI_datatype Other_Datatype field = Some field"

text \<open>\<^verbatim>\<open>printf\<close>'s \<^verbatim>\<open>%d\<close>.\<close>

fun dec_digits :: "nat \<Rightarrow> byte list" where
  "dec_digits n = (if n < 10 then [of_nat (48 + n)] else dec_digits (n div 10) @ [of_nat (48 + n mod 10)])"

declare dec_digits.simps [simp del]

definition printf_d :: "int \<Rightarrow> byte list" where
  "printf_d i = (if i < 0 then 45 # dec_digits (nat (- i)) else dec_digits (nat i))"

text \<open>\<^verbatim>\<open>snprintf(out, outlen, "%s", s)\<close>: at most \<open>outlen - 1\<close> characters and the NUL.\<close>

definition snprintf :: "byte list \<Rightarrow> nat \<Rightarrow> byte list \<Rightarrow> byte list option" where
  "snprintf out outlen s =
     (if outlen = 0 then Some out else overwrite out (take (outlen - 1) s @ [0]))"

definition edumpi_world_rank :: "comm_handle \<Rightarrow> int \<Rightarrow> int" where
  "edumpi_world_rank comm rank =
     (if rank < 0 then rank
      else case comm of
        Comm_NULL \<Rightarrow> rank
      | MPI_COMM_NULL \<Rightarrow> rank
      | MPI_COMM_WORLD \<Rightarrow> rank
      | Comm c \<Rightarrow>
          (let peers = (if c_inter c then ompi_comm_remote_size c else ompi_comm_size c) in
           if rank \<ge> peers then rank
           else case ompi_comm_peer_lookup c rank of None \<Rightarrow> rank | Some vpid \<Rightarrow> sint vpid))"

text \<open>The communicator's name, or "MPI COMM n", cut to the 64-byte array \<open>base\<close>.\<close>

definition label_base :: "communicator \<Rightarrow> byte list" where
  "label_base c =
     take 63 (case c_name c of
        None \<Rightarrow> ascii ''MPI COMM '' @ printf_d (c_index c)
      | Some n \<Rightarrow> if cstr n \<noteq> [] then cstr n else ascii ''MPI COMM '' @ printf_d (c_index c))"

definition edumpi_comm_label :: "communicator \<Rightarrow> comm_handle \<Rightarrow> byte list \<Rightarrow> nat \<Rightarrow> byte list option" where
  "edumpi_comm_label world comm out outlen =
     do { out \<leftarrow> poke 0 0 out;
          case comm of
            Comm_NULL \<Rightarrow> Some out
          | MPI_COMM_NULL \<Rightarrow> Some out
          | MPI_COMM_WORLD \<Rightarrow> snprintf out outlen (ascii ''MPI_COMM_WORLD'')
          | Comm c \<Rightarrow>
              (if \<not> c_inter c \<and> ompi_comm_size c < ompi_comm_size world
               then snprintf out outlen
                 (take 52 (label_base c) @ ascii '' @'' @ printf_d (edumpi_world_rank comm 0))
               else snprintf out outlen (label_base c)) }"

section \<open>Filling an entry in\<close>

text \<open>
  The process-wide values that \<open>initQentry\<close> reads: \<^verbatim>\<open>proc_name\<close>, \<^verbatim>\<open>proc_name_length\<close>,
  \<^verbatim>\<open>processrank\<close>, the world communicator, and the bytes that follow a string literal in memory
  (the copy of the operation name always takes 10 bytes, two more than \<^verbatim>\<open>"MPI_SUM"\<close> has).
\<close>

record edu_env =
  proc_name :: "byte list"
  proc_name_length :: nat
  processrank :: int
  world :: communicator
  beyond :: "byte list"

text \<open>\<^verbatim>\<open>memcpy(dst, src, n)\<close>; reading past \<open>src\<close> or writing past \<open>dst\<close> is undefined.\<close>

definition memcpy :: "byte list \<Rightarrow> byte list \<Rightarrow> nat \<Rightarrow> byte list option" where
  "memcpy dst src n = (if n \<le> length src then overwrite dst (take n src) else None)"

definition initQentry_item ::
  "edu_env \<Rightarrow> qentry \<Rightarrow> int \<Rightarrow> byte list \<Rightarrow> nat \<Rightarrow> int \<Rightarrow> int \<Rightarrow> byte list \<Rightarrow> nat \<Rightarrow>
   mpi_datatype option \<Rightarrow> mpi_datatype option \<Rightarrow> comm_handle \<Rightarrow> int \<Rightarrow> mpi_op option \<Rightarrow> qentry option" where
  "initQentry_item env item dest func func_len sendCount recvCount commType commType_len
      sendType recvType comm block op =
     do { let item = item\<lparr>id' := 0\<rparr>;
          f \<leftarrow> memcpy (function' item) (func @ [0]) func_len;
          let item = item\<lparr>function' := f, blocking := block\<rparr>;
          sd \<leftarrow> (case sendType of None \<Rightarrow> Some (sendDatatype item)
                 | Some t \<Rightarrow> convert_MPI_datatype t (sendDatatype item));
          rd \<leftarrow> (case recvType of None \<Rightarrow> Some (recvDatatype item)
                 | Some t \<Rightarrow> convert_MPI_datatype t (recvDatatype item));
          let item = item\<lparr>sendDatatype := sd, recvDatatype := rd\<rparr>;
          ct \<leftarrow> memcpy (communicationType item) (commType @ [0]) commType_len;
          let item = item\<lparr>communicationType := ct,
            sendcount := sendCount, sendDatasize := of_int sendCount * 8,
            recvcount := recvCount, recvDatasize := of_int recvCount * 8\<rparr>;
          opn \<leftarrow> (case op of None \<Rightarrow> Some (operation item)
                  | Some o' \<Rightarrow> memcpy (operation item) (get_mpi_op_name o' @ 0 # beyond env) 10);
          area \<leftarrow> edumpi_comm_label (world env) comm (communicationArea item) 64;
          let item = item\<lparr>operation := opn, communicationArea := area,
            communicator' := (if comm \<noteq> Comm_NULL then comm else communicator' item)\<rparr>;
          pn \<leftarrow> memcpy (processorname item) (proc_name env) (proc_name_length env);
          let item = item\<lparr>processorname := pn, processrank' := processrank env,
            partnerrank := edumpi_world_rank comm dest,
            recvWaitingTime := 0, sendWaitingTime := 0, lateSenderTime := 0, lateReceiverTime := 0,
            request' := None, end' := zero_timespec, immediate := 0,
            withinEagerLimit := -1, foundMatchWild := -1,
            coll_partnerranks := replicate 50 0\<rparr>;
          Some item }"

text \<open>The whole function: a NULL entry pointer makes it return at once.\<close>

definition initQentry ::
  "edu_env \<Rightarrow> qentry option \<Rightarrow> int \<Rightarrow> byte list \<Rightarrow> nat \<Rightarrow> int \<Rightarrow> int \<Rightarrow> byte list \<Rightarrow> nat \<Rightarrow>
   mpi_datatype option \<Rightarrow> mpi_datatype option \<Rightarrow> comm_handle \<Rightarrow> int \<Rightarrow> mpi_op option \<Rightarrow>
   qentry option option" where
  "initQentry env q dest func func_len sendCount recvCount commType commType_len
      sendType recvType comm block op =
     (case q of
        None \<Rightarrow> Some None
      | Some item \<Rightarrow> map_option Some
          (initQentry_item env item dest func func_len sendCount recvCount commType commType_len
             sendType recvType comm block op))"

text \<open>\<^verbatim>\<open>item->coll_partnerranks[vpid / 8] |= (1 << (vpid % 8))\<close> (the PML send path).\<close>

definition mark_coll_partner :: "nat \<Rightarrow> qentry \<Rightarrow> qentry option" where
  "mark_coll_partner dst_vpid item =
     (let i = dst_vpid div 8; ranks = coll_partnerranks item in
      if i < length ranks
      then Some (item\<lparr>coll_partnerranks := ranks[i := ranks ! i OR push_bit (dst_vpid mod 8) 1]\<rparr>)
      else None)"

section \<open>Lifecycle words\<close>

abbreviation lc_values :: "uint64 set" where
  "lc_values \<equiv> {EDUMPI_LC_NONE, EDUMPI_LC_PENDING, EDUMPI_LC_FINISHING, EDUMPI_LC_ABANDONED}"

lemma three_mask: "(3 :: 64 word) = mask 2"
  by (simp add: mask_eq_exp_minus_1)

lemma LC_state [ring_simps]:
  assumes "s \<in> lc_values"
  shows "EDUMPI_LC t s AND 3 = s"
proof -
  have "take_bit 2 s = s" using assms by (auto simp: lc_states)
  then show ?thesis
    unfolding three_mask
    by (simp only: EDUMPI_LC_def take_bit_eq_mask [symmetric] take_bit_or take_bit_push_bit) simp
qed

lemma LC_ticket [ring_simps]:
  assumes "s \<in> lc_values" and "unat t < 2 ^ 62"
  shows "drop_bit 2 (EDUMPI_LC t s) = t"
proof -
  have "drop_bit 2 s = 0" using assms by (auto simp: lc_states)
  moreover have "drop_bit 2 (push_bit 2 t) = t"
  proof (rule word_unat_eq_iff [THEN iffD2])
    have "unat (push_bit 2 t) = unat t * 4"
      using assms(2) by (simp only: unsigned_push_bit_eq) (simp add: push_bit_eq_mult take_bit_eq_mod)
    then show "unat (drop_bit 2 (push_bit 2 t)) = unat t"
      by (simp only: unat_drop_bit_eq) (simp add: drop_bit_eq_div)
  qed
  ultimately show ?thesis by (simp add: EDUMPI_LC_def)
qed

lemma LC_inject:
  assumes "s \<in> lc_values" and "s' \<in> lc_values" and "unat t < 2 ^ 62" and "unat t' < 2 ^ 62"
  shows "EDUMPI_LC t s = EDUMPI_LC t' s' \<longleftrightarrow> t = t' \<and> s = s'"
  by (metis LC_state LC_ticket assms)

lemma LC_abandon: "(EDUMPI_LC t EDUMPI_LC_PENDING AND NOT 3) OR EDUMPI_LC_ABANDONED = EDUMPI_LC t EDUMPI_LC_ABANDONED"
proof -
  have "EDUMPI_LC t EDUMPI_LC_PENDING AND NOT 3 = push_bit 2 t"
  proof (rule bit_word_eqI)
    fix n assume n: "n < LENGTH(64)"
    have "bit (1 :: 64 word) n \<Longrightarrow> n < 2" by (simp add: bit_1_iff)
    then show "bit (EDUMPI_LC t EDUMPI_LC_PENDING AND NOT 3) n = bit (push_bit 2 t) n"
      using n unfolding three_mask EDUMPI_LC_def lc_states by (auto simp: bit_simps)
  qed
  then show ?thesis by (simp add: EDUMPI_LC_def)
qed

lemma try_abandon_LC:
  assumes "lifecycle e = EDUMPI_LC t s" and "s \<in> lc_values"
  shows "edumpi_lifecycle_try_abandon e =
    (if s = EDUMPI_LC_PENDING then (True, e\<lparr>lifecycle := EDUMPI_LC t EDUMPI_LC_ABANDONED\<rparr>) else (False, e))"
  using LC_state [OF assms(2), of t] LC_abandon [of t]
  by (auto simp: edumpi_lifecycle_try_abandon_def assms(1) Let_def)

section \<open>Well-formed entries\<close>

definition terminated :: "nat \<Rightarrow> byte list \<Rightarrow> bool" where
  "terminated n s \<longleftrightarrow> length s = n \<and> 0 \<in> set s"

definition wf_entry :: "qentry \<Rightarrow> bool" where
  "wf_entry e \<longleftrightarrow> terminated 30 (function' e) \<and> terminated 30 (communicationType e) \<and>
     terminated 64 (communicationArea e) \<and> terminated 30 (processorname e) \<and>
     terminated 30 (usedAlgorithm e) \<and> length (coll_partnerranks e) = 50"

lemma terminated_replicate [simp]: "terminated n (replicate n 0) \<longleftrightarrow> 0 < n"
  by (auto simp: terminated_def)

lemma wf_zero_entry [simp]: "wf_entry (zero_entry lc)"
  by (simp add: wf_entry_def zero_entry_def)

lemma overwrite_zeros:
  assumes "length s < n" and "0 \<notin> set s"
  shows "overwrite (replicate n 0) s = Some (s @ replicate (n - length s) 0)"
    and "terminated n (s @ replicate (n - length s) 0)"
    and "cstr (s @ replicate (n - length s) 0) = s"
proof -
  obtain k where k: "n - length s = Suc k" using assms(1) by (metis Suc_diff_Suc)
  show "overwrite (replicate n 0) s = Some (s @ replicate (n - length s) 0)"
    using assms(1) by (simp add: overwrite_Some)
  show "terminated n (s @ replicate (n - length s) 0)"
    using assms(1) by (simp add: terminated_def)
  show "cstr (s @ replicate (n - length s) 0) = s"
    using assms(2) by (simp add: k cstr_append_NUL)
qed

lemma memcpy_zeros:
  assumes "length s < n" and "0 \<notin> set s"
  shows "memcpy (replicate n 0) (s @ [0]) (length s) = Some (s @ replicate (n - length s) 0)"
  using overwrite_zeros(1) [OF assms] by (simp add: memcpy_def)

section \<open>Decimal numbers\<close>

definition dec_value :: "byte list \<Rightarrow> nat" where
  "dec_value ds = foldl (\<lambda>a d. a * 10 + (unat d - 48)) 0 ds"

lemma unat_digit [simp]: "d < 10 \<Longrightarrow> unat (of_nat (48 + d) :: byte) = 48 + d"
  by (simp only: unat_of_nat) simp

lemma dec_value_digits: "dec_value (dec_digits n) = n"
proof (induction n rule: dec_digits.induct)
  case (1 n)
  have d: "unat (of_nat (48 + n mod 10) :: byte) = 48 + n mod 10" "n < 10 \<Longrightarrow> unat (of_nat (48 + n) :: byte) = 48 + n"
    by (rule unat_digit; simp)+
  show ?case
    using 1 d by (subst dec_digits.simps) (simp add: dec_value_def del: of_nat_add)
qed

lemma dec_digits_inject: "dec_digits m = dec_digits n \<longleftrightarrow> m = n"
  by (metis dec_value_digits)

lemma digit_nonzero: "d < 10 \<Longrightarrow> (of_nat (48 + d) :: byte) \<noteq> 0"
  by (metis unat_digit add_is_0 numeral_eq_iff unat_0 zero_neq_numeral)

lemma dec_digits_no_NUL: "0 \<notin> set (dec_digits n)"
proof (induction n rule: dec_digits.induct)
  case (1 n)
  then show ?case
    using digit_nonzero [of n] digit_nonzero [of "n mod 10"]
    by (subst dec_digits.simps) (simp del: of_nat_add)
qed

lemma length_dec_digits: "0 < k \<Longrightarrow> n < 10 ^ k \<Longrightarrow> length (dec_digits n) \<le> k"
proof (induction k arbitrary: n)
  case (Suc k)
  show ?case
  proof (cases "n < 10")
    case True
    then show ?thesis by (subst dec_digits.simps) simp
  next
    case False
    then have "0 < k" "n div 10 < 10 ^ k"
      using Suc.prems by (auto simp: less_mult_imp_div_less mult.commute intro!: Nat.gr0I)
    from Suc.IH [OF this] False show ?thesis by (subst dec_digits.simps) simp
  qed
qed simp
section \<open>Communicator labels\<close>

lemma snprintf_cstr:
  assumes "0 < n" and "n \<le> length out" and "0 \<notin> set s"
  shows "\<exists>out'. snprintf out n s = Some out' \<and> length out' = length out \<and> 0 \<in> set out' \<and>
    cstr out' = take (n - 1) s"
proof -
  let ?t = "take (n - 1) s"
  have "snprintf out n s = Some (?t @ 0 # drop (length ?t + 1) out)"
    using assms(1,2) overwrite_Some [of "?t @ [0]" out] by (simp add: snprintf_def)
  moreover have "cstr (?t @ 0 # drop (length ?t + 1) out) = ?t"
    using assms(3) by (intro cstr_append_NUL) (meson in_set_takeD)
  ultimately show ?thesis using assms(1,2) by auto
qed

text \<open>The text of the label, before it is cut to the field.\<close>

definition label_text :: "communicator \<Rightarrow> comm_handle \<Rightarrow> byte list" where
  "label_text wd comm =
     (case comm of Comm_NULL \<Rightarrow> [] | MPI_COMM_NULL \<Rightarrow> [] | MPI_COMM_WORLD \<Rightarrow> ascii ''MPI_COMM_WORLD''
      | Comm c \<Rightarrow>
          if \<not> c_inter c \<and> ompi_comm_size c < ompi_comm_size wd
          then take 52 (label_base c) @ ascii '' @'' @ printf_d (edumpi_world_rank comm 0)
          else label_base c)"

lemma printf_d_no_NUL: "0 \<notin> set (printf_d i)"
  by (simp add: printf_d_def dec_digits_no_NUL)

lemma cstr_no_NUL: "0 \<notin> set (cstr s)"
  by (auto simp: cstr_def dest: set_takeWhileD)

lemma label_base_no_NUL: "0 \<notin> set (label_base c)"
proof -
  have "0 \<notin> set (ascii ''MPI COMM '' @ printf_d (c_index c))"
    by (simp add: printf_d_no_NUL)
  then show ?thesis
    unfolding label_base_def
    by (auto split: option.splits if_splits dest!: in_set_takeD simp: cstr_no_NUL)
qed

lemma label_text_no_NUL: "0 \<notin> set (label_text wd comm)"
proof -
  have "0 \<notin> set (take 52 (label_base c))" for c
    using label_base_no_NUL by (meson in_set_takeD)
  then show ?thesis
    by (auto simp: label_text_def label_base_no_NUL printf_d_no_NUL split: comm_handle.splits)
qed

lemma edumpi_comm_label_text:
  assumes "length out = 64"
  shows "\<exists>out'. edumpi_comm_label wd comm out 64 = Some out' \<and> terminated 64 out' \<and>
    cstr out' = take 63 (label_text wd comm)"
proof -
  have out: "poke 0 0 out = Some (out[0 := 0])" using assms by (simp add: poke_def)
  show ?thesis
  proof (cases "comm = Comm_NULL \<or> comm = MPI_COMM_NULL")
    case True
    have "out[0 := 0] = 0 # drop 1 out" using assms by (cases out) auto
    then show ?thesis
      using True assms by (auto simp: edumpi_comm_label_def out label_text_def terminated_def cstr_def)
  next
    case False
    then have "edumpi_comm_label wd comm out 64 = snprintf (out[0 := 0]) 64 (label_text wd comm)"
      by (auto simp: edumpi_comm_label_def out label_text_def split: comm_handle.splits)
    then show ?thesis
      using snprintf_cstr [of 64 "out[0 := 0]" "label_text wd comm"] assms label_text_no_NUL
      by (auto simp: terminated_def)
  qed
qed

lemma label_text_split_part:
  assumes "\<not> c_inter c" and "ompi_comm_size c < ompi_comm_size wd"
    and "edumpi_world_rank (Comm c) 0 = int r" and "r < 10 ^ 9"
  shows "take 63 (label_text wd (Comm c)) = take 52 (label_base c) @ ascii '' @'' @ dec_digits r"
  using assms length_dec_digits [of 9 r] by (simp add: label_text_def printf_d_def)

section \<open>World ranks\<close>

lemma edumpi_world_rank_member:
  assumes "\<not> c_inter c" and "c_remote_group c = c_local_group c"
    and "r < length (c_local_group c)" and "c_local_group c ! r = Some v"
  shows "edumpi_world_rank (Comm c) (int r) = sint v"
  using assms by (simp add: edumpi_world_rank_def ompi_comm_size_def ompi_comm_peer_lookup_def)

section \<open>initQentry\<close>

lemma length_convert_MPI_datatype:
  "length field = 64 \<Longrightarrow> \<exists>f. convert_MPI_datatype t field = Some f"
  by (cases t) (auto simp: overwrite_Some)

lemma op_name_shape: "0 \<notin> set (get_mpi_op_name op) \<and> length (get_mpi_op_name op) \<in> {7, 8, 10}"
  by (cases op) simp_all

text \<open>
  The operation name is copied with a fixed length of 10, which reads up to two bytes past the
  literal; whatever lies there, the field still reads back as the name.
\<close>

lemma op_name_copy:
  assumes "2 \<le> length b"
  shows "\<exists>f. memcpy (replicate 30 0) (get_mpi_op_name op @ 0 # b) 10 = Some f \<and> cstr f = get_mpi_op_name op"
proof -
  let ?n = "get_mpi_op_name op"
  have n: "0 \<notin> set ?n" "length ?n \<le> 10" "7 \<le> length ?n" using op_name_shape [of op] by auto
  have "memcpy (replicate 30 0) (?n @ 0 # b) 10 = Some (take 10 (?n @ 0 # b) @ replicate 20 0)"
    using n assms by (simp add: memcpy_def overwrite_Some)
  moreover have "\<exists>r. take 10 (?n @ 0 # b) @ replicate 20 0 = ?n @ 0 # r"
  proof (cases "length ?n = 10")
    case True
    then show ?thesis by (simp add: numeral_eq_Suc)
  next
    case False
    then have "10 - length ?n = Suc (9 - length ?n)" using n by simp
    then show ?thesis using n by simp
  qed
  ultimately show ?thesis using cstr_append_NUL [OF n(1)] by auto
qed

lemma mark_coll_partner_Some:
  assumes "wf_entry e" and "v < 400"
  obtains e' where "mark_coll_partner v e = Some e'" "wf_entry e'"
    "\<And>w. w < 400 \<Longrightarrow> bit (coll_partnerranks e' ! (w div 8)) (w mod 8) \<longleftrightarrow>
        w = v \<or> bit (coll_partnerranks e ! (w div 8)) (w mod 8)"
proof -
  let ?r = "coll_partnerranks e"
  let ?e = "e\<lparr>coll_partnerranks := ?r[v div 8 := ?r ! (v div 8) OR push_bit (v mod 8) 1]\<rparr>"
  have len: "length ?r = 50" using assms(1) by (simp add: wf_entry_def)
  have "mark_coll_partner v e = Some ?e"
    using assms(2) len by (simp add: mark_coll_partner_def Let_def)
  moreover have "wf_entry ?e" using assms(1) by (simp add: wf_entry_def)
  moreover have "bit (coll_partnerranks ?e ! (w div 8)) (w mod 8) \<longleftrightarrow>
        w = v \<or> bit (?r ! (w div 8)) (w mod 8)" if "w < 400" for w
  proof (cases "w div 8 = v div 8")
    case True
    then have "w mod 8 = v mod 8 \<longleftrightarrow> w = v" by (metis div_mult_mod_eq)
    moreover have "w mod 8 < 8" "v mod 8 < 8" by simp_all
    ultimately show ?thesis
      using True that len by (auto simp: bit_simps)
  next
    case False
    then show ?thesis by auto
  qed
  ultimately show thesis by (rule that)
qed

lemma initQentry_fresh:
  assumes "length func < 30" "0 \<notin> set func" "length ct < 30" "0 \<notin> set ct"
    and "proc_name_length env \<le> length (proc_name env)" "proc_name_length env < 30"
    and "0 \<notin> set (take (proc_name_length env) (proc_name env))" and "2 \<le> length (beyond env)"
  shows "\<exists>e. initQentry env (Some ((zero_entry lc)\<lparr>start' := t\<rparr>)) dest func (length func) sc rc ct (length ct) st rt comm bl op
      = Some (Some e) \<and> start' e = t \<and>
    wf_entry e \<and> cstr (function' e) = func \<and> cstr (communicationType e) = ct \<and>
    cstr (processorname e) = take (proc_name_length env) (proc_name env) \<and>
    cstr (communicationArea e) = take 63 (label_text (world env) comm) \<and>
    cstr (usedAlgorithm e) = [] \<and> processrank' e = processrank env \<and>
    partnerrank e = edumpi_world_rank comm dest \<and> end' e = zero_timespec \<and>
    pending_request e = 0 \<and> request_done e = 0 \<and> lifecycle e = lc \<and>
    coll_partnerranks e = replicate 50 0 \<and>
    (case op of None \<Rightarrow> True | Some p \<Rightarrow> cstr (operation e) = get_mpi_op_name p)"
proof -
  let ?pn = "take (proc_name_length env) (proc_name env)"
  have lpn: "length ?pn = proc_name_length env" using assms(5) by simp
  note f = memcpy_zeros [OF assms(1,2)] overwrite_zeros(2,3) [OF assms(1,2)]
  note c = memcpy_zeros [OF assms(3,4)] overwrite_zeros(2,3) [OF assms(3,4)]
  have p: "memcpy (replicate 30 0) (proc_name env) (proc_name_length env) =
      Some (?pn @ replicate (30 - proc_name_length env) 0)"
    "terminated 30 (?pn @ replicate (30 - proc_name_length env) 0)"
    "cstr (?pn @ replicate (30 - proc_name_length env) 0) = ?pn"
    using overwrite_zeros [of ?pn 30] assms(5-7) by (simp_all add: memcpy_def lpn)
  obtain sd rd where
    sd: "(case st of None \<Rightarrow> Some (replicate 64 0) | Some t \<Rightarrow> convert_MPI_datatype t (replicate 64 0)) = Some sd" and
    rd: "(case rt of None \<Rightarrow> Some (replicate 64 0) | Some t \<Rightarrow> convert_MPI_datatype t (replicate 64 0)) = Some rd"
    using length_convert_MPI_datatype [of "replicate 64 0"] by (force split: option.splits)
  obtain opn where
    opn: "(case op of None \<Rightarrow> Some (replicate 30 0)
       | Some o' \<Rightarrow> memcpy (replicate 30 0) (get_mpi_op_name o' @ 0 # beyond env) 10) = Some opn"
    and opn': "\<And>o'. op = Some o' \<Longrightarrow> cstr opn = get_mpi_op_name o'"
    using op_name_copy [OF assms(8)] by (cases op) force+
  obtain area where area: "edumpi_comm_label (world env) comm (replicate 64 0) 64 = Some area"
    "terminated 64 area" "cstr area = take 63 (label_text (world env) comm)"
    using edumpi_comm_label_text [of "replicate 64 0"] by force
  have u: "cstr (replicate 30 0) = []" by (simp add: cstr_def numeral_eq_Suc)
  show ?thesis
    by (simp add: initQentry_def initQentry_item_def zero_entry_def Let_def f c p sd rd opn area opn' u
        wf_entry_def cong: option.case_cong split: option.split)
qed
section \<open>Properties\<close>

text \<open>The time difference that is stored with every event is the exact distance of the two
  time stamps in seconds, on both branches of the borrow of a second, also for an end before the
  start.\<close>

lemma timespec_diff_exact:
  "timespec_diff s e =
     of_int ((tv_sec e * 1000000000 + tv_nsec e) - (tv_sec s * 1000000000 + tv_nsec s)) / 1000000000"
  by (simp add: timespec_diff_def Let_def field_simps)

text \<open>C15: \<open>initQentry\<close> on a claimed (zeroed) slot whose start time is set: for every function name and
  communication type shorter than 30 characters and every host name shorter than 30, no copy leaves its array, and the
  entry then reads back as the function, the type, the host, the label of the communicator, the rank in
  \<^verbatim>\<open>MPI_COMM_WORLD\<close> of the partner and the operation; it is not yet complete, has no request and no
  collective partners, and the start time and the ticket are kept.\<close>

theorem initQentry_records:
  assumes "length func < 30" "0 \<notin> set func" "length ct < 30" "0 \<notin> set ct"
    and "proc_name_length env \<le> length (proc_name env)" "proc_name_length env < 30"
    and "0 \<notin> set (take (proc_name_length env) (proc_name env))" and "2 \<le> length (beyond env)"
  shows "\<exists>e. initQentry env (Some ((zero_entry lc)\<lparr>start' := t\<rparr>)) dest func (length func) sc rc ct (length ct) st rt comm bl op
      = Some (Some e) \<and> wf_entry e \<and> start' e = t \<and> cstr (function' e) = func \<and> cstr (communicationType e) = ct \<and>
    cstr (processorname e) = take (proc_name_length env) (proc_name env) \<and>
    cstr (communicationArea e) = take 63 (label_text (world env) comm) \<and>
    partnerrank e = edumpi_world_rank comm dest \<and> end' e = zero_timespec \<and>
    pending_request e = 0 \<and> lifecycle e = lc \<and> coll_partnerranks e = replicate 50 0 \<and>
    (case op of None \<Rightarrow> True | Some p \<Rightarrow> cstr (operation e) = get_mpi_op_name p)"
  using initQentry_fresh [OF assms, of t lc dest sc rc st rt comm bl op] by fastforce

definition demo_env :: edu_env where
  "demo_env = \<lparr>proc_name = ascii ''node1'', proc_name_length = 5, processrank = 1,
     world = \<lparr>c_name = None, c_index = 0, c_my_rank = 1, c_inter = False, c_freed = False, c_invalid = False, c_topo = None, c_revoked = False, c_coll_revoked = False,
       c_local_group = [Some 0, Some 1, Some 2], c_remote_group = [Some 0, Some 1, Some 2]\<rparr>,
     beyond = [0, 0]\<rparr>"

theorem initQentry_records_witness:
  "\<exists>e. initQentry demo_env (Some ((zero_entry 4)\<lparr>start' := zero_timespec\<rparr>)) 2 (ascii ''MPI_Reduce'') (length (ascii ''MPI_Reduce'')) 0 0
      (ascii ''collective'') (length (ascii ''collective'')) (Some MPI_INT) (Some MPI_INT) MPI_COMM_WORLD 1 (Some MPI_SUM) = Some (Some e) \<and>
    cstr (function' e) = ascii ''MPI_Reduce'' \<and> partnerrank e = 2 \<and> cstr (operation e) = ascii ''MPI_SUM''"
proof -
  have "length (ascii ''MPI_Reduce'') < 30" "0 \<notin> set (ascii ''MPI_Reduce'')" "length (ascii ''collective'') < 30"
    "0 \<notin> set (ascii ''collective'')" "proc_name_length demo_env \<le> length (proc_name demo_env)" "proc_name_length demo_env < 30"
    "0 \<notin> set (take (proc_name_length demo_env) (proc_name demo_env))" "2 \<le> length (beyond demo_env)"
    by (simp_all add: demo_env_def)
  from initQentry_records [OF this, of zero_timespec 4 2 0 0 "Some MPI_INT" "Some MPI_INT" MPI_COMM_WORLD 1 "Some MPI_SUM"]
  show ?thesis by (simp add: edumpi_world_rank_def del: ascii_Cons) blast
qed

text \<open>The parts of a split communicator get different labels: for two intra-communicators that are
  smaller than \<^verbatim>\<open>MPI_COMM_WORLD\<close>, have the same name and whose first members are different world ranks (below
  a thousand million), the labels in the 64-byte fields differ and are NUL-terminated.\<close>

theorem comm_label_separates_parts:
  assumes "\<not> c_inter c" "\<not> c_inter c'" "label_base c = label_base c'"
    and "ompi_comm_size c < ompi_comm_size wd" "ompi_comm_size c' < ompi_comm_size wd"
    and "edumpi_world_rank (Comm c) 0 = int r" "edumpi_world_rank (Comm c') 0 = int r'" "r < 10 ^ 9" "r' < 10 ^ 9" "r \<noteq> r'"
    and "length out = 64" "length out' = 64"
  shows "\<exists>l l'. edumpi_comm_label wd (Comm c) out 64 = Some l \<and> edumpi_comm_label wd (Comm c') out' 64 = Some l' \<and>
    terminated 64 l \<and> terminated 64 l' \<and> cstr l \<noteq> cstr l'"
proof -
  obtain l where l: "edumpi_comm_label wd (Comm c) out 64 = Some l" "terminated 64 l" "cstr l = take 63 (label_text wd (Comm c))"
    using edumpi_comm_label_text [OF assms(11)] by blast
  obtain l' where l': "edumpi_comm_label wd (Comm c') out' 64 = Some l'" "terminated 64 l'" "cstr l' = take 63 (label_text wd (Comm c'))"
    using edumpi_comm_label_text [OF assms(12)] by blast
  have "cstr l \<noteq> cstr l'"
    using label_text_split_part [OF assms(1,4,6,8)] label_text_split_part [OF assms(2,5,7,9)] assms(3,10) l(3) l'(3)
    by (simp add: dec_digits_inject)
  then show ?thesis using l l' by blast
qed

definition demo_part :: "32 word \<Rightarrow> communicator" where
  "demo_part v = \<lparr>c_name = None, c_index = 3, c_my_rank = 0, c_inter = False, c_freed = False, c_invalid = False, c_topo = None, c_revoked = False, c_coll_revoked = False,
       c_local_group = [Some v], c_remote_group = [Some v]\<rparr>"

theorem comm_label_separates_parts_witness:
  "\<exists>l l'. edumpi_comm_label (world demo_env) (Comm (demo_part 0)) (replicate 64 0) 64 = Some l \<and>
     edumpi_comm_label (world demo_env) (Comm (demo_part 2)) (replicate 64 0) 64 = Some l' \<and> cstr l \<noteq> cstr l'"
proof -
  have a: "\<not> c_inter (demo_part v)" "label_base (demo_part v) = label_base (demo_part 2)"
    "ompi_comm_size (demo_part v) < ompi_comm_size (world demo_env)" for v
    by (simp_all add: demo_part_def demo_env_def label_base_def ompi_comm_size_def)
  have r: "edumpi_world_rank (Comm (demo_part 0)) 0 = int 0" "edumpi_world_rank (Comm (demo_part 2)) 0 = int 2"
    by (simp_all add: edumpi_world_rank_def demo_part_def ompi_comm_size_def ompi_comm_peer_lookup_def)
  show ?thesis
    using comm_label_separates_parts [OF a(1) a(1) a(2) a(3) a(3) r, of "replicate 64 0" "replicate 64 0"] by auto
qed

text \<open>The partner mask of a collective call records exactly the partners marked: marking a world rank below
  400 sets its bit and no other, and a rank of 400 or more would be stored outside the 50-byte mask.\<close>

theorem mark_coll_partner_mask:
  assumes "wf_entry e"
  shows "if v < 400 then \<exists>e'. mark_coll_partner v e = Some e' \<and> wf_entry e' \<and>
      (\<forall>w < 400. bit (coll_partnerranks e' ! (w div 8)) (w mod 8) \<longleftrightarrow>
         w = v \<or> bit (coll_partnerranks e ! (w div 8)) (w mod 8))
    else mark_coll_partner v e = None"
proof (cases "v < 400")
  case True
  then show ?thesis using mark_coll_partner_Some [OF assms True] by (metis (no_types, lifting))
next
  case False
  then have "50 \<le> v div 8" by simp
  then show ?thesis using assms False by (simp add: mark_coll_partner_def Let_def wf_entry_def)
qed

theorem mark_coll_partner_mask_witness:
  "(\<exists>e'. mark_coll_partner 9 (zero_entry 4) = Some e' \<and> wf_entry e') \<and> mark_coll_partner 400 (zero_entry 4) = None"
  using mark_coll_partner_mask [OF wf_zero_entry, of 9 4] mark_coll_partner_mask [OF wf_zero_entry, of 400 4] by auto

text \<open>The lifecycle word packs a ticket and a state without loss (for tickets below \<open>2 ^ 62\<close>), and
  \<open>edumpi_lifecycle_try_abandon\<close> succeeds exactly in state PENDING, where it moves to ABANDONED and keeps the
  ticket; in every other state it changes nothing.\<close>

theorem lifecycle_word:
  assumes "s \<in> lc_values" and "unat t < 2 ^ 62" and "lifecycle e = EDUMPI_LC t s"
  shows "lc_state (lifecycle e) = s \<and> drop_bit 2 (lifecycle e) = t \<and>
    edumpi_lifecycle_try_abandon e =
      (if s = EDUMPI_LC_PENDING then (True, e\<lparr>lifecycle := EDUMPI_LC t EDUMPI_LC_ABANDONED\<rparr>) else (False, e))"
  using LC_state [OF assms(1), of t] LC_ticket [OF assms(1,2)] LC_abandon [of t] assms(3)
  by (auto simp: lc_state_def edumpi_lifecycle_try_abandon_def Let_def)

theorem lifecycle_word_witness:
  "lc_state (lifecycle (zero_entry (EDUMPI_LC 9 EDUMPI_LC_PENDING))) = EDUMPI_LC_PENDING"
  using lifecycle_word [of EDUMPI_LC_PENDING 9 "zero_entry (EDUMPI_LC 9 EDUMPI_LC_PENDING)"] by (simp add: zero_entry_def)

end
