(* ===== verification/Fifo.thy ===== *)
theory Fifo
  imports Main
begin

text \<open>
  The first-in-first-out contract between the code that logs events and the code that writes them
  out: what is put in while there is room comes out once and in order. It is stated for any queue
  representation; the multi-producer ring (\<open>AmtRing\<close>) meets it.
\<close>

datatype 'e fifo_op = Put 'e | Get

text \<open>A run of operations: the inputs that found room, the outputs, and the final queue.\<close>

fun fifo_run ::
  "('q \<Rightarrow> bool) \<Rightarrow> ('e \<Rightarrow> 'q \<Rightarrow> 'q) \<Rightarrow> ('q \<Rightarrow> 'e option \<times> 'q) \<Rightarrow> 'e fifo_op list \<Rightarrow> 'q \<Rightarrow>
   'e list \<times> 'e list \<times> 'q" where
  "fifo_run room put get [] q = ([], [], q)"
| "fifo_run room put get (Put e # ops) q =
     (case fifo_run room put get ops (put e q) of
        (ins, outs, q') \<Rightarrow> ((if room q then e # ins else ins), outs, q'))"
| "fifo_run room put get (Get # ops) q =
     (case get q of (x, q1) \<Rightarrow>
        (case fifo_run room put get ops q1 of
           (ins, outs, q') \<Rightarrow> (ins, (case x of None \<Rightarrow> outs | Some y \<Rightarrow> y # outs), q')))"

locale fifo =
  fixes inv :: "'q \<Rightarrow> bool"
    and elems :: "'q \<Rightarrow> 'e list"
    and room :: "'q \<Rightarrow> bool"
    and put :: "'e \<Rightarrow> 'q \<Rightarrow> 'q"
    and get :: "'q \<Rightarrow> 'e option \<times> 'q"
  assumes put_inv: "inv q \<Longrightarrow> inv (put e q)"
    and put_room: "inv q \<Longrightarrow> room q \<Longrightarrow> elems (put e q) = elems q @ [e]"
    and put_full: "inv q \<Longrightarrow> \<not> room q \<Longrightarrow> elems (put e q) = elems q"
    and get_inv: "inv q \<Longrightarrow> inv (snd (get q))"
    and get_Nil: "inv q \<Longrightarrow> elems q = [] \<Longrightarrow> fst (get q) = None \<and> elems (snd (get q)) = []"
    and get_Cons: "inv q \<Longrightarrow> elems q = x # xs \<Longrightarrow> fst (get q) = Some x \<and> elems (snd (get q)) = xs"
begin

lemma run_conserves:
  assumes "inv q" and "fifo_run room put get ops q = (ins, outs, q')"
  shows "inv q' \<and> elems q @ ins = outs @ elems q'"
  using assms
proof (induction ops arbitrary: q ins outs q')
  case Nil
  then show ?case by simp
next
  case (Cons op ops)
  show ?case
  proof (cases op)
    case (Put e)
    obtain ins1 where r: "fifo_run room put get ops (put e q) = (ins1, outs, q')"
      and i: "ins = (if room q then e # ins1 else ins1)"
      using Cons.prems(2) Put by (auto split: prod.splits)
    from Cons.IH [OF put_inv [OF Cons.prems(1)] r] i show ?thesis
      using put_room [OF Cons.prems(1)] put_full [OF Cons.prems(1)] by auto
  next
    case Get
    obtain x q1 outs1 where g: "get q = (x, q1)" and r: "fifo_run room put get ops q1 = (ins, outs1, q')"
      and o: "outs = (case x of None \<Rightarrow> outs1 | Some y \<Rightarrow> y # outs1)"
      using Cons.prems(2) Get by (auto split: prod.splits)
    have "inv q1" using get_inv [OF Cons.prems(1)] g by simp
    from Cons.IH [OF this r] o g show ?thesis
      using get_Nil [OF Cons.prems(1)] get_Cons [OF Cons.prems(1)] by (cases "elems q") auto
  qed
qed

text \<open>From an empty queue the outputs are a prefix of the accepted inputs.\<close>

lemma run_prefix:
  assumes "inv q" and "elems q = []" and "fifo_run room put get ops q = (ins, outs, q')"
  shows "ins = outs @ elems q'"
  using run_conserves [OF assms(1,3)] assms(2) by simp

end

end
