(* ===== verification/AmtRing.thy ===== *)
theory AmtRing
  imports Qentry Fifo
begin

text \<open>
  The multi-producer single-consumer event ring of \<^verbatim>\<open>src/ompi/mpi/c/edumpi_ring.h\<close>: its state,
  its operations run without interference, and the first-in-first-out contract they meet. The
  theory \<open>AmtThreads\<close> interleaves the atomic accesses of the same operations.
\<close>

section \<open>State\<close>

datatype slot_state = EDUMPI_SLOT_FREE | EDUMPI_SLOT_ACTIVE

record amt_ring =
  slots :: "qentry list"
  states :: "slot_state list"
  rsize :: int
  stall_ns :: int
  request_wait_ns :: int
  head :: int
  dropped :: uint64
  tail :: int
  stalled :: bool
  stall_since :: timespec

text \<open>
  \<open>edumpi_amt_ring_init\<close>: \<open>ok1\<close> and \<open>ok2\<close> say whether the two \<^verbatim>\<open>calloc\<close> calls got memory. Freed
  arrays are empty lists; the result code is the first component.
\<close>

definition edumpi_amt_ring_init :: "bool \<Rightarrow> bool \<Rightarrow> int \<Rightarrow> int \<Rightarrow> int \<Rightarrow> int \<times> amt_ring" where
  "edumpi_amt_ring_init ok1 ok2 sz stall_ms request_wait_ms =
     (let r = \<lparr>slots = [], states = [], rsize = 0, stall_ns = 0, request_wait_ns = 0,
               head = 0, dropped = 0, tail = 0, stalled = False, stall_since = zero_timespec\<rparr> in
      if \<not> ok1 \<or> \<not> ok2 then (-1, r)
      else (0, r\<lparr>slots := replicate (nat sz) (zero_entry 0),
                 states := replicate (nat sz) EDUMPI_SLOT_FREE, rsize := sz,
                 stall_ns := stall_ms * 1000000, request_wait_ns := request_wait_ms * 1000000\<rparr>))"

definition edumpi_amt_ring_destroy :: "amt_ring \<Rightarrow> amt_ring" where
  "edumpi_amt_ring_destroy r = r\<lparr>slots := [], states := []\<rparr>"

definition slot_index :: "amt_ring \<Rightarrow> int \<Rightarrow> nat" where
  "slot_index r k = nat (c_mod k (rsize r))"

section \<open>Claiming a slot\<close>

text \<open>The pointer a producer gets: a slot of the ring, or its thread's scratch entry.\<close>

datatype claimed = Slot nat | Scratch

definition edumpi_amt_ring_claim :: "amt_ring \<Rightarrow> claimed \<times> amt_ring" where
  "edumpi_amt_ring_claim r =
     (let h = head r; t = tail r in
      if h - t \<ge> rsize r then (Scratch, r\<lparr>dropped := dropped r + 1\<rparr>)
      else let idx = slot_index r h in
        (Slot idx,
         r\<lparr>head := h + 1,
           slots := (slots r)[idx := edumpi_entry_reset (slots r ! idx) (of_int h + 1)],
           states := (states r)[idx := EDUMPI_SLOT_ACTIVE]\<rparr>))"

section \<open>Draining\<close>

definition edumpi_amt_entry_complete :: "qentry \<Rightarrow> bool" where
  "edumpi_amt_entry_complete e \<longleftrightarrow> tv_sec (end' e) \<noteq> 0 \<or> tv_nsec (end' e) \<noteq> 0"

definition edumpi_amt_request_ready :: "qentry \<Rightarrow> bool" where
  "edumpi_amt_request_ready e \<longleftrightarrow> pending_request e = 0 \<or> request_done e \<noteq> 0"

text \<open>The clock readings (nanoseconds) of one iteration are parameters.\<close>

definition edumpi_amt_age_ns :: "int \<Rightarrow> qentry \<Rightarrow> int" where
  "edumpi_amt_age_ns t_now e = t_now - (tv_sec (end' e) * 1000000000 + tv_nsec (end' e))"

text \<open>What one iteration of the drain loop does with the entry at the tail.\<close>

datatype verdict = Break | Abandon | Emit

definition drain_check :: "int \<Rightarrow> int \<Rightarrow> bool \<Rightarrow> amt_ring \<Rightarrow> qentry \<Rightarrow> verdict \<times> amt_ring \<times> qentry" where
  "drain_check t_real t_mono force r e =
     (let ended = edumpi_amt_entry_complete e;
          ready = force \<or> (ended \<and> edumpi_amt_request_ready e) in
      if \<not> ready \<and> ended then
        (if edumpi_amt_age_ns t_real e < request_wait_ns r then (Break, r, e)
         else if lifecycle e AND 3 = EDUMPI_LC_FINISHING then (Break, r, e)
         else case edumpi_lifecycle_try_abandon e of
             (True, e') \<Rightarrow> (Abandon, r, e')
           | (False, e') \<Rightarrow> (Emit, r, e'))
      else if \<not> ready then
        (let now = t_mono in
         if \<not> stalled r then
           (Break, r\<lparr>stalled := True,
              stall_since := \<lparr>tv_sec = c_div now 1000000000, tv_nsec = c_mod now 1000000000\<rparr>\<rparr>, e)
         else let since = tv_sec (stall_since r) * 1000000000 + tv_nsec (stall_since r) in
           if now - since < stall_ns r then (Break, r, e) else (Emit, r, e))
      else (Emit, r, e))"

text \<open>\<open>r->stalled = 0\<close>, the slot state and the tail, at the end of an iteration.\<close>

definition free_slot :: "amt_ring \<Rightarrow> nat \<Rightarrow> qentry \<Rightarrow> amt_ring" where
  "free_slot r idx e =
     r\<lparr>stalled := False, slots := (slots r)[idx := e],
       states := (states r)[idx := EDUMPI_SLOT_FREE], tail := tail r + 1\<rparr>"

text \<open>
  \<open>edumpi_amt_ring_drain\<close>: \<open>rt\<close> and \<open>mt\<close> are the clocks at each iteration; the entries
  handed to the callback are collected in order.
\<close>

function drain_loop ::
  "(int \<Rightarrow> int) \<Rightarrow> (int \<Rightarrow> int) \<Rightarrow> bool \<Rightarrow> int \<Rightarrow> int \<Rightarrow> amt_ring \<Rightarrow> qentry list \<Rightarrow> int \<times> amt_ring \<times> qentry list" where
  "drain_loop rt mt force maxn n r out =
     (if n < maxn then
        (if tail r \<ge> head r then (n, r, out)
         else let idx = slot_index r (tail r) in
           if states r ! idx \<noteq> EDUMPI_SLOT_ACTIVE then (n, r, out)
           else case drain_check (rt n) (mt n) force r (slots r ! idx) of
               (Break, r', e) \<Rightarrow> (n, r', out)
             | (Abandon, r', e) \<Rightarrow> drain_loop rt mt force maxn (n + 1) (free_slot r' idx e) out
             | (Emit, r', e) \<Rightarrow> drain_loop rt mt force maxn (n + 1) (free_slot r' idx e) (out @ [e]))
      else (n, r, out))"
  by pat_completeness auto
termination
  by (relation "measure (\<lambda>(rt, mt, force, maxn, n, r, out). nat (maxn - n))") auto

declare drain_loop.simps [simp del]

definition edumpi_amt_ring_drain ::
  "(int \<Rightarrow> int) \<Rightarrow> (int \<Rightarrow> int) \<Rightarrow> bool \<Rightarrow> int \<Rightarrow> amt_ring \<Rightarrow> int \<times> amt_ring \<times> qentry list" where
  "edumpi_amt_ring_drain rt mt force maxn r = drain_loop rt mt force maxn 0 r []"

definition edumpi_amt_ring_dropped :: "amt_ring \<Rightarrow> uint64" where
  "edumpi_amt_ring_dropped r = dropped r"

section \<open>Invariant and contents\<close>

text \<open>The invariant between operations: the active slots are those of the tickets in the window.\<close>

definition ring_inv :: "amt_ring \<Rightarrow> bool" where
  "ring_inv r \<longleftrightarrow> 0 < rsize r \<and> length (slots r) = nat (rsize r) \<and> length (states r) = nat (rsize r) \<and>
     0 \<le> tail r \<and> tail r \<le> head r \<and> head r \<le> tail r + rsize r \<and>
     (\<forall>k. tail r \<le> k \<and> k < head r \<longrightarrow> states r ! slot_index r k = EDUMPI_SLOT_ACTIVE) \<and>
     (\<forall>k. head r \<le> k \<and> k < tail r + rsize r \<longrightarrow> states r ! slot_index r k = EDUMPI_SLOT_FREE)"

definition slot_at :: "amt_ring \<Rightarrow> int \<Rightarrow> qentry" where
  "slot_at r k = slots r ! slot_index r k"

text \<open>The entries of the tickets that are claimed and not yet consumed, oldest first.\<close>

definition contents :: "amt_ring \<Rightarrow> qentry list" where
  "contents r = map (slot_at r) [tail r..head r - 1]"

section \<open>Slots of the window\<close>

lemma mod_window_inj:
  fixes s :: int
  assumes "k mod s = k' mod s" and "t \<le> k" "k < t + s" "t \<le> k'" "k' < t + s"
  shows "k = k'"
proof -
  have "s dvd k - k'" using assms(1) by (simp add: mod_eq_dvd_iff)
  moreover have "\<bar>k - k'\<bar> < \<bar>s\<bar>" using assms(2-) by linarith
  ultimately show ?thesis using dvd_imp_le_int [of "k - k'" s] by linarith
qed

lemma slot_index_nonneg: "0 \<le> k \<Longrightarrow> 0 \<le> rsize r \<Longrightarrow> slot_index r k = nat (k mod rsize r)"
  by (simp add: slot_index_def)

lemma slot_index_bound: "0 \<le> k \<Longrightarrow> 0 < rsize r \<Longrightarrow> slot_index r k < nat (rsize r)"
  by (simp add: slot_index_nonneg)

lemma slot_index_inj:
  assumes "slot_index r k = slot_index r k'" and "0 < rsize r" and "0 \<le> t"
    and "t \<le> k" "k < t + rsize r" "t \<le> k'" "k' < t + rsize r"
  shows "k = k'"
proof -
  have "0 \<le> k mod rsize r" "0 \<le> k' mod rsize r" using assms(2) by simp_all
  then have "k mod rsize r = k' mod rsize r"
    using assms(1-4,6) by (simp add: slot_index_nonneg nat_eq_iff2)
  then show ?thesis
    using assms(4-) by (rule mod_window_inj)
qed

lemma slot_index_cong: "rsize r' = rsize r \<Longrightarrow> slot_index r' k = slot_index r k"
  by (simp add: slot_index_def)

lemma ring_invD:
  assumes "ring_inv r"
  shows "0 < rsize r" "length (slots r) = nat (rsize r)" "length (states r) = nat (rsize r)"
    "0 \<le> tail r" "tail r \<le> head r" "head r \<le> tail r + rsize r"
    "\<And>k. tail r \<le> k \<Longrightarrow> k < head r \<Longrightarrow> states r ! slot_index r k = EDUMPI_SLOT_ACTIVE"
    "\<And>k. head r \<le> k \<Longrightarrow> k < tail r + rsize r \<Longrightarrow> states r ! slot_index r k = EDUMPI_SLOT_FREE"
  using assms by (auto simp: ring_inv_def)

lemma slot_index_neq:
  assumes "ring_inv r" "tail r \<le> k" "k < tail r + rsize r" "tail r \<le> k'" "k' < tail r + rsize r" "k \<noteq> k'"
  shows "slot_index r k \<noteq> slot_index r k'"
  using slot_index_inj [of r k k' "tail r"] ring_invD(1,4) [OF assms(1)] assms(2-) by blast

lemma contents_Cons:
  assumes "tail r < head r"
  shows "contents r = slot_at r (tail r) # map (slot_at r) [tail r + 1..head r - 1]"
proof -
  have "[tail r..head r - 1] = tail r # [tail r + 1..head r - 1]"
    using assms by (intro upto_rec1) simp
  then show ?thesis by (simp only: contents_def list.map)
qed

lemma length_contents: "ring_inv r \<Longrightarrow> length (contents r) = nat (head r - tail r)"
  by (simp add: contents_def ring_inv_def)

section \<open>Claim\<close>

lemma claim_full:
  "head r - tail r \<ge> rsize r \<Longrightarrow> edumpi_amt_ring_claim r = (Scratch, r\<lparr>dropped := dropped r + 1\<rparr>)"
  by (simp add: edumpi_amt_ring_claim_def)

definition fresh_entry :: "amt_ring \<Rightarrow> qentry" where
  "fresh_entry r = zero_entry (EDUMPI_LC (of_int (head r) + 1) EDUMPI_LC_NONE)"

lemma claim_room:
  assumes "ring_inv r" and "head r - tail r < rsize r" and "edumpi_amt_ring_claim r = (c, r')"
  shows "c = Slot (slot_index r (head r))" "ring_inv r'" "contents r' = contents r @ [fresh_entry r]"
    "head r' = head r + 1" "tail r' = tail r" "dropped r' = dropped r" "rsize r' = rsize r"
    "slot_at r' (head r) = fresh_entry r"
proof -
  note I = ring_invD [OF assms(1)]
  let ?i = "slot_index r (head r)"
  have c: "c = Slot ?i" and r': "r' = r\<lparr>head := head r + 1,
       slots := (slots r)[?i := fresh_entry r], states := (states r)[?i := EDUMPI_SLOT_ACTIVE]\<rparr>"
    using assms(2,3) by (simp_all add: edumpi_amt_ring_claim_def Let_def fresh_entry_def edumpi_entry_reset_def)
  have si: "slot_index r' k = slot_index r k" for k by (simp add: r' slot_index_def)
  have b: "?i < nat (rsize r)" using I(1,4,5) by (simp add: slot_index_bound)
  have other: "?i \<noteq> slot_index r k" if "tail r \<le> k" "k < tail r + rsize r" "k \<noteq> head r" for k
    using slot_index_neq [OF assms(1), of "head r" k] that I(5) assms(2) by linarith
  show "c = Slot ?i" by (rule c)
  show fr': "head r' = head r + 1" "tail r' = tail r" "dropped r' = dropped r" "rsize r' = rsize r"
    by (simp_all add: r')
  show s: "slot_at r' (head r) = fresh_entry r"
    using b I(2) by (simp add: slot_at_def si) (simp add: r')
  have A: "states r' ! slot_index r k = EDUMPI_SLOT_ACTIVE" if "tail r \<le> k" "k < head r + 1" for k
    using that other [of k] I(3,6) I(7) [of k] b assms(2) by (cases "k = head r") (simp_all add: r')
  have F: "states r' ! slot_index r k = EDUMPI_SLOT_FREE" if "head r + 1 \<le> k" "k < tail r + rsize r" for k
    using that other [of k] I(5) I(8) [of k] by (simp add: r')
  have fr: "length (slots r') = length (slots r)" "length (states r') = length (states r)"
    by (simp_all add: r')
  show "ring_inv r'"
    unfolding ring_inv_def si fr fr' using I(1-6) assms(2) A F by simp
  have "slot_at r' k = slot_at r k" if "k \<in> set [tail r..head r - 1]" for k
    using that other [of k] I(6) by (simp add: slot_at_def si) (simp add: r')
  then have "map (slot_at r') [tail r..head r - 1] = contents r"
    by (simp add: contents_def)
  moreover have "[tail r..head r + 1 - 1] = [tail r..head r - 1] @ [head r]"
    using I(5) upto_rec2 [of "tail r" "head r"] by simp
  ultimately show "contents r' = contents r @ [fresh_entry r]"
    using s by (simp only: contents_def [of r'] fr' map_append list.map)
qed

section \<open>Drain\<close>

lemma free_slot_inv:
  assumes "ring_inv r" and "tail r < head r"
  shows "ring_inv (free_slot r (slot_index r (tail r)) e)"
    and "contents (free_slot r (slot_index r (tail r)) e) = List.tl (contents r)"
proof -
  note I = ring_invD [OF assms(1)]
  let ?i = "slot_index r (tail r)" and ?r = "free_slot r (slot_index r (tail r)) e"
  have si: "slot_index ?r k = slot_index r k" for k by (simp add: free_slot_def slot_index_def)
  have b: "?i < nat (rsize r)" using I(1,4) by (simp add: slot_index_bound)
  have other: "?i \<noteq> slot_index r k" if "tail r < k" "k < tail r + rsize r" for k
    using slot_index_neq [OF assms(1), of "tail r" k] that I(1) by linarith
  have A: "states ?r ! slot_index r k = EDUMPI_SLOT_ACTIVE" if "tail r + 1 \<le> k" "k < head r" for k
    using that other [of k] I(6,7) by (simp add: free_slot_def)
  have F: "states ?r ! slot_index r k = EDUMPI_SLOT_FREE" if "head r \<le> k" "k < tail r + 1 + rsize r" for k
  proof (cases "k = tail r + rsize r")
    case True
    then have "slot_index r k = ?i" using I(1,4) by (simp add: slot_index_nonneg)
    then show ?thesis using b I(3) by (simp add: free_slot_def)
  next
    case False
    then show ?thesis using that other [of k] assms(2) I(8) by (simp add: free_slot_def)
  qed
  have fr: "rsize ?r = rsize r" "length (slots ?r) = length (slots r)" "length (states ?r) = length (states r)"
    "tail ?r = tail r + 1" "head ?r = head r" by (simp_all add: free_slot_def)
  show "ring_inv ?r"
    unfolding ring_inv_def si fr using I(1-6) assms(2) A F by simp
  have "slot_at ?r k = slot_at r k" if "k \<in> set [tail r + 1..head r - 1]" for k
    using that other [of k] I(6) by (simp add: slot_at_def si) (simp add: free_slot_def)
  then have "map (slot_at ?r) [tail r + 1..head r - 1] = map (slot_at r) [tail r + 1..head r - 1]"
    by simp
  then show "contents ?r = List.tl (contents r)"
    using contents_Cons [OF assms(2)] by (simp only: contents_def fr list.sel)
qed

text \<open>One iteration changes at most the stall stamp; only an abandoned entry is modified.\<close>

lemma drain_check_frame:
  assumes "drain_check t1 t2 force r e = (v, r', e')"
  shows "slots r' = slots r" "states r' = states r" "rsize r' = rsize r" "head r' = head r"
    "tail r' = tail r" "dropped r' = dropped r" "request_wait_ns r' = request_wait_ns r"
    "v \<noteq> Abandon \<Longrightarrow> e' = e"
  using assms
  by (auto simp: drain_check_def edumpi_lifecycle_try_abandon_def Let_def split: if_splits)

lemma drain_check_force: "drain_check t1 t2 True r e = (Emit, r, e)"
  by (simp add: drain_check_def)

lemma drain_check_Abandon:
  assumes "drain_check t1 t2 force r e = (Abandon, r', e')"
  shows "\<not> force" "edumpi_amt_entry_complete e" "\<not> edumpi_amt_request_ready e"
    "request_wait_ns r \<le> edumpi_amt_age_ns t1 e" "lifecycle e AND 3 = EDUMPI_LC_PENDING"
    "lifecycle e' = (lifecycle e AND NOT 3) OR EDUMPI_LC_ABANDONED"
  using assms
  by (auto simp: drain_check_def edumpi_lifecycle_try_abandon_def Let_def split: if_splits)

lemma drain_check_Emit:
  assumes "drain_check t1 t2 force r e = (Emit, r', e')" and "\<not> force"
  shows "edumpi_amt_entry_complete e \<and> (edumpi_amt_request_ready e \<or>
      request_wait_ns r \<le> edumpi_amt_age_ns t1 e \<and>
      lifecycle e AND 3 \<noteq> EDUMPI_LC_PENDING \<and> lifecycle e AND 3 \<noteq> EDUMPI_LC_FINISHING) \<or>
    \<not> edumpi_amt_entry_complete e \<and> stalled r \<and>
      stall_ns r \<le> t2 - (tv_sec (stall_since r) * 1000000000 + tv_nsec (stall_since r))"
  using assms
  by (auto simp: drain_check_def edumpi_lifecycle_try_abandon_def Let_def split: if_splits)

lemma ring_inv_cong:
  assumes "slots r' = slots r" "states r' = states r" "rsize r' = rsize r" "head r' = head r" "tail r' = tail r"
  shows "ring_inv r' = ring_inv r" "contents r' = contents r" "slot_index r' k = slot_index r k"
proof -
  show *: "slot_index r' k = slot_index r k" for k by (rule slot_index_cong) (rule assms)
  show "ring_inv r' = ring_inv r" unfolding ring_inv_def * assms ..
  have "slot_at r' k = slot_at r k" for k by (simp add: slot_at_def * assms)
  then show "contents r' = contents r" by (simp add: contents_def assms)
qed

text \<open>What a drain did with each entry it consumed, in ring order.\<close>

definition consumed_ok :: "(int \<Rightarrow> int) \<Rightarrow> bool \<Rightarrow> amt_ring \<Rightarrow> verdict list \<Rightarrow> bool" where
  "consumed_ok rt force r vs \<longleftrightarrow>
     (\<forall>i < length vs. let e = contents r ! i in
        vs ! i = Abandon \<and> \<not> force \<and> edumpi_amt_entry_complete e \<and> \<not> edumpi_amt_request_ready e \<and>
          (\<exists>t. request_wait_ns r \<le> edumpi_amt_age_ns (rt t) e) \<and> lifecycle e AND 3 = EDUMPI_LC_PENDING \<or>
        vs ! i = Emit \<and>
          (force \<or> i = 0 \<and> stalled r \<or>
           edumpi_amt_entry_complete e \<and>
             (edumpi_amt_request_ready e \<or>
              (\<exists>t. request_wait_ns r \<le> edumpi_amt_age_ns (rt t) e) \<and>
                lifecycle e AND 3 \<noteq> EDUMPI_LC_PENDING \<and> lifecycle e AND 3 \<noteq> EDUMPI_LC_FINISHING)))"

definition emitted :: "verdict list \<Rightarrow> qentry list \<Rightarrow> qentry list" where
  "emitted vs es = map snd (filter (\<lambda>(v, e). v = Emit) (zip vs es))"

lemma emitted_Cons [simp]: "emitted (v # vs) (e # es) = (if v = Emit then e # emitted vs es else emitted vs es)"
  by (simp add: emitted_def)

lemma emitted_Nil [simp]: "emitted [] es = []"
  by (simp add: emitted_def)

definition drain_result ::
  "(int \<Rightarrow> int) \<Rightarrow> bool \<Rightarrow> int \<Rightarrow> amt_ring \<Rightarrow> int \<Rightarrow> amt_ring \<Rightarrow> qentry list \<Rightarrow> bool" where
  "drain_result rt force maxn r n r' es \<longleftrightarrow>
     0 \<le> n \<and> (0 \<le> maxn \<longrightarrow> n \<le> maxn) \<and> ring_inv r' \<and> head r' = head r \<and> tail r' = tail r + n \<and>
     rsize r' = rsize r \<and> dropped r' = dropped r \<and> request_wait_ns r' = request_wait_ns r \<and>
     contents r' = drop (nat n) (contents r) \<and>
     (\<exists>vs. length vs = nat n \<and> n \<le> int (length (contents r)) \<and> es = emitted vs (contents r) \<and>
        consumed_ok rt force r vs)"

lemma drain_result_stop:
  assumes "ring_inv r"
    and "slots r' = slots r" "states r' = states r" "rsize r' = rsize r" "head r' = head r" "tail r' = tail r"
      "dropped r' = dropped r" "request_wait_ns r' = request_wait_ns r"
  shows "drain_result rt force maxn r 0 r' []"
  using assms ring_inv_cong(1,2) [OF assms(2-6)]
  by (auto simp: drain_result_def consumed_ok_def intro: exI [of _ "[]"])

lemma drain_result_step:
  assumes r: "ring_inv r" "tail r < head r"
    and chk: "drain_check (rt t) t2 force r (slots r ! slot_index r (tail r)) = (v, r1, e)" "v \<noteq> Break"
    and m: "0 < maxn"
    and rest: "drain_result rt force (maxn - 1) (free_slot r1 (slot_index r (tail r)) e) n r' es"
  shows "drain_result rt force maxn r (n + 1) r' ((if v = Emit then [e] else []) @ es)"
proof -
  let ?e = "slots r ! slot_index r (tail r)" and ?r2 = "free_slot r1 (slot_index r (tail r)) e"
  note F = drain_check_frame [OF chk(1)]
  note C = ring_inv_cong [OF F(1-5)]
  have tl: "tail r1 < head r1" "ring_inv r1" using r C(1) F(4,5) by simp_all
  have f: "contents ?r2 = List.tl (contents r)" "stalled ?r2 = False" "tail ?r2 = tail r + 1"
    "head ?r2 = head r" "rsize ?r2 = rsize r" "dropped ?r2 = dropped r" "request_wait_ns ?r2 = request_wait_ns r"
    using free_slot_inv(2) [OF tl(2,1), of e] C(2) C(3) [of "tail r"] F by (simp_all add: free_slot_def)
  obtain xs where hd: "contents r = ?e # xs"
    using contents_Cons [OF r(2)] by (simp add: slot_at_def)
  with f(1) have xs: "contents ?r2 = xs" by simp
  obtain vs where vs: "length vs = nat n" "n \<le> int (length (contents ?r2))" "es = emitted vs (contents ?r2)"
    "consumed_ok rt force ?r2 vs"
    and n: "0 \<le> n" "n \<le> maxn - 1" and rest': "contents r' = drop (nat n) (contents ?r2)" "ring_inv r'"
      "head r' = head r" "tail r' = tail r + 1 + n" "rsize r' = rsize r" "dropped r' = dropped r"
      "request_wait_ns r' = request_wait_ns r"
    using rest m unfolding drain_result_def f by auto
  have e: "v = Emit \<Longrightarrow> e = ?e" using F(8) by simp
  have first: "v = Abandon \<and> \<not> force \<and> edumpi_amt_entry_complete ?e \<and> \<not> edumpi_amt_request_ready ?e \<and>
      (\<exists>t. request_wait_ns r \<le> edumpi_amt_age_ns (rt t) ?e) \<and> lifecycle ?e AND 3 = EDUMPI_LC_PENDING \<or>
    v = Emit \<and> (force \<or> stalled r \<or> edumpi_amt_entry_complete ?e \<and>
      (edumpi_amt_request_ready ?e \<or> (\<exists>t. request_wait_ns r \<le> edumpi_amt_age_ns (rt t) ?e) \<and>
        lifecycle ?e AND 3 \<noteq> EDUMPI_LC_PENDING \<and> lifecycle ?e AND 3 \<noteq> EDUMPI_LC_FINISHING))"
    using chk drain_check_Abandon [of "rt t" t2 force r ?e r1 e] drain_check_Emit [of "rt t" t2 force r ?e r1 e]
    by (cases v) auto
  have len: "length (v # vs) = nat (n + 1)" "n + 1 \<le> int (length (contents r))"
    using vs(1,2) n(1) xs hd by (simp_all add: nat_add_distrib)
  have "consumed_ok rt force r (v # vs)"
    unfolding consumed_ok_def
  proof (intro allI impI)
    fix i assume i: "i < length (v # vs)"
    show "let e = contents r ! i in
        (v # vs) ! i = Abandon \<and> \<not> force \<and> edumpi_amt_entry_complete e \<and> \<not> edumpi_amt_request_ready e \<and>
          (\<exists>t. request_wait_ns r \<le> edumpi_amt_age_ns (rt t) e) \<and> lifecycle e AND 3 = EDUMPI_LC_PENDING \<or>
        (v # vs) ! i = Emit \<and>
          (force \<or> i = 0 \<and> stalled r \<or>
           edumpi_amt_entry_complete e \<and>
             (edumpi_amt_request_ready e \<or>
              (\<exists>t. request_wait_ns r \<le> edumpi_amt_age_ns (rt t) e) \<and>
                lifecycle e AND 3 \<noteq> EDUMPI_LC_PENDING \<and> lifecycle e AND 3 \<noteq> EDUMPI_LC_FINISHING))"
    proof (cases i)
      case 0
      then show ?thesis using first by (simp add: hd)
    next
      case (Suc j)
      then have "contents r ! i = contents ?r2 ! j" using hd xs by simp
      then show ?thesis
        using vs(4) i Suc f(2,7) unfolding consumed_ok_def Let_def by (auto dest!: spec [of _ j])
    qed
  qed
  moreover have "(if v = Emit then [e] else []) @ es = emitted (v # vs) (contents r)"
    using e vs(3) xs by (simp add: hd)
  moreover have "contents r' = drop (nat (n + 1)) (contents r)"
    using rest'(1) xs hd n(1) by (simp add: nat_add_distrib)
  ultimately show ?thesis
    unfolding drain_result_def using len n rest' by (auto intro!: exI [of _ "v # vs"])
qed

lemma drain_loop_result:
  assumes "ring_inv r" and "drain_loop rt mt force maxn n r out = (n', r', out')"
  shows "\<exists>es. out' = out @ es \<and> drain_result rt force (maxn - n) r (n' - n) r' es"
  using assms
proof (induction rt mt force maxn n r out arbitrary: n' r' out' rule: drain_loop.induct)
  case (1 rt mt force maxn n r out)
  let ?i = "slot_index r (tail r)"
  obtain v r1 e where chk: "drain_check (rt n) (mt n) force r (slots r ! ?i) = (v, r1, e)"
    by (metis prod_cases3)
  note F = drain_check_frame [OF chk]
  show ?case
  proof (cases "n < maxn \<and> tail r < head r \<and> states r ! ?i = EDUMPI_SLOT_ACTIVE \<and> v \<noteq> Break")
    case False
    then have "n' = n \<and> out' = out \<and> (r' = r \<or> r' = r1)"
      using "1.prems"(2) chk by (auto simp: drain_loop.simps [of rt mt force maxn n r out] Let_def split: if_splits)
    then show ?thesis
      using drain_result_stop [OF "1.prems"(1), of r'] F by auto
  next
    case True
    let ?o = "if v = Emit then out @ [e] else out" and ?r2 = "free_slot r1 ?i e"
    have step: "drain_loop rt mt force maxn (n + 1) ?r2 ?o = (n', r', out')"
      using True "1.prems"(2) chk
      by (cases v) (auto simp: drain_loop.simps [of rt mt force maxn n r out] Let_def)
    have "ring_inv r1" "tail r1 < head r1" "slot_index r1 (tail r1) = ?i"
      using "1.prems"(1) True ring_inv_cong [OF F(1-5)] F(4,5) by simp_all
    then have inv: "ring_inv ?r2" using free_slot_inv(1) by metis
    have "\<exists>es. out' = ?o @ es \<and> drain_result rt force (maxn - (n + 1)) ?r2 (n' - (n + 1)) r' es"
      using "1.IH" [OF _ _ refl _ chk [symmetric]] True step inv by (cases v) auto
    then obtain es where es: "out' = ?o @ es" "drain_result rt force (maxn - n - 1) ?r2 (n' - (n + 1)) r' es"
      by (auto simp: algebra_simps)
    have "drain_result rt force (maxn - n) r (n' - (n + 1) + 1) r' ((if v = Emit then [e] else []) @ es)"
      using True es(2) by (intro drain_result_step [where rt = rt and t = n, OF "1.prems"(1) _ chk]) auto
    then show ?thesis using es(1) by (auto split: if_splits)
  qed
qed

section \<open>Forced drain, as at shutdown\<close>

lemma drain_loop_force:
  assumes "ring_inv r" and "n \<le> maxn" and "drain_loop rt mt True maxn n r out = (n', r', out')"
  shows "n' - n = min (maxn - n) (head r - tail r) \<and> out' = out @ take (nat (n' - n)) (contents r)"
  using assms
proof (induction "rt" "mt" True maxn n r out arbitrary: n' r' out' rule: drain_loop.induct)
  case (1 rt mt maxn n r out)
  let ?i = "slot_index r (tail r)"
  note I = ring_invD [OF "1.prems"(1)]
  show ?case
  proof (cases "n < maxn \<and> tail r < head r")
    case False
    then show ?thesis
      using "1.prems"(2,3) I(5) by (auto simp: drain_loop.simps [of rt mt True maxn n r out] split: if_splits)
  next
    case True
    let ?e = "slots r ! ?i" and ?r2 = "free_slot r ?i (slots r ! ?i)"
    have a: "states r ! ?i = EDUMPI_SLOT_ACTIVE" using I(7) True by simp
    have step: "drain_loop rt mt True maxn (n + 1) ?r2 (out @ [?e]) = (n', r', out')"
      using True a "1.prems"(3) by (simp add: drain_loop.simps [of rt mt True maxn n r out] Let_def drain_check_force)
    have inv: "ring_inv ?r2" and c: "contents ?r2 = List.tl (contents r)"
      using free_slot_inv [OF "1.prems"(1)] True by auto
    have ih: "n' - (n + 1) = min (maxn - (n + 1)) (head ?r2 - tail ?r2)"
        "out' = (out @ [?e]) @ take (nat (n' - (n + 1))) (contents ?r2)"
      using "1.hyps"(2) [OF _ _ refl _ drain_check_force [symmetric] refl refl inv _ step] True a by simp_all
    have "contents r = ?e # contents ?r2" using contents_Cons True c by (simp add: slot_at_def)
    moreover have d: "head ?r2 - tail ?r2 = head r - tail r - 1" by (simp add: free_slot_def)
    moreover have "nat (n' - n) = Suc (nat (n' - (n + 1)))" using ih(1) True d by linarith
    ultimately show ?thesis using ih True by (simp del: One_nat_def)
  qed
qed

lemma drain_force:
  assumes "ring_inv r" and "0 \<le> maxn" and "edumpi_amt_ring_drain rt mt True maxn r = (n, r', es)"
  shows "n = min maxn (head r - tail r)" "es = take (nat n) (contents r)"
    "ring_inv r'" "contents r' = drop (nat n) (contents r)" "rsize r' = rsize r" "dropped r' = dropped r"
    "head r' - tail r' = head r - tail r - n"
  using drain_loop_force [of r 0 maxn rt mt "[]" n r' es] drain_loop_result [of r rt mt True maxn 0 "[]" n r' es] assms
  by (simp_all add: edumpi_amt_ring_drain_def drain_result_def)

section \<open>A new ring\<close>

lemma ring_inv_init:
  assumes "0 < sz" and "edumpi_amt_ring_init True True sz ms wait = (rc, r)"
  shows "rc = 0" "ring_inv r" "contents r = []" "dropped r = 0" "rsize r = sz" "head r = 0"
  using assms
  by (auto simp: edumpi_amt_ring_init_def ring_inv_def contents_def slot_index_nonneg nat_less_iff)

section \<open>Claims without a consumer\<close>

fun claim_many :: "nat \<Rightarrow> amt_ring \<Rightarrow> amt_ring" where
  "claim_many 0 r = r"
| "claim_many (Suc k) r = claim_many k (snd (edumpi_amt_ring_claim r))"

lemma ring_inv_dropped [simp]:
  "ring_inv (r\<lparr>dropped := d\<rparr>) = ring_inv r" "contents (r\<lparr>dropped := d\<rparr>) = contents r"
  by (rule ring_inv_cong; simp)+

lemma claim_many_full:
  "ring_inv r \<Longrightarrow> head r - tail r \<ge> rsize r \<Longrightarrow> claim_many k r = r\<lparr>dropped := dropped r + of_nat k\<rparr>"
  by (induction k arbitrary: r) (simp_all add: claim_full add.assoc)

lemma claim_many_accounts:
  assumes "ring_inv r"
  shows "ring_inv (claim_many k r) \<and>
    head (claim_many k r) - head r = min (int k) (rsize r - (head r - tail r)) \<and>
    dropped (claim_many k r) = dropped r + of_nat (k - nat (rsize r - (head r - tail r)))"
  using assms
proof (induction k arbitrary: r)
  case 0
  then show ?case by (simp add: ring_inv_def)
next
  case (Suc k)
  obtain c r1 where cl: "edumpi_amt_ring_claim r = (c, r1)" by fastforce
  show ?case
  proof (cases "head r - tail r < rsize r")
    case True
    note C = claim_room [OF Suc.prems True cl]
    note IH = Suc.IH [OF C(2), unfolded C(4-7)]
    have "Suc k - nat (rsize r - (head r - tail r)) = k - nat (rsize r - (head r + 1 - tail r))"
      using True by linarith
    moreover have "head (claim_many k r1) - head r = min (int (Suc k)) (rsize r - (head r - tail r))"
      using IH [THEN conjunct2, THEN conjunct1] by linarith
    ultimately show ?thesis using IH cl by (simp only: claim_many.simps snd_conv)
  next
    case False
    then have "head r - tail r = rsize r" using ring_invD(6) [OF Suc.prems] by linarith
    then have z: "rsize r \<le> head r - tail r" "rsize r - (head r - tail r) = 0" by simp_all
    note full = claim_many_full [OF Suc.prems z(1), of "Suc k"]
    show ?thesis unfolding full z(2) using Suc.prems by (simp del: of_nat_Suc)
  qed
qed

section \<open>The ring as a queue\<close>

text \<open>
  A producer that claims a slot and fills it in, and a consumer that takes one entry. A producer that
  gets the scratch entry writes to that one.
\<close>

definition amt_put :: "qentry \<Rightarrow> amt_ring \<Rightarrow> amt_ring" where
  "amt_put e r =
     (case edumpi_amt_ring_claim r of
        (Slot i, r') \<Rightarrow> r'\<lparr>slots := (slots r')[i := e]\<rparr>
      | (Scratch, r') \<Rightarrow> r')"

definition amt_get :: "amt_ring \<Rightarrow> qentry option \<times> amt_ring" where
  "amt_get r =
     (case edumpi_amt_ring_drain (\<lambda>_. 0) (\<lambda>_. 0) True 1 r of
        (n, r', es) \<Rightarrow> (case es of [] \<Rightarrow> None | e # _ \<Rightarrow> Some e, r'))"

definition amt_room :: "amt_ring \<Rightarrow> bool" where
  "amt_room r \<longleftrightarrow> head r - tail r < rsize r"

lemma fill_slot:
  assumes "ring_inv r" and "contents r = es @ [x]"
  shows "ring_inv (r\<lparr>slots := (slots r)[slot_index r (head r - 1) := e]\<rparr>)"
    "contents (r\<lparr>slots := (slots r)[slot_index r (head r - 1) := e]\<rparr>) = es @ [e]"
proof -
  let ?i = "slot_index r (head r - 1)" and ?r = "r\<lparr>slots := (slots r)[slot_index r (head r - 1) := e]\<rparr>"
  note I = ring_invD [OF assms(1)]
  have lt: "tail r < head r" using assms length_contents [OF assms(1)] by simp
  have si: "slot_index ?r k = slot_index r k" for k by (rule slot_index_cong) simp
  show "ring_inv ?r" unfolding ring_inv_def si using assms(1) by (simp add: ring_inv_def)
  have up: "[tail r..head r - 1] = [tail r..head r - 2] @ [head r - 1]"
    using lt upto_rec2 [of "tail r" "head r - 1"] by simp
  have es: "es = map (slot_at r) [tail r..head r - 2]" using assms(2) by (simp add: contents_def up)
  have "slot_at ?r k = slot_at r k" if "k \<in> set [tail r..head r - 2]" for k
    using that slot_index_neq [OF assms(1), of k "head r - 1"] I(6) lt by (simp add: slot_at_def si)
  moreover have "slot_at ?r (head r - 1) = e"
    using slot_index_bound [of "head r - 1" r] I(1,2,4) lt by (simp add: slot_at_def si)
  ultimately show "contents ?r = es @ [e]" by (simp add: contents_def up es)
qed

lemma amt_put_room:
  assumes "ring_inv r" and "amt_room r"
  shows "ring_inv (amt_put e r) \<and> contents (amt_put e r) = contents r @ [e]"
proof -
  obtain c r1 where cl: "edumpi_amt_ring_claim r = (c, r1)" by fastforce
  have rm: "head r - tail r < rsize r" using assms(2) by (simp add: amt_room_def)
  note C = claim_room [OF assms(1) rm cl]
  have "slot_index r1 (head r1 - 1) = slot_index r (head r)" using slot_index_cong [OF C(7)] C(4) by simp
  then show ?thesis using fill_slot [OF C(2,3), of e] cl C(1) by (simp add: amt_put_def)
qed

lemma amt_get_result:
  assumes "ring_inv r"
  shows "ring_inv (snd (amt_get r)) \<and> contents (snd (amt_get r)) = drop 1 (contents r) \<and>
    fst (amt_get r) = (case contents r of [] \<Rightarrow> None | e # _ \<Rightarrow> Some e)"
proof -
  obtain n r' es where d: "edumpi_amt_ring_drain (\<lambda>_. 0) (\<lambda>_. 0) True 1 r = (n, r', es)" by (metis prod_cases3)
  have "(0::int) \<le> 1" by simp
  note D = drain_force [OF assms this d]
  have l: "length (contents r) = nat (head r - tail r)" by (rule length_contents [OF assms])
  show ?thesis
  proof (cases "contents r")
    case Nil
    then show ?thesis using D(2-4) d by (simp add: amt_get_def)
  next
    case (Cons x xs)
    then have "n = 1" using D(1) l by (simp add: min_def split: if_splits)
    then show ?thesis using Cons D(2-4) d by (simp add: amt_get_def)
  qed
qed

interpretation amt_queue: fifo ring_inv contents amt_room amt_put amt_get
proof unfold_locales
  show "ring_inv (amt_put e q)" if "ring_inv q" for q e
    using that amt_put_room [OF that, of e]
    by (cases "amt_room q") (auto simp: amt_put_def amt_room_def claim_full)
  show "contents (amt_put e q) = contents q" if "ring_inv q" "\<not> amt_room q" for q e
    using that by (auto simp: amt_put_def amt_room_def claim_full)
  show "contents (amt_put e q) = contents q @ [e]" if "ring_inv q" "amt_room q" for q e
    using amt_put_room [OF that] by simp
  show "ring_inv (snd (amt_get q))" if "ring_inv q" for q
    using amt_get_result [OF that] by simp
  show "fst (amt_get q) = None \<and> contents (snd (amt_get q)) = []" if "ring_inv q" "contents q = []" for q
    using amt_get_result [OF that(1)] that(2) by simp
  show "fst (amt_get q) = Some x \<and> contents (snd (amt_get q)) = xs" if "ring_inv q" "contents q = x # xs" for q x xs
    using amt_get_result [OF that(1)] that(2) by simp
qed

section \<open>Properties\<close>


definition demo_ring :: amt_ring where
  "demo_ring = amt_put ((zero_entry 4)\<lparr>end' := \<lparr>tv_sec = 5, tv_nsec = 0\<rparr>\<rparr>)
     (snd (edumpi_amt_ring_init True True 2 1000 1000))"

lemma demo_ring_inv:
  "ring_inv demo_ring" "contents demo_ring = [(zero_entry 4)\<lparr>end' := \<lparr>tv_sec = 5, tv_nsec = 0\<rparr>\<rparr>]"
proof -
  obtain rc r where i: "edumpi_amt_ring_init True True 2 1000 1000 = (rc, r)" by fastforce
  note I = ring_inv_init [OF _ i, simplified]
  have "amt_room r" using I ring_invD(4,5) [OF I(2)] by (simp add: amt_room_def)
  then show "ring_inv demo_ring" "contents demo_ring = [(zero_entry 4)\<lparr>end' := \<lparr>tv_sec = 5, tv_nsec = 0\<rparr>\<rparr>]"
    using amt_put_room [OF I(2)] I(3) i by (simp_all add: demo_ring_def)
qed


text \<open>C13: The ring is a first-in-first-out queue over every sequence of operations: the entries taken
  out by a forced drain of one entry, followed by what is still in the ring, are what was in the ring followed by
  the entries whose claim found room, each once and in claim order; the invariant holds throughout.\<close>

theorem amt_ring_fifo:
  assumes "ring_inv r" and "fifo_run amt_room amt_put amt_get ops r = (ins, outs, r')"
  shows "ring_inv r' \<and> contents r @ ins = outs @ contents r'"
  by (rule amt_queue.run_conserves [OF assms])

theorem amt_ring_fifo_witness:
  "\<exists>ins outs r'. fifo_run amt_room amt_put amt_get [Get, Put (zero_entry 8)] demo_ring = (ins, outs, r') \<and>
     ring_inv r' \<and> contents demo_ring @ ins = outs @ contents r'"
proof -
  obtain ins outs r' where
    f: "fifo_run amt_room amt_put amt_get [Get, Put (zero_entry 8)] demo_ring = (ins, outs, r')"
    by (metis prod_cases3)
  show ?thesis using f amt_ring_fifo [OF demo_ring_inv(1) f] by blast
qed

text \<open>Claims with no consumer: of \<open>k\<close> calls of \<open>edumpi_amt_ring_claim\<close>, exactly as many get a
  slot as there were free slots, and every other one is counted in \<open>dropped\<close>; nothing is lost silently and
  no claimed slot is handed out again.\<close>

theorem amt_claims_accounted:
  assumes "ring_inv r"
  shows "ring_inv (claim_many k r) \<and>
    head (claim_many k r) - head r = min (int k) (rsize r - (head r - tail r)) \<and>
    edumpi_amt_ring_dropped (claim_many k r) =
      edumpi_amt_ring_dropped r + of_nat (k - nat (rsize r - (head r - tail r)))"
  using claim_many_accounts [OF assms] by (simp add: edumpi_amt_ring_dropped_def)

theorem amt_claims_accounted_witness:
  "ring_inv (claim_many 3 demo_ring) \<and>
   head (claim_many 3 demo_ring) - head demo_ring = min 3 (rsize demo_ring - (head demo_ring - tail demo_ring))"
  using amt_claims_accounted [OF demo_ring_inv(1), of 3] by simp

text \<open>A forced drain consumes as many entries as it may (\<open>min maxn (head - tail)\<close>) and hands all of
  them to the callback in claim order, whatever their state.\<close>

theorem amt_drain_forced:
  assumes "ring_inv r" and "0 \<le> maxn"
  shows "fst (edumpi_amt_ring_drain rt mt True maxn r) = min maxn (head r - tail r) \<and>
    snd (snd (edumpi_amt_ring_drain rt mt True maxn r)) = take (nat (min maxn (head r - tail r))) (contents r)"
proof -
  obtain n r' es where d: "edumpi_amt_ring_drain rt mt True maxn r = (n, r', es)" by (metis prod_cases3)
  show ?thesis using drain_force(1,2) [OF assms d] d by simp
qed

theorem amt_drain_forced_witness:
  "fst (edumpi_amt_ring_drain (\<lambda>_. 0) (\<lambda>_. 0) True 4096 demo_ring) =
     min 4096 (head demo_ring - tail demo_ring)"
  using amt_drain_forced [OF demo_ring_inv(1), of 4096 "\<lambda>_. 0" "\<lambda>_. 0"] by simp

end
