(* ===== verification/AmtThreads.thy ===== *)
theory AmtThreads
  imports AmtRing
begin

text \<open>
  The multi-producer ring of \<^verbatim>\<open>edumpi_ring.h\<close> under interleaving: any number of producer threads run
  \<open>edumpi_amt_ring_claim\<close> one atomic access at a time, while the one consumer runs the iterations of
  \<open>edumpi_amt_ring_drain\<close>. The program counters name the point between two accesses to shared
  memory. The accesses are sequentially consistent here, and the consumer's decision about an entry it found
  active (\<open>drain_check\<close>, with the readings of the two clocks) is one step.
\<close>

datatype producer_pc =
    Outside
  | LoadTail int    \<comment> \<open>at the head of the loop, with this \<open>h\<close>\<close>
  | CasHead int     \<comment> \<open>passed the check for a full ring\<close>
  | ResetSlot int   \<comment> \<open>won the ticket\<close>
  | StoreActive int \<comment> \<open>slot zeroed\<close>
  | Holds int       \<comment> \<open>returned the slot of this ticket\<close>
  | Dropped         \<comment> \<open>returned the scratch entry\<close>

datatype consumer_pc =
    Waiting
  | LoadState int   \<comment> \<open>the ticket at the tail was claimed\<close>
  | Decide int      \<comment> \<open>its slot is active\<close>
  | StoreFree int   \<comment> \<open>decided to consume it\<close>
  | StoreTail int   \<comment> \<open>slot marked free\<close>

record amt_threads =
  ring :: amt_ring
  pcs :: "producer_pc list"
  cpc :: consumer_pc
  started :: int                       \<comment> \<open>calls of claim begun\<close>
  consumed :: "(int \<times> verdict) list"      \<comment> \<open>tickets consumed, in order\<close>

text \<open>One access of a producer inside \<open>edumpi_amt_ring_claim\<close>.\<close>

fun claim_step :: "amt_ring \<Rightarrow> producer_pc \<Rightarrow> amt_ring \<times> producer_pc" where
  "claim_step r Outside = (r, LoadTail (head r))"
| "claim_step r (LoadTail h) =
     (if h - tail r \<ge> rsize r then (r\<lparr>dropped := dropped r + 1\<rparr>, Dropped) else (r, CasHead h))"
| "claim_step r (CasHead h) =
     (if head r = h then (r\<lparr>head := h + 1\<rparr>, ResetSlot h) else (r, LoadTail (head r)))"
| "claim_step r (ResetSlot h) =
     (r\<lparr>slots := (slots r)[slot_index r h := edumpi_entry_reset (slots r ! slot_index r h) (of_int h + 1)]\<rparr>,
      StoreActive h)"
| "claim_step r (StoreActive h) =
     (r\<lparr>states := (states r)[slot_index r h := EDUMPI_SLOT_ACTIVE]\<rparr>, Holds h)"
| "claim_step r (Holds h) = (r, Outside)"
| "claim_step r Dropped = (r, Outside)"

text \<open>One access of the consumer; \<open>v\<close> is what it decides for the entry.\<close>

definition decision :: "int \<Rightarrow> int \<Rightarrow> bool \<Rightarrow> amt_ring \<Rightarrow> int \<Rightarrow> verdict \<times> amt_ring \<times> qentry" where
  "decision tr tm force r t = drain_check tr tm force r (slots r ! slot_index r t)"

fun drain_step :: "int \<Rightarrow> int \<Rightarrow> bool \<Rightarrow> amt_ring \<Rightarrow> consumer_pc \<Rightarrow> amt_ring \<times> consumer_pc" where
  "drain_step tr tm force r Waiting = (r, if tail r \<ge> head r then Waiting else LoadState (tail r))"
| "drain_step tr tm force r (LoadState t) =
     (r, if states r ! slot_index r t \<noteq> EDUMPI_SLOT_ACTIVE then Waiting else Decide t)"
| "drain_step tr tm force r (Decide t) =
     (case decision tr tm force r t of (v, r', e) \<Rightarrow>
        (r'\<lparr>slots := (slots r')[slot_index r t := e]\<rparr>, if v = Break then Waiting else StoreFree t))"
| "drain_step tr tm force r (StoreFree t) =
     (r\<lparr>stalled := False, states := (states r)[slot_index r t := EDUMPI_SLOT_FREE]\<rparr>, StoreTail t)"
| "drain_step tr tm force r (StoreTail t) = (r\<lparr>tail := t + 1\<rparr>, Waiting)"

text \<open>The log of consumed tickets grows when the consumer decides to emit or abandon an entry.\<close>

fun drain_log :: "int \<Rightarrow> int \<Rightarrow> bool \<Rightarrow> amt_ring \<Rightarrow> consumer_pc \<Rightarrow> (int \<times> verdict) list" where
  "drain_log tr tm force r (Decide t) =
     (let v = fst (decision tr tm force r t) in if v = Break then [] else [(t, v)])"
| "drain_log tr tm force r _ = []"

inductive amt_step :: "amt_threads \<Rightarrow> amt_threads \<Rightarrow> bool" where
  producer: "i < length (pcs g) \<Longrightarrow> claim_step (ring g) (pcs g ! i) = (r, p) \<Longrightarrow>
    amt_step g (g\<lparr>ring := r, pcs := (pcs g)[i := p],
      started := (if pcs g ! i = Outside then started g + 1 else started g)\<rparr>)"
| store: "i < length (pcs g) \<Longrightarrow> pcs g ! i = Holds h \<Longrightarrow>
    amt_step g (g\<lparr>ring := (ring g)\<lparr>slots := (slots (ring g))[slot_index (ring g) h := e]\<rparr>\<rparr>)"
| consumer: "drain_step tr tm force (ring g) (cpc g) = (r, c) \<Longrightarrow>
    amt_step g (g\<lparr>ring := r, cpc := c,
      consumed := consumed g @ drain_log tr tm force (ring g) (cpc g)\<rparr>)"

definition amt_start :: "int \<Rightarrow> nat \<Rightarrow> amt_threads \<Rightarrow> bool" where
  "amt_start sz np g \<longleftrightarrow>
     0 < sz \<and> (\<exists>ms wait. ring g = snd (edumpi_amt_ring_init True True sz ms wait)) \<and>
     pcs g = replicate np Outside \<and> cpc g = Waiting \<and> started g = 0 \<and> consumed g = []"

text \<open>With nobody else running, the steps of one claim are the operation of \<open>AmtRing\<close>.\<close>

fun claim_run :: "nat \<Rightarrow> amt_ring \<Rightarrow> producer_pc \<Rightarrow> amt_ring \<times> producer_pc" where
  "claim_run 0 r p = (r, p)"
| "claim_run (Suc n) r p = (case p of Holds _ \<Rightarrow> (r, p) | Dropped \<Rightarrow> (r, p)
     | _ \<Rightarrow> (case claim_step r p of (r', p') \<Rightarrow> claim_run n r' p'))"

lemma claim_run_sequential:
  "(case claim_run 5 r Outside of (r', p) \<Rightarrow>
      (case p of Holds h \<Rightarrow> Slot (slot_index r h) | _ \<Rightarrow> Scratch, r')) = edumpi_amt_ring_claim r"
  by (simp add: eval_nat_numeral edumpi_amt_ring_claim_def slot_index_def Let_def)

section \<open>Invariant\<close>

text \<open>The ticket a producer owns between winning it and making its slot active.\<close>

fun owned :: "producer_pc \<Rightarrow> int option" where
  "owned (ResetSlot h) = Some h"
| "owned (StoreActive h) = Some h"
| "owned _ = None"

definition claiming :: "producer_pc \<Rightarrow> bool" where
  "claiming p \<longleftrightarrow> (case p of LoadTail _ \<Rightarrow> True | CasHead _ \<Rightarrow> True | _ \<Rightarrow> False)"

definition window_ok :: "amt_ring \<Rightarrow> bool" where
  "window_ok r \<longleftrightarrow> 0 < rsize r \<and> length (slots r) = nat (rsize r) \<and> length (states r) = nat (rsize r) \<and>
     0 \<le> tail r \<and> tail r \<le> head r \<and> head r \<le> tail r + rsize r \<and>
     (\<forall>k. head r \<le> k \<and> k < tail r + rsize r \<longrightarrow> states r ! slot_index r k = EDUMPI_SLOT_FREE)"

fun producer_ok :: "amt_ring \<Rightarrow> producer_pc \<Rightarrow> bool" where
  "producer_ok r (LoadTail h) \<longleftrightarrow> 0 \<le> h \<and> h \<le> head r"
| "producer_ok r (CasHead h) \<longleftrightarrow> 0 \<le> h \<and> h \<le> head r \<and> h - tail r < rsize r"
| "producer_ok r (ResetSlot h) \<longleftrightarrow> tail r \<le> h \<and> h < head r \<and> states r ! slot_index r h = EDUMPI_SLOT_FREE"
| "producer_ok r (StoreActive h) \<longleftrightarrow> tail r \<le> h \<and> h < head r \<and> states r ! slot_index r h = EDUMPI_SLOT_FREE"
| "producer_ok r _ \<longleftrightarrow> True"

fun consumer_ok :: "amt_ring \<Rightarrow> producer_pc list \<Rightarrow> consumer_pc \<Rightarrow> bool" where
  "consumer_ok r ps Waiting \<longleftrightarrow> True"
| "consumer_ok r ps (LoadState t) \<longleftrightarrow> t = tail r \<and> t < head r"
| "consumer_ok r ps (Decide t) \<longleftrightarrow> t = tail r \<and> t < head r \<and> states r ! slot_index r t = EDUMPI_SLOT_ACTIVE"
| "consumer_ok r ps (StoreFree t) \<longleftrightarrow> t = tail r \<and> t < head r \<and> states r ! slot_index r t = EDUMPI_SLOT_ACTIVE"
| "consumer_ok r ps (StoreTail t) \<longleftrightarrow> t = tail r \<and> t < head r \<and> states r ! slot_index r t = EDUMPI_SLOT_FREE \<and>
     (\<forall>p \<in> set ps. owned p \<noteq> Some t)"

definition consumed_upto :: "amt_threads \<Rightarrow> int" where
  "consumed_upto g = (case cpc g of StoreFree t \<Rightarrow> tail (ring g) + 1 | StoreTail t \<Rightarrow> tail (ring g) + 1 | _ \<Rightarrow> tail (ring g))"

definition threads_inv :: "amt_threads \<Rightarrow> bool" where
  "threads_inv g \<longleftrightarrow>
     window_ok (ring g) \<and> (\<forall>p \<in> set (pcs g). producer_ok (ring g) p) \<and>
     (\<forall>i < length (pcs g). \<forall>j < length (pcs g). i \<noteq> j \<longrightarrow> owned (pcs g ! i) \<noteq> None \<longrightarrow>
        owned (pcs g ! i) \<noteq> owned (pcs g ! j)) \<and>
     consumer_ok (ring g) (pcs g) (cpc g) \<and>
     map fst (consumed g) = [0..consumed_upto g - 1] \<and>
     dropped (ring g) = of_int (started g - head (ring g) - int (length (filter claiming (pcs g))))"

lemma window_okD:
  assumes "window_ok r"
  shows "0 < rsize r" "length (slots r) = nat (rsize r)" "length (states r) = nat (rsize r)"
    "0 \<le> tail r" "tail r \<le> head r" "head r \<le> tail r + rsize r"
    "\<And>k. head r \<le> k \<Longrightarrow> k < tail r + rsize r \<Longrightarrow> states r ! slot_index r k = EDUMPI_SLOT_FREE"
  using assms by (auto simp: window_ok_def)

lemma window_neq:
  assumes "window_ok r" "tail r \<le> k" "k < tail r + rsize r" "tail r \<le> k'" "k' < tail r + rsize r" "k \<noteq> k'"
  shows "slot_index r k \<noteq> slot_index r k'"
  using slot_index_inj [of r k k' "tail r"] window_okD(1,4) [OF assms(1)] assms(2-) by blast

lemma length_filter_update:
  "i < length xs \<Longrightarrow> int (length (filter P (xs[i := x]))) =
     int (length (filter P xs)) - (if P (xs ! i) then 1 else 0) + (if P x then 1 else 0)"
proof (induction xs arbitrary: i)
  case (Cons y ys)
  show ?case
  proof (cases i)
    case (Suc j)
    then show ?thesis using Cons.IH [of j] Cons.prems by (auto split: if_splits)
  qed simp
qed simp

text \<open>A producer's step moves only the head and the state of the slot it owns.\<close>

lemma claim_step_frame:
  assumes "claim_step r p = (r', p')"
  shows "rsize r' = rsize r" "tail r' = tail r" "length (slots r') = length (slots r)"
    "length (states r') = length (states r)" "head r \<le> head r'"
    "head r' \<noteq> head r \<Longrightarrow> head r' = head r + 1 \<and> owned p' = Some (head r)"
    "owned p' \<noteq> None \<Longrightarrow> owned p' = owned p \<or> owned p' = Some (head r) \<and> head r' = head r + 1"
    "slot_index r' k = slot_index r k"
  using assms by (cases p; auto simp: slot_index_def split: if_splits)+

lemma claim_step_states:
  assumes "claim_step r p = (r', p')" and "window_ok r" and "producer_ok r p"
    and "tail r \<le> k" "k < tail r + rsize r" "owned p \<noteq> Some k"
  shows "states r' ! slot_index r k = states r ! slot_index r k"
proof -
  have "slot_index r h \<noteq> slot_index r k" if "p = StoreActive h" for h
    using that assms(3-6) window_okD(6) [OF assms(2)] by (intro window_neq [OF assms(2)]) auto
  then show ?thesis using assms(1) by (cases p) (auto split: if_splits)
qed

lemma claim_step_window:
  assumes s: "claim_step r p = (r', p')" and w: "window_ok r" and p: "producer_ok r p"
  shows "window_ok r'"
proof -
  note W = window_okD [OF w] and F = claim_step_frame [OF s]
  have "head r' \<le> tail r + rsize r"
    using s p W(6) by (cases p) (auto split: if_splits)
  moreover have "states r' ! slot_index r k = EDUMPI_SLOT_FREE" if "head r' \<le> k" "k < tail r + rsize r" for k
  proof -
    have "owned p \<noteq> Some k" using p F(5) that by (cases p) auto
    then show ?thesis using claim_step_states [OF s w p, of k] W(5) W(7) [of k] F(5) that by simp
  qed
  ultimately show ?thesis unfolding window_ok_def F(1-4,8) using W F(5) by simp
qed

lemma claim_step_ok:
  assumes s: "claim_step r p = (r', p')" and w: "window_ok r" and p: "producer_ok r p"
  shows "producer_ok r' p'"
  using s p window_okD [OF w]
  by (cases p) (auto simp: slot_index_def split: if_splits)

lemma producer_ok_other:
  assumes s: "claim_step r p = (r', p')" and w: "window_ok r" and p: "producer_ok r p"
    and q: "producer_ok r q" and d: "owned q \<noteq> None \<Longrightarrow> owned q \<noteq> owned p"
  shows "producer_ok r' q"
proof -
  note F = claim_step_frame [OF s] and W = window_okD [OF w]
  have "states r' ! slot_index r h = states r ! slot_index r h" if "owned q = Some h" for h
    using claim_step_states [OF s w p, of h] that d q W(6) by (cases q) auto
  then show ?thesis using q F by (cases q) auto
qed

lemma consumer_ok_producer:
  assumes s: "claim_step r p = (r', p')" and w: "window_ok r" and p: "producer_ok r p"
    and c: "consumer_ok r ps c" and ps: "p \<in> set ps" "set ps' \<subseteq> insert p' (set ps)"
  shows "consumer_ok r' ps' c"
proof -
  note F = claim_step_frame [OF s] and W = window_okD [OF w]
  have n: "owned p \<noteq> Some (tail r)" if "states r ! slot_index r (tail r) = EDUMPI_SLOT_ACTIVE"
    using p that by (cases p) auto
  have st: "states r' ! slot_index r (tail r) = states r ! slot_index r (tail r)" if "owned p \<noteq> Some (tail r)"
    using claim_step_states [OF s w p, of "tail r"] W(1) that by simp
  have o: "owned p' \<noteq> Some (tail r)" if "owned p \<noteq> Some (tail r)" "tail r < head r"
    using F(7) that by auto
  show ?thesis
  proof (cases c)
    case (StoreTail t)
    then have t: "t = tail r" "t < head r" "owned p \<noteq> Some t" "\<forall>q \<in> set ps. owned q \<noteq> Some t"
      "states r ! slot_index r t = EDUMPI_SLOT_FREE"
      using c ps(1) by auto
    then have "\<forall>q \<in> set ps'. owned q \<noteq> Some t" using o ps(2) by auto
    then show ?thesis using StoreTail t st F by auto
  qed (use c n st F in auto)
qed

lemma producer_inv:
  assumes inv: "threads_inv g" and i: "i < length (pcs g)" and s: "claim_step (ring g) (pcs g ! i) = (r, p)"
  shows "threads_inv (g\<lparr>ring := r, pcs := (pcs g)[i := p],
      started := (if pcs g ! i = Outside then started g + 1 else started g)\<rparr>)"
proof -
  let ?r = "ring g" and ?q = "pcs g ! i" and ?ps = "(pcs g)[i := p]"
  note I = inv [unfolded threads_inv_def]
  have w: "window_ok ?r" and q: "producer_ok ?r ?q" and all: "\<forall>x \<in> set (pcs g). producer_ok ?r x"
    and excl: "\<And>j k. j < length (pcs g) \<Longrightarrow> k < length (pcs g) \<Longrightarrow> j \<noteq> k \<Longrightarrow>
      owned (pcs g ! j) \<noteq> None \<Longrightarrow> owned (pcs g ! j) \<noteq> owned (pcs g ! k)"
    using I i by auto
  note F = claim_step_frame [OF s] and W = window_okD [OF w]
  have other: "producer_ok r (pcs g ! j)" if "j < length (pcs g)" "j \<noteq> i" for j
    using producer_ok_other [OF s w q, of "pcs g ! j"] all excl [of j i] that i by simp
  have "producer_ok r (?ps ! j)" if "j < length (pcs g)" for j
    using other [OF that] claim_step_ok [OF s w q] that i by (cases "j = i") auto
  then have P: "\<forall>x \<in> set ?ps. producer_ok r x" by (auto simp: in_set_conv_nth)
  have lt: "owned (pcs g ! j) \<noteq> Some (head ?r)" if "j < length (pcs g)" for j
  proof -
    have "producer_ok ?r (pcs g ! j)" using all that by simp
    then show ?thesis by (cases "pcs g ! j") auto
  qed
  have new: "owned p \<noteq> owned (pcs g ! j)" if "owned p \<noteq> None" "j < length (pcs g)" "j \<noteq> i" for j
    using F(7) [OF that(1)] excl [of i j] lt [of j] that i by auto
  have X: "owned (?ps ! j) \<noteq> owned (?ps ! k)"
    if "j < length ?ps" "k < length ?ps" "j \<noteq> k" "owned (?ps ! j) \<noteq> None" for j k
    using that excl [of j k] new [of j] new [of k] i by (cases "j = i"; cases "k = i") auto
  have C: "consumer_ok r ?ps (cpc g)"
    using consumer_ok_producer [OF s w q] I i set_update_subset_insert by (metis nth_mem)
  have D: "dropped r = of_int ((if ?q = Outside then started g + 1 else started g) - head r - int (length (filter claiming ?ps)))"
    unfolding length_filter_update [OF i]
    using s I by (cases ?q) (auto simp: claiming_def split: if_splits)
  let ?g = "g\<lparr>ring := r, pcs := ?ps, started := (if ?q = Outside then started g + 1 else started g)\<rparr>"
  have "consumed_upto ?g = consumed_upto g" by (simp add: consumed_upto_def F(2) split: consumer_pc.splits)
  moreover have "map fst (consumed g) = [0..consumed_upto g - 1]" using I by blast
  ultimately have "map fst (consumed ?g) = [0..consumed_upto ?g - 1]" by simp
  then show ?thesis
    unfolding threads_inv_def
    using claim_step_window [OF s w q] P X C D by (intro conjI allI impI) simp_all
qed

text \<open>The consumer's step moves only the tail and the state of the slot at the tail.\<close>

lemma drain_step_Decide:
  assumes "drain_step tr tm force r (Decide t) = (r', c')"
  shows "rsize r' = rsize r" "head r' = head r" "tail r' = tail r" "states r' = states r" "dropped r' = dropped r"
    "length (slots r') = length (slots r)"
    "c' = (if fst (decision tr tm force r t) = Break then Waiting else StoreFree t)"
proof -
  obtain v q e where d: "decision tr tm force r t = (v, q, e)" by (cases "decision tr tm force r t")
  note F = drain_check_frame [OF d [unfolded decision_def]]
  have r': "r' = q\<lparr>slots := (slots q)[slot_index r t := e]\<rparr>" and c': "c' = (if v = Break then Waiting else StoreFree t)"
    using assms by (simp_all add: d)
  show "rsize r' = rsize r" "head r' = head r" "tail r' = tail r" "states r' = states r" "dropped r' = dropped r"
    "length (slots r') = length (slots r)" "c' = (if fst (decision tr tm force r t) = Break then Waiting else StoreFree t)"
    using F by (simp_all add: r' c' d)
qed

lemma drain_step_frame:
  assumes "drain_step tr tm force r c = (r', c')" and "consumer_ok r ps c"
  shows "rsize r' = rsize r" "head r' = head r" "length (slots r') = length (slots r)" "dropped r' = dropped r"
    "length (states r') = length (states r)" "tail r \<le> tail r'" "slot_index r' k = slot_index r k"
    "tail r' = (case c of StoreTail t \<Rightarrow> tail r + 1 | _ \<Rightarrow> tail r)"
    "states r' = (case c of StoreFree t \<Rightarrow> (states r)[slot_index r (tail r) := EDUMPI_SLOT_FREE] | _ \<Rightarrow> states r)"
proof -
  have "rsize r' = rsize r \<and> head r' = head r \<and> length (slots r') = length (slots r) \<and> dropped r' = dropped r \<and>
    tail r' = (case c of StoreTail t \<Rightarrow> tail r + 1 | _ \<Rightarrow> tail r) \<and>
    states r' = (case c of StoreFree t \<Rightarrow> (states r)[slot_index r (tail r) := EDUMPI_SLOT_FREE] | _ \<Rightarrow> states r)"
  proof (cases c)
    case (Decide t)
    then show ?thesis using drain_step_Decide [OF assms(1) [unfolded Decide]] by simp
  qed (use assms in auto)
  then show "rsize r' = rsize r" "head r' = head r" "length (slots r') = length (slots r)" "dropped r' = dropped r"
    "length (states r') = length (states r)" "tail r \<le> tail r'" "slot_index r' k = slot_index r k"
    "tail r' = (case c of StoreTail t \<Rightarrow> tail r + 1 | _ \<Rightarrow> tail r)"
    "states r' = (case c of StoreFree t \<Rightarrow> (states r)[slot_index r (tail r) := EDUMPI_SLOT_FREE] | _ \<Rightarrow> states r)"
    by (auto simp: slot_index_def split: consumer_pc.splits)
qed

lemma drain_step_window:
  assumes s: "drain_step tr tm force r c = (r', c')" and c: "consumer_ok r ps c" and w: "window_ok r"
  shows "window_ok r'"
proof -
  note F = drain_step_frame [OF s c] and W = window_okD [OF w]
  have b: "slot_index r (tail r) < length (states r)" using W by (simp add: slot_index_bound)
  have wrap: "slot_index r (tail r + rsize r) = slot_index r (tail r)" using W by (simp add: slot_index_nonneg)
  have "states r' ! slot_index r k = EDUMPI_SLOT_FREE" if "head r \<le> k" "k < tail r' + rsize r" for k
  proof (cases "k < tail r + rsize r")
    case True
    then show ?thesis using W(7) [OF that(1)] F(9) b by (cases c) (auto simp: nth_list_update)
  next
    case False
    then obtain t where "c = StoreTail t" "k = tail r + rsize r"
      using \<open>k < tail r' + rsize r\<close> F(8) by (cases c) auto
    then show ?thesis using F(9) c wrap by auto
  qed
  moreover have "tail r' \<le> head r" using F(8) c W(5) by (cases c) auto
  ultimately show ?thesis unfolding window_ok_def F(1,2,3,5,7) using W F(6) by simp
qed

lemma producer_ok_drain:
  assumes s: "drain_step tr tm force r c = (r', c')" and c: "consumer_ok r ps c" and w: "window_ok r"
    and p: "p \<in> set ps" "producer_ok r p"
  shows "producer_ok r' p"
proof -
  note F = drain_step_frame [OF s c] and W = window_okD [OF w]
  have b: "slot_index r (tail r) < length (states r)" using W by (simp add: slot_index_bound)
  have "tail r' \<le> h \<and> states r' ! slot_index r h = EDUMPI_SLOT_FREE" if "owned p = Some h" for h
  proof -
    have h: "tail r \<le> h" "states r ! slot_index r h = EDUMPI_SLOT_FREE" using p(2) that by (cases p; auto)+
    have "h \<noteq> tail r" if "c = StoreTail t" for t
      using that c p(1) \<open>owned p = Some h\<close> by auto
    then have "tail r' \<le> h" using F(8) h(1) by (cases c) auto
    then show ?thesis using h F(9) b by (cases c) (auto simp: nth_list_update)
  qed
  then show ?thesis using p(2) F by (cases p) auto
qed

lemma consumer_inv:
  assumes inv: "threads_inv g" and s: "drain_step tr tm force (ring g) (cpc g) = (r, c)"
  shows "threads_inv (g\<lparr>ring := r, cpc := c,
      consumed := consumed g @ drain_log tr tm force (ring g) (cpc g)\<rparr>)"
proof -
  note I = inv [unfolded threads_inv_def]
  have w: "window_ok (ring g)" and ok: "consumer_ok (ring g) (pcs g) (cpc g)"
    and l: "map fst (consumed g) = [0..consumed_upto g - 1]"
    using I by auto
  note F = drain_step_frame [OF s ok] and W = window_okD [OF w]
  have b: "slot_index (ring g) (tail (ring g)) < length (states (ring g))" using W by (simp add: slot_index_bound)
  have "owned p \<noteq> Some (tail (ring g))"
    if "p \<in> set (pcs g)" "states (ring g) ! slot_index (ring g) (tail (ring g)) = EDUMPI_SLOT_ACTIVE" for p
  proof -
    have "producer_ok (ring g) p" using I that(1) by blast
    then show ?thesis using that(2) by (cases p) auto
  qed
  then have C: "consumer_ok r (pcs g) c"
  proof (cases "cpc g")
    case (Decide t)
    then show ?thesis using drain_step_Decide [OF s [unfolded Decide]] ok F(7) by auto
  qed (use s ok b in \<open>auto simp: slot_index_def\<close>)
  have P: "\<forall>p \<in> set (pcs g). producer_ok r p" using producer_ok_drain [OF s ok w] I by blast
  let ?g = "g\<lparr>ring := r, cpc := c,
      consumed := consumed g @ drain_log tr tm force (ring g) (cpc g)\<rparr>"
  have up: "[0..tail (ring g)] = [0..tail (ring g) - 1] @ [tail (ring g)]"
    using W(4) upto_rec2 [of 0 "tail (ring g)"] by simp
  have "map fst (consumed ?g) = [0..consumed_upto ?g - 1]"
  proof (cases "cpc g")
    case (Decide t)
    then show ?thesis using drain_step_Decide [OF s [unfolded Decide]] l ok up by (simp add: consumed_upto_def Let_def)
  qed (use l s ok in \<open>auto simp: consumed_upto_def\<close>)
  then show ?thesis
    unfolding threads_inv_def
    using drain_step_window [OF s ok w] C P I F(2,4) by (intro conjI allI impI) simp_all
qed

lemma store_inv:
  assumes "threads_inv g"
  shows "threads_inv (g\<lparr>ring := (ring g)\<lparr>slots := (slots (ring g))[k := e]\<rparr>\<rparr>)"
proof -
  let ?r = "(ring g)\<lparr>slots := (slots (ring g))[k := e]\<rparr>"
  have si: "slot_index ?r k = slot_index (ring g) k" for k by (rule slot_index_cong) simp
  have p: "producer_ok ?r p = producer_ok (ring g) p" for p by (cases p) (simp_all add: si)
  have c: "consumer_ok ?r ps c = consumer_ok (ring g) ps c" for ps c by (cases c) (simp_all add: si)
  have w: "window_ok ?r = window_ok (ring g)" unfolding window_ok_def si by simp
  have u: "consumed_upto (g\<lparr>ring := ?r\<rparr>) = consumed_upto g"
    by (simp add: consumed_upto_def split: consumer_pc.splits)
  show ?thesis using assms unfolding threads_inv_def u by (intro conjI) (simp_all add: p c w)
qed

lemma start_inv:
  assumes "amt_start sz np g"
  shows "threads_inv g"
proof -
  obtain ms wait where r: "ring g = snd (edumpi_amt_ring_init True True sz ms wait)" and sz: "0 < sz"
    using assms by (auto simp: amt_start_def)
  obtain rc q where q: "edumpi_amt_ring_init True True sz ms wait = (rc, q)" by fastforce
  note R = ring_inv_init [OF sz q]
  have z: "ring g = q" using r q by simp
  have t: "tail q = 0" using q by (auto simp: edumpi_amt_ring_init_def)
  have "window_ok (ring g)" using R(2) by (auto simp: z window_ok_def ring_inv_def)
  then show ?thesis
    using assms R(4,6) t
    by (auto simp: threads_inv_def amt_start_def z consumed_upto_def claiming_def)
qed

definition amt_reachable :: "int \<Rightarrow> nat \<Rightarrow> amt_threads \<Rightarrow> bool" where
  "amt_reachable sz np g \<longleftrightarrow> (\<exists>g0. amt_start sz np g0 \<and> amt_step\<^sup>*\<^sup>* g0 g)"

lemma step_inv: "amt_step g g' \<Longrightarrow> threads_inv g \<Longrightarrow> threads_inv g'"
  by (induction rule: amt_step.induct) (simp_all only: producer_inv consumer_inv store_inv)

lemma reachable_inv:
  assumes "amt_reachable sz np g"
  shows "threads_inv g"
proof -
  obtain g0 where "amt_start sz np g0" and st: "amt_step\<^sup>*\<^sup>* g0 g" using assms by (auto simp: amt_reachable_def)
  then have "threads_inv g0" by (simp add: start_inv)
  with st show ?thesis by (induction rule: rtranclp_induct) (simp_all add: step_inv)
qed

section \<open>Properties\<close>

text \<open>C3: In every interleaving of any number of producers with the consumer, two producers that are
  between winning a ticket and publishing their slot never work on the same slot, and the slot that the
  consumer is reading or freeing is none of theirs.\<close>

theorem amt_slots_exclusive:
  assumes "amt_reachable sz np g" and "i < length (pcs g)" and "owned (pcs g ! i) = Some h"
  shows "(\<forall>j h'. j < length (pcs g) \<longrightarrow> j \<noteq> i \<longrightarrow> owned (pcs g ! j) = Some h' \<longrightarrow>
      slot_index (ring g) h \<noteq> slot_index (ring g) h') \<and>
    (\<forall>t. cpc g \<in> {Decide t, StoreFree t, StoreTail t} \<longrightarrow> slot_index (ring g) h \<noteq> slot_index (ring g) t)"
proof -
  note I = reachable_inv [OF assms(1), unfolded threads_inv_def]
  have w: "window_ok (ring g)" using I by blast
  note W = window_okD [OF w]
  have own: "tail (ring g) \<le> k \<and> k < tail (ring g) + rsize (ring g) \<and> states (ring g) ! slot_index (ring g) k = EDUMPI_SLOT_FREE"
    if "j < length (pcs g)" "owned (pcs g ! j) = Some k" for j k
  proof -
    have "producer_ok (ring g) (pcs g ! j)" using I that(1) by simp
    then show ?thesis using that(2) W(6) by (cases "pcs g ! j") auto
  qed
  show ?thesis
  proof (intro conjI allI impI)
    fix j h' assume j: "j < length (pcs g)" "j \<noteq> i" "owned (pcs g ! j) = Some h'"
    then have "h \<noteq> h'" using I assms(2,3) by force
    then show "slot_index (ring g) h \<noteq> slot_index (ring g) h'"
      using own [OF assms(2,3)] own [OF j(1,3)] by (intro window_neq [OF w]) auto
  next
    fix t assume t: "cpc g \<in> {Decide t, StoreFree t, StoreTail t}"
    have c: "consumer_ok (ring g) (pcs g) (cpc g)" using I by blast
    have "pcs g ! i \<in> set (pcs g)" using assms(2) by simp
    then have "h \<noteq> t" "tail (ring g) \<le> t" "t < head (ring g)"
      using t c own [OF assms(2,3)] assms(3) by auto
    then show "slot_index (ring g) h \<noteq> slot_index (ring g) t"
      using own [OF assms(2,3)] W(6) by (intro window_neq [OF w]) auto
  qed
qed

text \<open>C4: In every interleaving the consumer handles the tickets \<open>0, 1, 2, \<dots>\<close> each exactly once and in
  claim order, only tickets that were claimed, and the window \<open>tail \<le> head \<le> tail + size\<close> is kept.\<close>

theorem amt_exactly_once_in_order:
  assumes "amt_reachable sz np g"
  shows "map fst (consumed g) = [0..int (length (consumed g)) - 1] \<and>
    int (length (consumed g)) \<le> head (ring g) \<and>
    tail (ring g) \<le> int (length (consumed g)) \<and> int (length (consumed g)) \<le> tail (ring g) + 1 \<and>
    0 \<le> tail (ring g) \<and> tail (ring g) \<le> head (ring g) \<and> head (ring g) \<le> tail (ring g) + rsize (ring g)"
proof -
  note I = reachable_inv [OF assms, unfolded threads_inv_def]
  have m: "map fst (consumed g) = [0..consumed_upto g - 1]" and c: "consumer_ok (ring g) (pcs g) (cpc g)"
    using I by auto
  have W: "0 \<le> tail (ring g)" "tail (ring g) \<le> head (ring g)" "head (ring g) \<le> tail (ring g) + rsize (ring g)"
    using I window_okD by blast+
  have u: "tail (ring g) \<le> consumed_upto g" "consumed_upto g \<le> tail (ring g) + 1" "consumed_upto g \<le> head (ring g)"
    using c W by (cases "cpc g"; auto simp: consumed_upto_def)+
  have "length (consumed g) = length [0..consumed_upto g - 1]" using m by (metis length_map)
  then have "int (length (consumed g)) = consumed_upto g" using u W(1) by simp
  then show ?thesis using m u W by simp
qed

text \<open>In every interleaving each call of \<open>edumpi_amt_ring_claim\<close> is accounted for: the calls begun are
  those that got a ticket (\<open>head\<close>), those still in the loop, and those counted in \<open>dropped\<close>. A call is dropped
  only while the ring really is full, and a compare-and-swap fails only if another producer took a ticket.\<close>

theorem amt_claims_accounted_threads:
  assumes "amt_reachable sz np g"
  shows "dropped (ring g) = of_int (started g - head (ring g) - int (length (filter claiming (pcs g)))) \<and>
    (\<forall>p \<in> set (pcs g). \<forall>r' p'. claim_step (ring g) p = (r', p') \<longrightarrow>
       (p' = Dropped \<longrightarrow> head (ring g) - tail (ring g) = rsize (ring g)) \<and>
       (\<forall>h h'. p = CasHead h \<and> p' = LoadTail h' \<longrightarrow> h < h'))"
proof -
  note I = reachable_inv [OF assms, unfolded threads_inv_def]
  have W: "head (ring g) \<le> tail (ring g) + rsize (ring g)" using I window_okD by blast
  have "(p' = Dropped \<longrightarrow> head (ring g) - tail (ring g) = rsize (ring g)) \<and>
       (\<forall>h h'. p = CasHead h \<and> p' = LoadTail h' \<longrightarrow> h < h')"
    if "p \<in> set (pcs g)" "claim_step (ring g) p = (r', p')" for p p' r'
  proof -
    have "producer_ok (ring g) p" using I that(1) by blast
    then show ?thesis using that(2) W by (cases p) (auto split: if_splits)
  qed
  then show ?thesis using I by blast
qed

section \<open>A concrete execution\<close>

definition demo_start :: "int \<Rightarrow> amt_threads" where
  "demo_start sz = \<lparr>ring = snd (edumpi_amt_ring_init True True sz 1000 1000), pcs = [Outside, Outside], cpc = Waiting,
     started = 0, consumed = []\<rparr>"

text \<open>Schedules: a producer index runs that producer, a triple of two clock readings and the flag
  \<open>force\<close> runs the consumer.\<close>

fun run_schedule :: "(nat + int \<times> int \<times> bool) list \<Rightarrow> amt_threads \<Rightarrow> amt_threads" where
  "run_schedule [] g = g"
| "run_schedule (Inl i # xs) g =
     (case claim_step (ring g) (pcs g ! i) of (r, p) \<Rightarrow>
        run_schedule xs (g\<lparr>ring := r, pcs := (pcs g)[i := p],
          started := (if pcs g ! i = Outside then started g + 1 else started g)\<rparr>))"
| "run_schedule (Inr (tr, tm, force) # xs) g =
     (case drain_step tr tm force (ring g) (cpc g) of (r, c) \<Rightarrow>
        run_schedule xs (g\<lparr>ring := r, cpc := c,
          consumed := consumed g @ drain_log tr tm force (ring g) (cpc g)\<rparr>))"

lemma run_schedule_reachable:
  assumes "amt_reachable sz np g" and "\<forall>i. Inl i \<in> set xs \<longrightarrow> i < length (pcs g)"
  shows "amt_reachable sz np (run_schedule xs g)"
  using assms
proof (induction xs arbitrary: g)
  case (Cons x xs)
  have step: "amt_reachable sz np g'" if "amt_step g g'" for g'
    using Cons.prems(1) that unfolding amt_reachable_def by (meson rtranclp.rtrancl_into_rtrancl)
  show ?case
  proof (cases x)
    case (Inl i)
    then have i: "i < length (pcs g)" using Cons.prems(2) by simp
    obtain r p where "claim_step (ring g) (pcs g ! i) = (r, p)" by fastforce
    with Inl step [OF amt_step.producer [OF i this]] show ?thesis
      using Cons.prems(2) by (auto intro!: Cons.IH)
  next
    case (Inr v)
    obtain tr tm force where v: "v = (tr, tm, force)" by (cases v)
    obtain r c where "drain_step tr tm force (ring g) (cpc g) = (r, c)" by fastforce
    with Inr v step [OF amt_step.consumer [OF this]] show ?thesis
      using Cons.prems(2) by (auto intro!: Cons.IH)
  qed
qed simp

lemma demo_reachable:
  assumes "0 < sz" and "list_all (\<lambda>x. case x of Inl i \<Rightarrow> i < 2 | Inr _ \<Rightarrow> True) xs"
  shows "amt_reachable sz 2 (run_schedule xs (demo_start sz))"
proof (rule run_schedule_reachable)
  show "amt_reachable sz 2 (demo_start sz)"
    unfolding amt_reachable_def amt_start_def demo_start_def
    using assms(1) by (intro exI conjI rtranclp.rtrancl_refl) (auto simp: eval_nat_numeral)
  show "\<forall>i. Inl i \<in> set xs \<longrightarrow> i < length (pcs (demo_start sz))"
    using assms(2) by (auto simp: demo_start_def list_all_iff)
qed

definition race_schedule :: "(nat + int \<times> int \<times> bool) list" where
  "race_schedule =
     [Inl 0, Inl 0, Inl 0, Inl 0, Inl 0,
      Inr (0, 0, False), Inr (0, 0, False), Inr (0, 0, False),
      Inr (2000000000, 2000000000, False), Inr (2000000000, 2000000000, False), Inr (2000000000, 2000000000, False),
      Inr (2000000000, 2000000000, False), Inr (2000000000, 2000000000, False),
      Inl 1, Inl 1, Inl 1, Inl 1, Inl 1]"

lemma race_reachable: "amt_reachable 1 2 (run_schedule race_schedule (demo_start 1))"
  by (rule demo_reachable) (simp_all add: race_schedule_def)

text \<open>Both producers have won a ticket and are zeroing their slots, in a ring of two.\<close>

definition zeroing :: amt_threads where
  "zeroing = run_schedule [Inl 0, Inl 1, Inl 0, Inl 0, Inl 1, Inl 1, Inl 1, Inl 1] (demo_start 2)"

theorem amt_slots_exclusive_witness:
  "pcs zeroing ! 0 = ResetSlot 0 \<and> pcs zeroing ! 1 = ResetSlot 1 \<and> slot_index (ring zeroing) 0 \<noteq> slot_index (ring zeroing) 1"
proof -
  have r: "amt_reachable 2 2 zeroing" unfolding zeroing_def by (rule demo_reachable) simp_all
  have p: "pcs zeroing = [ResetSlot 0, ResetSlot 1]" by code_simp
  then have l: "0 < length (pcs zeroing)" and o: "owned (pcs zeroing ! 0) = Some 0" by simp_all
  have "1 < length (pcs zeroing)" "(1 :: nat) \<noteq> 0" "owned (pcs zeroing ! 1) = Some 1" using p by simp_all
  then have "slot_index (ring zeroing) 0 \<noteq> slot_index (ring zeroing) 1"
    using amt_slots_exclusive [OF r l o] by blast
  then show ?thesis using p by simp
qed

theorem amt_exactly_once_in_order_witness:
  "map fst (consumed (run_schedule race_schedule (demo_start 1))) =
     [0..int (length (consumed (run_schedule race_schedule (demo_start 1)))) - 1]"
  using amt_exactly_once_in_order [OF race_reachable] by (rule conjunct1)

theorem amt_claims_accounted_threads_witness:
  "dropped (ring (run_schedule race_schedule (demo_start 1))) =
     of_int (started (run_schedule race_schedule (demo_start 1)) - head (ring (run_schedule race_schedule (demo_start 1))) -
       int (length (filter claiming (pcs (run_schedule race_schedule (demo_start 1))))))"
  using amt_claims_accounted_threads [OF race_reachable] by (rule conjunct1)


end
