(* ===== verification/CopyRow.thy ===== *)
theory CopyRow
  imports Qentry
begin

text \<open>
  One event as one row of the COPY stream: \<open>qentryToBinary\<close> of \<^verbatim>\<open>src/ompi/mpi/c/init.c\<close>, which
  calls the encoders of \<^verbatim>\<open>pgcopy.c\<close> for the sixteen columns of the table
  \<^verbatim>\<open>edumpi_running_data\<close>, and the segment of the stream between two COPY commands.
\<close>

section \<open>The C library functions used on the way\<close>

text \<open>\<^verbatim>\<open>atol\<close>/\<^verbatim>\<open>atoi\<close>: white space, an optional sign, decimal digits.\<close>

definition c_isspace :: "byte \<Rightarrow> bool" where
  "c_isspace c \<longleftrightarrow> c = 32 \<or> 9 \<le> c \<and> c \<le> 13"

fun atol_digits :: "int \<Rightarrow> byte list \<Rightarrow> int" where
  "atol_digits acc [] = acc"
| "atol_digits acc (c # cs) =
     (if 48 \<le> c \<and> c \<le> 57 then atol_digits (acc * 10 + (uint c - 48)) cs else acc)"

definition atol :: "byte list \<Rightarrow> int" where
  "atol s =
     (let s = dropWhile c_isspace (cstr s) in
      case s of [] \<Rightarrow> 0
      | c # t \<Rightarrow> if c = 45 then - atol_digits 0 t else if c = 43 then atol_digits 0 t else atol_digits 0 s)"

definition atoi :: "byte list \<Rightarrow> int32" where
  "atoi s = of_int (atol s)"

text \<open>\<^verbatim>\<open>strcmp\<close>, as the code uses it: zero or not zero.\<close>

definition strcmp :: "byte list \<Rightarrow> byte list \<Rightarrow> int" where
  "strcmp s t = (if cstr s = cstr t then 0 else 1)"

section \<open>qentryToBinary\<close>

text \<open>
  \<open>dbl\<close> is the conversion of a value to the bits of a \<^verbatim>\<open>double\<close>; \<open>job_id\<close> is the string of
  \<^verbatim>\<open>SLURM_JOBID\<close> (\<open>atoi\<close> of a NULL pointer is undefined). The event counter is the first
  component of the result.
\<close>

definition qentryToBinary ::
  "(rat \<Rightarrow> uint64) \<Rightarrow> byte list option \<Rightarrow> qentry \<Rightarrow> int \<times> cursor \<Rightarrow> (int \<times> cursor) option" where
  "qentryToBinary dbl job_id item st =
     (let counter = fst st + 1; off = snd st in
      do { off \<leftarrow> newRow 16 off;
           jid \<leftarrow> job_id;
           off \<leftarrow> intToBinary (atoi jid) off;
           off \<leftarrow> stringToBinary (function' item) off;
           off \<leftarrow> stringToBinary (communicationType item) off;
           off \<leftarrow> int64ToBinary (sendDatasize item) off;
           off \<leftarrow> int64ToBinary (recvDatasize item) off;
           off \<leftarrow> stringToBinary (communicationArea item) off;
           off \<leftarrow> stringToBinary (processorname item) off;
           off \<leftarrow> intToBinary (of_int (processrank' item)) off;
           off \<leftarrow> intToBinary (of_int (partnerrank item)) off;
           off \<leftarrow> stringToBinary (usedAlgorithm item) off;
           off \<leftarrow> timestampToBinary (start' item) 1 off;
           off \<leftarrow> timestampToBinary (end' item) 0 off;
           off \<leftarrow> doubleToBinary (dbl (lateSenderTime item)) off;
           off \<leftarrow> doubleToBinary (dbl (lateReceiverTime item)) off;
           off \<leftarrow> doubleToBinary (dbl (timespec_diff (start' item) (end' item))) off;
           off \<leftarrow> byteaToBinary (coll_partnerranks item) 400
             (strcmp (communicationType item) (ascii ''collective'' @ [0])) off;
           Some (counter, off) })"

section \<open>The database row\<close>

text \<open>
  The columns of \<^verbatim>\<open>edumpi_running_data\<close> (\<^verbatim>\<open>src/EduStore/edustore_schema.sql\<close>) and what a reader
  of the binary format makes of the sixteen fields. Time stamps are microseconds since 2000-01-01
  in the format and microseconds of Unix time in the row.
\<close>

record db_row =
  edumpi_run_id :: int32
  fun_name :: "byte list"
  communicationtype :: "byte list"
  senddatasize :: int
  recvdatasize :: int
  communicationarea :: "byte list"
  processorname_col :: "byte list"
  processrank_col :: int
  partnerrank_col :: int
  coll_algorithm :: "byte list"
  time_start :: int
  time_end :: int
  latesendertime :: uint64
  laterecvrtime :: uint64
  time_diff :: uint64
  coll_partnerranks_col :: "byte list"

definition dec_time :: "byte list \<Rightarrow> int option" where
  "dec_time d = map_option (\<lambda>w :: 64 word. sint w + 946684800 * 1000000) (dec_word 8 d)"

definition decode_row :: "byte list list \<Rightarrow> db_row option" where
  "decode_row fs =
     (case fs of
        [c1, c2, c3, c4, c5, c6, c7, c8, c9, c10, c11, c12, c13, c14, c15, c16] \<Rightarrow>
          do { rid \<leftarrow> dec_word 4 c1; sds \<leftarrow> (dec_word 8 c4 :: 64 word option);
               rds \<leftarrow> (dec_word 8 c5 :: 64 word option);
               pr \<leftarrow> (dec_word 4 c8 :: 32 word option); pa \<leftarrow> (dec_word 4 c9 :: 32 word option);
               ts \<leftarrow> dec_time c11; te \<leftarrow> dec_time c12;
               ls \<leftarrow> dec_word 8 c13; lr \<leftarrow> dec_word 8 c14; td \<leftarrow> dec_word 8 c15;
               Some \<lparr>edumpi_run_id = rid, fun_name = c2, communicationtype = c3,
                 senddatasize = sint sds, recvdatasize = sint rds, communicationarea = c6,
                 processorname_col = c7, processrank_col = sint pr, partnerrank_col = sint pa,
                 coll_algorithm = c10, time_start = ts, time_end = te, latesendertime = ls,
                 laterecvrtime = lr, time_diff = td, coll_partnerranks_col = c16\<rparr> }
      | _ \<Rightarrow> None)"

text \<open>The rows of a COPY segment: the header, then tuples to the end.\<close>

fun read_rows :: "nat \<Rightarrow> byte list \<Rightarrow> db_row list option" where
  "read_rows 0 bs = (if bs = [] then Some [] else None)"
| "read_rows (Suc n) bs =
     (if bs = [] then Some []
      else do { (fs, bs) \<leftarrow> read_row bs; r \<leftarrow> decode_row fs; rs \<leftarrow> read_rows n bs; Some (r # rs) })"

definition read_segment :: "byte list \<Rightarrow> db_row list option" where
  "read_segment bs =
     (if take 19 bs = PGCOPY_HEADER then read_rows (length bs) (drop 19 bs) else None)"

text \<open>The row an entry stands for.\<close>

definition unix_us :: "timespec \<Rightarrow> int" where
  "unix_us t = tv_sec t * 1000000 + tv_nsec t div 1000"

definition row_of_entry :: "(rat \<Rightarrow> uint64) \<Rightarrow> byte list \<Rightarrow> qentry \<Rightarrow> db_row" where
  "row_of_entry dbl jid e =
     \<lparr>edumpi_run_id = atoi jid, fun_name = cstr (function' e),
      communicationtype = cstr (communicationType e),
      senddatasize = sint (sendDatasize e), recvdatasize = sint (recvDatasize e),
      communicationarea = cstr (communicationArea e), processorname_col = cstr (processorname e),
      processrank_col = processrank' e, partnerrank_col = partnerrank e,
      coll_algorithm = cstr (usedAlgorithm e),
      time_start = tv_sec (start' e) * 1000000, time_end = unix_us (end' e),
      latesendertime = dbl (lateSenderTime e), laterecvrtime = dbl (lateReceiverTime e),
      time_diff = dbl (timespec_diff (start' e) (end' e)),
      coll_partnerranks_col =
        (if cstr (communicationType e) = ascii ''collective'' \<and> (\<exists>b \<in> set (coll_partnerranks e). b \<noteq> 0)
         then coll_partnerranks e else [])\<rparr>"

text \<open>Ranges of the C types of the members that are integers in the model.\<close>

definition c_ranges :: "qentry \<Rightarrow> bool" where
  "c_ranges e \<longleftrightarrow> - (2 ^ 31) \<le> processrank' e \<and> processrank' e < 2 ^ 31 \<and>
     - (2 ^ 31) \<le> partnerrank e \<and> partnerrank e < 2 ^ 31 \<and>
     \<bar>tv_sec (start' e)\<bar> < 2 ^ 40 \<and> \<bar>tv_sec (end' e)\<bar> < 2 ^ 40 \<and>
     0 \<le> tv_nsec (start' e) \<and> tv_nsec (start' e) < 10 ^ 9 \<and>
     0 \<le> tv_nsec (end' e) \<and> tv_nsec (end' e) < 10 ^ 9"

section \<open>The row as fields\<close>

definition row_fields :: "(rat \<Rightarrow> uint64) \<Rightarrow> byte list \<Rightarrow> qentry \<Rightarrow> byte list list" where
  "row_fields dbl jid e =
     [be_bytes 4 (atoi jid), cstr (function' e), cstr (communicationType e),
      be_bytes 8 (sendDatasize e), be_bytes 8 (recvDatasize e),
      cstr (communicationArea e), cstr (processorname e),
      be_bytes 4 (of_int (processrank' e) :: 32 word), be_bytes 4 (of_int (partnerrank e) :: 32 word),
      cstr (usedAlgorithm e),
      be_bytes 8 (timestamp_us (start' e) 1), be_bytes 8 (timestamp_us (end' e) 0),
      be_bytes 8 (dbl (lateSenderTime e)), be_bytes 8 (dbl (lateReceiverTime e)),
      be_bytes 8 (dbl (timespec_diff (start' e) (end' e))),
      bytea_image (coll_partnerranks e) 400
        (strcmp (communicationType e) (ascii ''collective'' @ [0]))]"

definition field_image :: "byte list \<Rightarrow> byte list" where
  "field_image d = length_word (length d) @ d"

definition row_image :: "(rat \<Rightarrow> uint64) \<Rightarrow> byte list \<Rightarrow> qentry \<Rightarrow> byte list" where
  "row_image dbl jid e = [0, 16] @ concat (map field_image (row_fields dbl jid e))"

lemma read_fields_images:
  assumes "\<forall>d \<in> set fs. length d < 2 ^ 32"
  shows "read_fields (length fs) (concat (map field_image fs) @ rest) = Some (fs, rest)"
  using assms by (induction fs) (simp_all add: field_image_def read_field_image del: power_numeral)

lemma wf_entry_strings:
  assumes "wf_entry e"
  shows "0 \<in> set (function' e)" "length (cstr (function' e)) < 30"
    "0 \<in> set (communicationType e)" "length (cstr (communicationType e)) < 30"
    "0 \<in> set (communicationArea e)" "length (cstr (communicationArea e)) < 64"
    "0 \<in> set (processorname e)" "length (cstr (processorname e)) < 30"
    "0 \<in> set (usedAlgorithm e)" "length (cstr (usedAlgorithm e)) < 30"
    "length (coll_partnerranks e) = 50"
  using assms length_cstr by (fastforce simp: wf_entry_def terminated_def)+

lemma length_bytea_image: "length (bytea_image a 400 p) \<le> 50"
  by (simp add: bytea_image_def Let_def)

lemma row_fields_small:
  assumes "wf_entry e" and "d \<in> set (row_fields dbl jid e)"
  shows "length d < 64"
  using assms(2) wf_entry_strings [OF assms(1)] length_bytea_image
    [of "coll_partnerranks e" "strcmp (communicationType e) (ascii ''collective'' @ [0])"]
  unfolding row_fields_def by auto

lemma length_row_image:
  assumes "wf_entry e"
  shows "length (row_image dbl jid e) \<le> 363"
  using wf_entry_strings [OF assms] length_bytea_image
    [of "coll_partnerranks e" "strcmp (communicationType e) (ascii ''collective'' @ [0])"]
  unfolding row_image_def row_fields_def by (simp add: field_image_def)

text \<open>The chain of encoder calls emits the row.\<close>

lemma emits_row:
  assumes "wf_entry e"
  shows "emits (\<lambda>c. map_option snd (qentryToBinary dbl (Some jid) e (k, c))) (row_image dbl jid e)"
proof -
  note s = wf_entry_strings [OF assms]
  have str: "emits (stringToBinary a) (field_image (cstr a))" if "0 \<in> set a" "length (cstr a) < 64" for a
    using emits_string [OF that(1)] that(2) by (simp add: field_image_def)
  have fix4: "emits (intToBinary w) (field_image (be_bytes 4 w))" for w
    using emits_int by (simp add: field_image_def)
  have fix8: "emits (int64ToBinary w) (field_image (be_bytes 8 w))"
    "emits (doubleToBinary w) (field_image (be_bytes 8 w))"
    "emits (timestampToBinary t r) (field_image (be_bytes 8 (timestamp_us t r)))" for w t r
    using emits_int64 emits_double emits_timestamp by (simp_all add: field_image_def)
  have byt: "emits (byteaToBinary (coll_partnerranks e) 400 p)
      (field_image (bytea_image (coll_partnerranks e) 400 p))" for p
    using emits_bytea [of 400 "coll_partnerranks e" p] s(11) by (simp add: field_image_def)
  have row: "emits (newRow 16) [0, 16]"
    using emits_newRow [of 16] by simp
  have fuse: "map_option h (Option.bind m f) = Option.bind m (\<lambda>x. map_option h (f x))"
    for h :: "int \<times> cursor \<Rightarrow> cursor" and m :: "cursor option" and f
    by (cases m) auto
  show ?thesis
    unfolding row_image_def row_fields_def list.map concat.simps append_Nil2 qentryToBinary_def
      Let_def fst_conv snd_conv Option.bind.bind_lunit fuse option.map bind_runit
    by (intro emits_seq row fix4 fix8 byt str s order.strict_trans2 [OF s(2)] order.strict_trans2 [OF s(4)]
        order.strict_trans2 [OF s(8)] order.strict_trans2 [OF s(10)]) simp_all
qed

section \<open>Reading the rows back\<close>

lemma sint_of_int_64: "- (2 ^ 63) \<le> k \<Longrightarrow> k < 2 ^ 63 \<Longrightarrow> sint (of_int k :: 64 word) = k"
  by (simp add: signed_of_int signed_take_bit_int_eq_self)

lemma sint_of_int_32: "- (2 ^ 31) \<le> k \<Longrightarrow> k < 2 ^ 31 \<Longrightarrow> sint (of_int k :: 32 word) = k"
  by (simp add: signed_of_int signed_take_bit_int_eq_self)

lemma dec_time_timestamp:
  assumes "\<bar>tv_sec t\<bar> < 2 ^ 40" and "0 \<le> tv_nsec t" and "tv_nsec t < 10 ^ 9"
  shows "dec_time (be_bytes 8 (timestamp_us t 0)) = Some (unix_us t)"
    and "dec_time (be_bytes 8 (timestamp_us t 1)) = Some (tv_sec t * 1000000)"
proof -
  let ?k = "(tv_sec t - 946684800) * 1000000"
  have n: "0 \<le> tv_nsec t div 1000" "tv_nsec t div 1000 < 10 ^ 6" using assms(2,3) by simp_all
  have "sint (of_int (?k + tv_nsec t div 1000) :: 64 word) = ?k + tv_nsec t div 1000"
    and "sint (of_int ?k :: 64 word) = ?k"
    using assms(1) n by (intro sint_of_int_64; simp)+
  then show "dec_time (be_bytes 8 (timestamp_us t 0)) = Some (unix_us t)"
    and "dec_time (be_bytes 8 (timestamp_us t 1)) = Some (tv_sec t * 1000000)"
    using assms(2) by (simp_all add: dec_time_def dec_word_be_bytes timestamp_us_def Let_def unix_us_def
        del: of_int_add of_int_diff of_int_mult)
qed

lemma strcmp_collective: "strcmp s (ascii ''collective'' @ [0]) = (if cstr s = ascii ''collective'' then 0 else 1)"
  unfolding strcmp_def by (subst cstr_append_NUL) simp_all

lemma decode_row_fields:
  assumes "wf_entry e" and "c_ranges e"
  shows "decode_row (row_fields dbl jid e) = Some (row_of_entry dbl jid e)"
  using assms unfolding c_ranges_def
  by (auto simp: decode_row_def row_fields_def row_of_entry_def dec_word_be_bytes dec_time_timestamp
      sint_of_int_32 bytea_image_def Let_def strcmp_collective wf_entry_strings simp del: ascii_Cons)

lemma read_row_image:
  assumes "wf_entry e"
  shows "read_row (row_image dbl jid e @ rest) = Some (row_fields dbl jid e, rest)"
proof -
  have "be_nat [0, 16 :: byte] = length (row_fields dbl jid e)"
    by (simp add: be_nat_def row_fields_def)
  moreover have "\<forall>d \<in> set (row_fields dbl jid e). length d < 2 ^ 32"
    using row_fields_small [OF assms] by fastforce
  ultimately show ?thesis
    using read_fields_images [of "row_fields dbl jid e" rest]
    by (simp add: read_row_def row_image_def numeral_2_eq_2)
qed

lemma length_row_image_pos: "0 < length (row_image dbl jid e)"
  by (simp add: row_image_def)

lemma read_rows_images:
  assumes "\<forall>e \<in> set es. wf_entry e \<and> c_ranges e"
    and "length (concat (map (row_image dbl jid) es)) \<le> n"
  shows "read_rows n (concat (map (row_image dbl jid) es)) = Some (map (row_of_entry dbl jid) es)"
  using assms
proof (induction es arbitrary: n)
  case Nil
  then show ?case by (cases n) auto
next
  case (Cons e es)
  have pos: "0 < length (row_image dbl jid e)" by (rule length_row_image_pos)
  then obtain m where n: "n = Suc m" using Cons.prems(2) by (cases n) auto
  have "read_rows m (concat (map (row_image dbl jid) es)) = Some (map (row_of_entry dbl jid) es)"
    using Cons.prems pos by (intro Cons.IH) (simp_all add: n del: length_greater_0_conv)
  then show ?case
    using Cons.prems(1) pos by (simp add: n read_row_image decode_row_fields)
qed

lemma qentryToBinary_writes:
  assumes "wf_entry e" and "off + length (row_image dbl jid e) \<le> length buf"
  shows "qentryToBinary dbl (Some jid) e (k, (buf, off)) =
    Some (k + 1, (take off buf @ row_image dbl jid e @ drop (off + length (row_image dbl jid e)) buf,
      off + length (row_image dbl jid e)))"
proof -
  have c: "map_option fst (qentryToBinary dbl (Some jid) e (k, (buf, off))) =
      map_option (\<lambda>_. k + 1) (qentryToBinary dbl (Some jid) e (k, (buf, off)))"
    by (auto simp: qentryToBinary_def Let_def bind_Some_iff map_option_case split: option.split)
  from emits_fits [OF emits_row [OF assms(1)] assms(2), of k] c show ?thesis
    by (cases "qentryToBinary dbl (Some jid) e (k, (buf, off))") auto
qed

section \<open>Properties\<close>

text \<open>C22: a well-formed entry always fits into the 2048-byte stack buffer of the monitor thread: the
  encoding never stores outside the buffer, ends at an offset of at most 363, and counts the event
  once.\<close>

theorem qentryToBinary_fits:
  assumes "wf_entry e" and "length buf = 2048"
  shows "\<exists>buf' off'. qentryToBinary dbl (Some jid) e (k, (buf, 0)) = Some (k + 1, (buf', off')) \<and>
    off' \<le> 363 \<and> length buf' = 2048"
  using qentryToBinary_writes [OF assms(1), of 0 dbl jid buf k] length_row_image [OF assms(1), of dbl jid] assms(2)
  by auto

definition demo_entry :: qentry where
  "demo_entry = (zero_entry 4)\<lparr>function' := ascii ''MPI_Send'' @ replicate 22 0,
     end' := \<lparr>tv_sec = 1700000000, tv_nsec = 5000\<rparr>\<rparr>"

lemma demo_entry_ok: "wf_entry demo_entry" "c_ranges demo_entry"
proof -
  have "length (ascii ''MPI_Send'') = 8" by simp
  then show "wf_entry demo_entry"
    using wf_zero_entry [of 4] by (simp add: demo_entry_def wf_entry_def terminated_def del: ascii_Cons)
  show "c_ranges demo_entry" by (simp add: demo_entry_def c_ranges_def zero_entry_def zero_timespec_def)
qed

theorem qentryToBinary_fits_witness:
  "\<exists>buf' off'. qentryToBinary (\<lambda>_. 0) (Some (ascii ''7'')) demo_entry (0, (replicate 2048 0, 0)) =
     Some (1, (buf', off')) \<and> off' \<le> 363 \<and> length buf' = 2048"
  using qentryToBinary_fits [OF demo_entry_ok(1), of "replicate 2048 0" "\<lambda>_. 0" "ascii ''7''" 0] by simp

text \<open>C5: reading the bytes of an encoded entry back in the documented tuple format gives the row of
  the entry: the sixteen columns in the order of the table, the start truncated to the second, the
  end to the microsecond, and the partner mask only for a collective call that has a bit set.\<close>

theorem qentryToBinary_roundtrip:
  assumes "wf_entry e" and "c_ranges e" and "length buf = 2048"
    and "qentryToBinary dbl (Some jid) e (k, (buf, 0)) = Some (k', (buf', off'))"
  shows "Option.bind (read_row (take off' buf')) (\<lambda>(fs, rest). map_option (\<lambda>r. (r, rest)) (decode_row fs)) =
    Some (row_of_entry dbl jid e, [])"
proof -
  have "buf' = row_image dbl jid e @ drop off' buf \<and> off' = length (row_image dbl jid e)"
    using qentryToBinary_writes [OF assms(1), of 0 dbl jid buf k] length_row_image [OF assms(1), of dbl jid]
      assms(3,4) by simp
  then have "read_row (take off' buf') = Some (row_fields dbl jid e, [])"
    using read_row_image [OF assms(1), of dbl jid "[]"] by simp
  then show ?thesis using decode_row_fields [OF assms(1,2)] by simp
qed

theorem qentryToBinary_roundtrip_witness:
  "\<exists>buf' off'. qentryToBinary (\<lambda>_. 0) (Some (ascii ''7'')) demo_entry (0, (replicate 2048 0, 0)) =
     Some (1, (buf', off')) \<and>
   Option.bind (read_row (take off' buf')) (\<lambda>(fs, rest). map_option (\<lambda>r. (r, rest)) (decode_row fs)) =
     Some (row_of_entry (\<lambda>_. 0) (ascii ''7'') demo_entry, [])"
proof -
  let ?e = "row_image (\<lambda>_. 0) (ascii ''7'') demo_entry"
  have "qentryToBinary (\<lambda>_. 0) (Some (ascii ''7'')) demo_entry (0, (replicate 2048 0, 0)) =
      Some (0 + 1, (take 0 (replicate 2048 0) @ ?e @ drop (0 + length ?e) (replicate 2048 0), 0 + length ?e))"
    using length_row_image [OF demo_entry_ok(1), of "\<lambda>_. 0" "ascii ''7''"]
    by (intro qentryToBinary_writes [OF demo_entry_ok(1)]) (simp del: ascii_Cons)
  then obtain buf' off' where
    q: "qentryToBinary (\<lambda>_. 0) (Some (ascii ''7'')) demo_entry (0, (replicate 2048 0, 0)) = Some (0 + 1, (buf', off'))"
    by blast
  show ?thesis
    using q qentryToBinary_roundtrip [OF demo_entry_ok _ q] by (auto simp del: ascii_Cons)
qed

end
