(* ===== verification/SpRing.thy ===== *)
theory SpRing
  imports Qentry
begin

text \<open>
  The single-producer ring of the default mode (\<^verbatim>\<open>ringbuffer\<close>, \<^verbatim>\<open>writer_pos\<close> and \<^verbatim>\<open>reader_pos\<close> of
  \<^verbatim>\<open>src/ompi/mpi/c/init.c\<close>): the position handed to the next event by \<open>getWritingRingPos\<close>, and the
  advance of the reader in the monitor thread.
\<close>

definition MAX_RINGSIZE :: int where "MAX_RINGSIZE = 1000000"

record sp_ring =
  ringbuffer :: "qentry list"
  writer_pos :: int
  reader_pos :: int
  edumpi_ticket_counter :: uint64

section \<open>The writer\<close>

text \<open>The condition under which the writer sleeps and looks again.\<close>

definition writer_waits :: "sp_ring \<Rightarrow> bool" where
  "writer_waits s \<longleftrightarrow> writer_pos s = reader_pos s - 1 \<or> reader_pos s = 0 \<and> writer_pos s = MAX_RINGSIZE"

text \<open>Zero the slot with a new ticket and make it the writer's position.\<close>

definition write_at :: "int \<Rightarrow> sp_ring \<Rightarrow> sp_ring" where
  "write_at p s =
     (let t = edumpi_ticket_counter s + 1 in
      s\<lparr>ringbuffer := (ringbuffer s)[nat p := edumpi_entry_reset (ringbuffer s ! nat p) t],
        edumpi_ticket_counter := t, writer_pos := p\<rparr>)"

text \<open>
  \<open>getWritingRingPos\<close> in the default mode; None means that it sleeps, to be called again when the
  reader has moved.
\<close>

definition getWritingRingPos :: "sp_ring \<Rightarrow> (int \<times> sp_ring) option" where
  "getWritingRingPos s =
     (if writer_pos s = - 1 then Some (0, write_at 0 s)
      else if writer_waits s then None
      else if writer_pos s = MAX_RINGSIZE - 1 then Some (0, write_at 0 s)
      else Some (writer_pos s + 1, write_at (writer_pos s + 1) s))"

section \<open>The reader\<close>

definition reader_next :: "sp_ring \<Rightarrow> int" where
  "reader_next s = (if reader_pos s = MAX_RINGSIZE - 1 then 0 else reader_pos s + 1)"

text \<open>The condition of the monitor loop under which there is nothing to read.\<close>

definition reader_idle :: "sp_ring \<Rightarrow> bool" where
  "reader_idle s \<longleftrightarrow> writer_pos s = - 1 \<or> reader_pos s = writer_pos s \<or>
     reader_pos s = MAX_RINGSIZE - 1 \<and> writer_pos s = 0"

section \<open>What is in the ring\<close>

definition sp_inv :: "sp_ring \<Rightarrow> bool" where
  "sp_inv s \<longleftrightarrow> length (ringbuffer s) = nat MAX_RINGSIZE \<and> - 1 \<le> writer_pos s \<and> writer_pos s < MAX_RINGSIZE \<and>
     - 1 \<le> reader_pos s \<and> reader_pos s < MAX_RINGSIZE \<and> (writer_pos s = - 1 \<longrightarrow> reader_pos s = - 1)"

text \<open>The number of entries between the reader and the writer, and these entries, oldest first.\<close>

definition sp_count :: "sp_ring \<Rightarrow> int" where
  "sp_count s = (if reader_pos s = - 1 then writer_pos s + 1 else (writer_pos s - reader_pos s) mod MAX_RINGSIZE)"

definition sp_slot :: "sp_ring \<Rightarrow> int \<Rightarrow> nat" where
  "sp_slot s k = nat ((reader_pos s + k) mod MAX_RINGSIZE)"

definition sp_unread :: "sp_ring \<Rightarrow> qentry list" where
  "sp_unread s = map (\<lambda>k. ringbuffer s ! sp_slot s k) [1..sp_count s]"

text \<open>Room as the ring needs it: one position stays free once the reader has started.\<close>

definition sp_room :: "sp_ring \<Rightarrow> bool" where
  "sp_room s \<longleftrightarrow> (if reader_pos s = - 1 then writer_pos s < MAX_RINGSIZE - 1 else sp_count s < MAX_RINGSIZE - 1)"

lemma map_Suc_upto_int: "map (\<lambda>k. k + 1) [a..b] = [a + 1..b + 1]"
  by (rule nth_equalityI) (simp_all add: nth_upto)

lemma sp_count_nonneg: "sp_inv s \<Longrightarrow> 0 \<le> sp_count s"
  by (simp add: sp_inv_def sp_count_def MAX_RINGSIZE_def)

lemma sp_count_le: "sp_inv s \<Longrightarrow> sp_count s \<le> MAX_RINGSIZE"
  by (simp add: sp_inv_def sp_count_def MAX_RINGSIZE_def order_less_imp_le)

lemma length_sp_unread: "sp_inv s \<Longrightarrow> int (length (sp_unread s)) = sp_count s"
  using sp_count_nonneg [of s] by (simp add: sp_unread_def)

lemma sp_count_mod:
  assumes "sp_inv s" and "0 \<le> reader_pos s"
  shows "sp_count s = (if reader_pos s \<le> writer_pos s then writer_pos s - reader_pos s
     else writer_pos s - reader_pos s + MAX_RINGSIZE)"
proof (cases "reader_pos s \<le> writer_pos s")
  case True
  then show ?thesis using assms by (simp add: sp_count_def sp_inv_def mod_pos_pos_trivial)
next
  case False
  then have "(writer_pos s - reader_pos s + MAX_RINGSIZE) mod MAX_RINGSIZE = writer_pos s - reader_pos s + MAX_RINGSIZE"
    using assms by (intro mod_pos_pos_trivial) (auto simp: sp_inv_def)
  then show ?thesis using False assms by (simp add: sp_count_def)
qed

lemma sp_slot_inj:
  assumes "sp_inv s" and "sp_slot s k = sp_slot s k'" and "1 \<le> k" "k \<le> MAX_RINGSIZE" "1 \<le> k'" "k' \<le> MAX_RINGSIZE"
  shows "k = k'"
proof -
  have "(reader_pos s + k) mod MAX_RINGSIZE = (reader_pos s + k') mod MAX_RINGSIZE"
    using assms(2) by (simp add: sp_slot_def MAX_RINGSIZE_def)
  then have "MAX_RINGSIZE dvd (reader_pos s + k) - (reader_pos s + k')" by (simp add: mod_eq_dvd_iff)
  then have "MAX_RINGSIZE dvd k - k'" by simp
  moreover have "\<bar>k - k'\<bar> < \<bar>MAX_RINGSIZE\<bar>" using assms(3-) by linarith
  ultimately show ?thesis using dvd_imp_le_int [of "k - k'" MAX_RINGSIZE] by linarith
qed

text \<open>With room, the next position is the one after the unread entries.\<close>

lemma getWritingRingPos_target:
  assumes "sp_inv s" and "sp_room s"
  shows "\<exists>p. getWritingRingPos s = Some (p, write_at p s) \<and> nat p = sp_slot s (sp_count s + 1) \<and>
    0 \<le> p \<and> p < MAX_RINGSIZE \<and> sp_count (write_at p s) = sp_count s + 1"
proof (cases "reader_pos s = - 1")
  case True
  then have "getWritingRingPos s = Some (writer_pos s + 1, write_at (writer_pos s + 1) s)"
    using assms by (simp add: getWritingRingPos_def writer_waits_def sp_room_def sp_inv_def)
  moreover have "sp_count (write_at (writer_pos s + 1) s) = sp_count s + 1"
    using True by (simp add: sp_count_def write_at_def Let_def)
  moreover have "nat (writer_pos s + 1) = sp_slot s (sp_count s + 1)"
    using True assms by (simp add: sp_slot_def sp_count_def sp_room_def sp_inv_def mod_pos_pos_trivial)
  ultimately show ?thesis
    using True assms by (intro exI [of _ "writer_pos s + 1"]) (simp add: sp_room_def sp_inv_def)
next
  case False
  then have r: "0 \<le> reader_pos s" "0 \<le> writer_pos s" using assms(1) by (auto simp: sp_inv_def)
  have c: "sp_count s < MAX_RINGSIZE - 1" using assms(2) False by (simp add: sp_room_def)
  note M = sp_count_mod [OF assms(1) r(1)]
  have w: "\<not> writer_waits s" using c M assms(1) by (auto simp: writer_waits_def sp_inv_def split: if_splits)
  let ?p = "if writer_pos s = MAX_RINGSIZE - 1 then 0 else writer_pos s + 1"
  have g: "getWritingRingPos s = Some (?p, write_at ?p s)"
    using w r by (simp add: getWritingRingPos_def)
  have b: "0 \<le> ?p" "?p < MAX_RINGSIZE" using r assms(1) by (auto simp: sp_inv_def MAX_RINGSIZE_def)
  have inv': "sp_inv (write_at ?p s)" using assms(1) b by (auto simp: sp_inv_def write_at_def Let_def)
  have slot: "nat ?p = sp_slot s (sp_count s + 1)"
  proof -
    have "(writer_pos s + 1) mod MAX_RINGSIZE = ?p" using b r assms(1) by (auto simp: sp_inv_def mod_pos_pos_trivial)
    moreover have "(reader_pos s + (sp_count s + 1)) mod MAX_RINGSIZE = (writer_pos s + 1) mod MAX_RINGSIZE"
    proof -
      have "reader_pos s + (sp_count s + 1) = writer_pos s + 1 \<or>
          reader_pos s + (sp_count s + 1) = writer_pos s + 1 + MAX_RINGSIZE"
        using M by auto
      then show ?thesis by (elim disjE; simp only: mod_add_self2)
    qed
    ultimately show ?thesis by (simp add: sp_slot_def)
  qed
  have "sp_count (write_at ?p s) = sp_count s + 1"
    using sp_count_mod [OF inv'] r M c assms(1)
    by (auto simp: write_at_def Let_def sp_inv_def split: if_splits)
  with g b slot show ?thesis by blast
qed

lemma write_at_frame:
  "reader_pos (write_at p s) = reader_pos s" "writer_pos (write_at p s) = p"
  "length (ringbuffer (write_at p s)) = length (ringbuffer s)"
  "sp_slot (write_at p s) k = sp_slot s k"
  by (simp_all add: write_at_def Let_def sp_slot_def)

lemma getWritingRingPos_appends:
  assumes "sp_inv s" and "sp_room s" and "getWritingRingPos s = Some (p, s')"
  shows "sp_inv s'" "sp_count s' = sp_count s + 1"
    "sp_unread s' = sp_unread s @ [zero_entry (EDUMPI_LC (edumpi_ticket_counter s + 1) EDUMPI_LC_NONE)]"
    "nat p < length (ringbuffer s')" "ringbuffer s' ! nat p = zero_entry (EDUMPI_LC (edumpi_ticket_counter s + 1) EDUMPI_LC_NONE)"
proof -
  let ?z = "zero_entry (EDUMPI_LC (edumpi_ticket_counter s + 1) EDUMPI_LC_NONE)"
  have s': "s' = write_at p s" and slot: "nat p = sp_slot s (sp_count s + 1)" and p: "0 \<le> p" "p < MAX_RINGSIZE"
    and c: "sp_count s' = sp_count s + 1"
    using getWritingRingPos_target [OF assms(1,2)] assms(3) by auto
  have len: "length (ringbuffer s) = nat MAX_RINGSIZE" using assms(1) by (simp add: sp_inv_def)
  have b: "nat p < length (ringbuffer s)" using p len by simp
  show "sp_count s' = sp_count s + 1" by (rule c)
  show "sp_inv s'" using assms(1) p by (auto simp: sp_inv_def s' write_at_frame)
  show "nat p < length (ringbuffer s')" using b by (simp add: s' write_at_frame)
  show z: "ringbuffer s' ! nat p = ?z"
    using b by (simp add: s' write_at_def Let_def edumpi_entry_reset_def)
  have n: "0 \<le> sp_count s" by (rule sp_count_nonneg [OF assms(1)])
  have le: "sp_count s + 1 \<le> MAX_RINGSIZE"
    using assms(2) by (auto simp: sp_room_def sp_count_def split: if_splits)
  have "ringbuffer s' ! sp_slot s k = ringbuffer s ! sp_slot s k" if "k \<in> set [1..sp_count s]" for k
  proof -
    have "sp_slot s k \<noteq> nat p"
      using that sp_slot_inj [OF assms(1), of k "sp_count s + 1"] slot le n by auto
    then show ?thesis by (simp add: s' write_at_def Let_def)
  qed
  moreover have "[1..sp_count s + 1] = [1..sp_count s] @ [sp_count s + 1]"
    using n upto_rec2 [of 1 "sp_count s + 1"] by simp
  moreover have "sp_slot s' = sp_slot s" by (rule ext) (simp add: s' write_at_frame)
  ultimately show "sp_unread s' = sp_unread s @ [?z]"
    using z slot by (simp add: sp_unread_def c)
qed

section \<open>Reading\<close>

lemma reader_next_bounds: "sp_inv s \<Longrightarrow> 0 \<le> reader_next s \<and> reader_next s < MAX_RINGSIZE"
  by (auto simp: sp_inv_def reader_next_def MAX_RINGSIZE_def)

lemma reader_next_slot: "sp_inv s \<Longrightarrow> nat (reader_next s) = sp_slot s 1"
  by (auto simp: reader_next_def sp_slot_def sp_inv_def mod_pos_pos_trivial)

lemma reader_idle_count:
  assumes "sp_inv s"
  shows "\<not> reader_idle s \<Longrightarrow> 0 < sp_count s"
    and "reader_idle s \<Longrightarrow> sp_count s = 0 \<or> sp_count s = 1 \<and> reader_pos s = MAX_RINGSIZE - 1"
proof -
  have z: "sp_count s = 0 \<longleftrightarrow> reader_pos s = writer_pos s"
    using assms sp_count_mod [OF assms] by (auto simp: sp_inv_def sp_count_def split: if_splits)
  show "\<not> reader_idle s \<Longrightarrow> 0 < sp_count s"
    using z sp_count_nonneg [OF assms] by (auto simp: reader_idle_def)
  show "reader_idle s \<Longrightarrow> sp_count s = 0 \<or> sp_count s = 1 \<and> reader_pos s = MAX_RINGSIZE - 1"
    using z assms sp_count_mod [OF assms] by (auto simp: reader_idle_def sp_inv_def MAX_RINGSIZE_def)
qed

lemma reader_advance:
  assumes "sp_inv s" and "0 < sp_count s"
  shows "sp_inv (s\<lparr>reader_pos := reader_next s\<rparr>)" "sp_count (s\<lparr>reader_pos := reader_next s\<rparr>) = sp_count s - 1"
    "sp_unread s = ringbuffer s ! nat (reader_next s) # sp_unread (s\<lparr>reader_pos := reader_next s\<rparr>)"
proof -
  let ?s = "s\<lparr>reader_pos := reader_next s\<rparr>"
  have w: "writer_pos s \<noteq> - 1" using assms by (auto simp: sp_count_def sp_inv_def)
  note b = reader_next_bounds [OF assms(1)]
  show inv: "sp_inv ?s" using assms(1) b w by (auto simp: sp_inv_def)
  have r: "0 \<le> reader_pos ?s" using b by simp
  show c: "sp_count ?s = sp_count s - 1"
  proof (cases "reader_pos s = - 1")
    case True
    then show ?thesis
      using sp_count_mod [OF inv r] assms by (auto simp: sp_count_def reader_next_def sp_inv_def MAX_RINGSIZE_def)
  next
    case False
    then have "0 \<le> reader_pos s" using assms(1) by (auto simp: sp_inv_def)
    then show ?thesis
      using sp_count_mod [OF inv r] sp_count_mod [OF assms(1)] assms
      by (auto simp: reader_next_def sp_inv_def split: if_splits)
  qed
  have slot: "sp_slot ?s k = sp_slot s (k + 1)" for k
  proof -
    have "reader_next s mod MAX_RINGSIZE = (reader_pos s + 1) mod MAX_RINGSIZE"
      using assms(1) by (auto simp: reader_next_def)
    then have "(reader_next s + k) mod MAX_RINGSIZE = (reader_pos s + 1 + k) mod MAX_RINGSIZE"
      by (rule mod_add_cong) simp
    then show ?thesis by (simp add: sp_slot_def algebra_simps)
  qed
  have up: "[1..sp_count s] = 1 # map (\<lambda>k. k + 1) [1..sp_count s - 1]"
    using assms(2) upto_rec1 [of 1 "sp_count s"] by (simp add: map_Suc_upto_int)
  show "sp_unread s = ringbuffer s ! nat (reader_next s) # sp_unread ?s"
    using reader_next_slot [OF assms(1)] by (simp add: sp_unread_def up c slot)
qed

section \<open>The event queue\<close>

text \<open>
  The \<^verbatim>\<open>TAILQ\<close> of the same file, kept beside the ring: \<open>qentryIntoQueue\<close> numbers the entry and
  appends it, \<open>dequeue\<close> removes the oldest. \<open>dequeue\<close> leaves \<open>queue_length\<close> as it is.
\<close>

record event_queue =
  queue_head :: "qentry list"
  queue_ID :: int32
  queue_length :: int32

definition qentryIntoQueue :: "qentry \<Rightarrow> event_queue \<Rightarrow> event_queue" where
  "qentryIntoQueue item q =
     (let i = queue_ID q + 1 in
      q\<lparr>queue_ID := i, queue_head := queue_head q @ [item\<lparr>id' := sint i\<rparr>], queue_length := queue_length q + 1\<rparr>)"

definition dequeue :: "event_queue \<Rightarrow> qentry option \<times> event_queue" where
  "dequeue q = (case queue_head q of [] \<Rightarrow> (None, q) | item # rest \<Rightarrow> (Some item, q\<lparr>queue_head := rest\<rparr>))"

section \<open>Properties\<close>

text \<open>C20: While there is room, \<open>getWritingRingPos\<close> returns at once with a zeroed slot that is behind all
  unread entries: no unread entry is touched, the unread entries grow by exactly the new one, and its
  lifecycle word carries the next ticket.\<close>

theorem sp_ring_write:
  assumes "sp_inv s" and "sp_room s"
  shows "\<exists>p s'. getWritingRingPos s = Some (p, s') \<and> sp_inv s' \<and>
    sp_unread s' = sp_unread s @ [zero_entry (EDUMPI_LC (edumpi_ticket_counter s + 1) EDUMPI_LC_NONE)] \<and>
    ringbuffer s' ! nat p = zero_entry (EDUMPI_LC (edumpi_ticket_counter s + 1) EDUMPI_LC_NONE) \<and>
    edumpi_ticket_counter s' = edumpi_ticket_counter s + 1"
proof -
  obtain p where g: "getWritingRingPos s = Some (p, write_at p s)"
    using getWritingRingPos_target [OF assms] by blast
  note A = getWritingRingPos_appends [OF assms g]
  show ?thesis
    using g A by (intro exI [of _ p] exI [of _ "write_at p s"]) (simp add: write_at_def [of p s] Let_def)
qed

definition demo_sp :: sp_ring where
  "demo_sp = \<lparr>ringbuffer = replicate 1000000 (zero_entry 0), writer_pos = - 1, reader_pos = - 1,
     edumpi_ticket_counter = 0\<rparr>"

lemma demo_sp_inv: "sp_inv demo_sp" "sp_room demo_sp"
  by (simp_all add: sp_inv_def sp_room_def demo_sp_def MAX_RINGSIZE_def)

theorem sp_ring_write_witness:
  "sp_inv demo_sp \<and> sp_room demo_sp \<and> (\<exists>p s'. getWritingRingPos demo_sp = Some (p, s') \<and> sp_inv s')"
  using sp_ring_write [OF demo_sp_inv] demo_sp_inv by blast

text \<open>C21: Whenever the monitor loop does not find the ring idle there is an unread entry, and advancing
  the reader takes exactly the oldest one. An idle ring has no unread entry, except for one in position 0
  when the reader is at the last position, which waits for the next event or for the end of the run.\<close>

theorem sp_ring_read:
  assumes "sp_inv s"
  shows "if reader_idle s then sp_unread s = [] \<or> length (sp_unread s) = 1 \<and> reader_pos s = MAX_RINGSIZE - 1
    else sp_inv (s\<lparr>reader_pos := reader_next s\<rparr>) \<and>
      sp_unread s = ringbuffer s ! nat (reader_next s) # sp_unread (s\<lparr>reader_pos := reader_next s\<rparr>)"
  using reader_idle_count [OF assms] reader_advance [OF assms] length_sp_unread [OF assms] by auto

theorem sp_ring_read_witness:
  "reader_idle demo_sp \<and> (sp_unread demo_sp = [] \<or> length (sp_unread demo_sp) = 1 \<and> reader_pos demo_sp = MAX_RINGSIZE - 1)"
proof -
  have "reader_idle demo_sp" by (simp add: reader_idle_def demo_sp_def)
  then show ?thesis using sp_ring_read [OF demo_sp_inv(1)] by simp
qed

text \<open>Once the reader is past position 0, the writer sleeps exactly when all positions but one hold
  unread entries.\<close>

theorem sp_ring_waits:
  assumes "sp_inv s" and "0 < reader_pos s"
  shows "getWritingRingPos s = None \<longleftrightarrow> sp_count s = MAX_RINGSIZE - 1"
proof -
  have "0 \<le> writer_pos s" using assms by (auto simp: sp_inv_def)
  then show ?thesis
    using assms sp_count_mod [OF assms(1)]
    by (auto simp: getWritingRingPos_def writer_waits_def sp_inv_def split: if_splits)
qed

theorem sp_ring_waits_witness:
  "getWritingRingPos (demo_sp\<lparr>writer_pos := 4, reader_pos := 5\<rparr>) = None"
proof -
  let ?s = "demo_sp\<lparr>writer_pos := 4, reader_pos := 5\<rparr>"
  have "sp_inv ?s" "0 < reader_pos ?s" by (simp_all add: sp_inv_def demo_sp_def MAX_RINGSIZE_def)
  then have "getWritingRingPos ?s = None \<longleftrightarrow> sp_count ?s = MAX_RINGSIZE - 1" by (rule sp_ring_waits)
  moreover have "sp_count ?s = MAX_RINGSIZE - 1" by (simp add: sp_count_def MAX_RINGSIZE_def)
  ultimately show ?thesis by blast
qed

text \<open>C23: When the reader is at position 0 (or has read nothing yet) and the writer at the last position, the
  writer does not wait: it wraps onto the unread entries, and what the reader will still see falls from
  999999 unread entries to none (from 1000000 to one).\<close>

theorem sp_ring_wrap_loses_entries:
  assumes "sp_inv s" and "writer_pos s = MAX_RINGSIZE - 1" and "reader_pos s \<in> {- 1, 0}"
  shows "\<exists>s'. getWritingRingPos s = Some (0, s') \<and>
    sp_count s = (if reader_pos s = 0 then 999999 else 1000000) \<and> sp_count s' = (if reader_pos s = 0 then 0 else 1)"
  using assms
  by (auto simp: getWritingRingPos_def writer_waits_def sp_count_def write_at_def Let_def MAX_RINGSIZE_def)

theorem sp_ring_wrap_loses_entries_witness:
  "\<exists>s'. getWritingRingPos (demo_sp\<lparr>writer_pos := MAX_RINGSIZE - 1, reader_pos := 0\<rparr>) = Some (0, s') \<and> sp_count s' = 0"
proof -
  let ?s = "demo_sp\<lparr>writer_pos := MAX_RINGSIZE - 1, reader_pos := 0\<rparr>"
  have "sp_inv ?s" "writer_pos ?s = MAX_RINGSIZE - 1" "reader_pos ?s \<in> {- 1, 0}"
    by (simp_all add: sp_inv_def demo_sp_def MAX_RINGSIZE_def)
  from sp_ring_wrap_loses_entries [OF this] show ?thesis by auto
qed

end
