(* ===== verification/Monitor.thy ===== *)
theory Monitor
  imports CopyRow AmtRing SpRing
begin

text \<open>
  The monitor thread of \<^verbatim>\<open>src/ompi/mpi/c/init.c\<close> (\<open>SQLMonitorFunc\<close>) and the start and end of the
  analysis (\<open>edumpi_analysis_init_pre\<close>, \<open>MPI_Finalize\<close>). The calls into libpq are recorded in the order in
  which they are made; what the server makes of the COPY data is \<open>read_segment\<close> of \<open>CopyRow\<close>. The thread is
  a state machine whose program counters are the points at which it sleeps or reads \<^verbatim>\<open>run_thread\<close> again, so
  that the application can act in between.
\<close>

section \<open>Calls into libpq\<close>

datatype pq_call =
    PQconnectdb "byte list"
  | PQexecParams "byte list" "byte list option list"
  | PQexec "byte list"
  | PQputCopyData "byte list"
  | PQputCopyEnd
  | PQflush
  | PQgetResult
  | PQfinish

definition copyQuery :: "byte list" where
  "copyQuery = ascii ''COPY edumpi_running_data FROM STDIN (FORMAT binary)''"

text \<open>The bytes the server gets in each COPY command, the last one possibly still open.\<close>

fun add_data :: "byte list \<Rightarrow> byte list list \<Rightarrow> byte list list" where
  "add_data d [] = []"
| "add_data d [s] = [s @ d]"
| "add_data d (s # t # ss) = s # add_data d (t # ss)"

definition copy_segment :: "byte list list \<Rightarrow> pq_call \<Rightarrow> byte list list" where
  "copy_segment segs c =
     (case c of PQexec q \<Rightarrow> (if q = copyQuery then segs @ [[]] else segs)
      | PQputCopyData d \<Rightarrow> add_data d segs | _ \<Rightarrow> segs)"

definition copy_segments :: "pq_call list \<Rightarrow> byte list list" where
  "copy_segments calls = foldl copy_segment [] calls"

section \<open>State\<close>

record monitor =
  sp :: sp_ring
  amt :: amt_ring
  amt_mode :: bool
  run_thread :: bool
  request_wait_s :: rat
  counter :: int
  held :: bool
  held_since :: rat
  copy_start :: rat
  calls :: "pq_call list"

text \<open>The clock readings of one step.\<close>

record clocks =
  clk_mono :: timespec
  clk_real :: timespec
  clk_rt :: "int \<Rightarrow> int"
  clk_mt :: "int \<Rightarrow> int"

definition TIME_TO_WAIT :: rat where "TIME_TO_WAIT = 1 / 2"
definition AMT_DRAIN_BATCH :: int where "AMT_DRAIN_BATCH = 4096"

definition edumpi_wall_seconds :: "clocks \<Rightarrow> rat" where
  "edumpi_wall_seconds k = of_int (tv_sec (clk_mono k)) + of_int (tv_nsec (clk_mono k)) / 10 ^ 9"

definition edumpi_entry_age_seconds :: "clocks \<Rightarrow> qentry \<Rightarrow> rat" where
  "edumpi_entry_age_seconds k e =
     of_int (tv_sec (clk_real k) - tv_sec (end' e)) + of_int (tv_nsec (clk_real k) - tv_nsec (end' e)) / 10 ^ 9"

section \<open>Writing one entry\<close>

text \<open>\<open>dbl\<close> and \<open>jid\<close> as in \<open>CopyRow\<close>; the stack buffer has 2048 bytes.\<close>

definition amt_emit :: "(rat \<Rightarrow> uint64) \<Rightarrow> byte list option \<Rightarrow> qentry \<Rightarrow> monitor \<Rightarrow> monitor option" where
  "amt_emit dbl jid e m =
     (case qentryToBinary dbl jid e (counter m, (replicate 2048 0, 0)) of
        None \<Rightarrow> None
      | Some (c, (buffer, offset)) \<Rightarrow>
          Some (m\<lparr>counter := c, calls := calls m @ [PQputCopyData (take offset buffer)]\<rparr>))"

fun emit_all :: "(rat \<Rightarrow> uint64) \<Rightarrow> byte list option \<Rightarrow> qentry list \<Rightarrow> monitor \<Rightarrow> monitor option" where
  "emit_all dbl jid [] m = Some m"
| "emit_all dbl jid (e # es) m = Option.bind (amt_emit dbl jid e m) (emit_all dbl jid es)"

section \<open>The loop\<close>

text \<open>May the next entry be read? Lines 537 to 561.\<close>

definition hold_check :: "clocks \<Rightarrow> monitor \<Rightarrow> bool \<times> monitor" where
  "hold_check k m =
     (if \<not> amt_mode m \<and> run_thread m \<and> writer_pos (sp m) \<noteq> - 1 \<and> reader_pos (sp m) \<noteq> writer_pos (sp m) \<and>
         \<not> (reader_pos (sp m) = MAX_RINGSIZE - 1 \<and> writer_pos (sp m) = 0) then
        (let cand = ringbuffer (sp m) ! nat (reader_next (sp m)) in
         if edumpi_request_ready cand then (False, m\<lparr>held := False\<rparr>)
         else if tv_sec (end' cand) \<noteq> 0 \<or> tv_nsec (end' cand) \<noteq> 0 then
           (edumpi_entry_age_seconds k cand < request_wait_s m \<or> lifecycle cand AND 3 = EDUMPI_LC_FINISHING,
            m\<lparr>held := False\<rparr>)
         else
           (let now_held = edumpi_wall_seconds k;
                m' = (if \<not> held m then m\<lparr>held := True, held_since := now_held\<rparr> else m) in
            (now_held - held_since m' < request_wait_s m', m')))
      else (False, m))"

text \<open>End the COPY command and start the next one, at most twice a second: lines 627 to 647.\<close>

definition copy_restart :: "clocks \<Rightarrow> monitor \<Rightarrow> monitor" where
  "copy_restart k m =
     (let current = edumpi_wall_seconds k in
      if current \<ge> copy_start m + TIME_TO_WAIT then
        m\<lparr>calls := calls m @ [PQputCopyEnd, PQflush, PQgetResult, PQexec copyQuery, PQputCopyData PGCOPY_HEADER],
          copy_start := current\<rparr>
      else m)"

datatype monitor_pc =
    Loop     \<comment> \<open>the test of the main loop\<close>
  | Idle     \<comment> \<open>slept because the ring is empty\<close>
  | Spin     \<comment> \<open>waits for the end time of the newest entry\<close>
  | Timer    \<comment> \<open>the end of the body: restart COPY?\<close>
  | Final    \<comment> \<open>after the main loop\<close>
  | Done

text \<open>Advance the reader; lines 577 to 596. The next program counter says whether the entry is written.\<close>

definition read_entry :: "monitor \<Rightarrow> bool \<times> monitor" where
  "read_entry m =
     (let p = reader_next (sp m);
          s = (sp m)\<lparr>reader_pos := p\<rparr>;
          item = ringbuffer s ! nat p in
      if \<not> edumpi_request_ready item \<and> run_thread m \<and> (tv_sec (end' item) \<noteq> 0 \<or> tv_nsec (end' item) \<noteq> 0) \<and>
         fst (edumpi_lifecycle_try_abandon item)
      then (False, m\<lparr>sp := s\<lparr>ringbuffer := (ringbuffer s)[nat p := snd (edumpi_lifecycle_try_abandon item)]\<rparr>, held := False\<rparr>)
      else (True, m\<lparr>sp := s\<rparr>))"

definition write_current :: "(rat \<Rightarrow> uint64) \<Rightarrow> byte list option \<Rightarrow> monitor \<Rightarrow> monitor option" where
  "write_current dbl jid m =
     map_option (\<lambda>m. m\<lparr>held := False\<rparr>) (amt_emit dbl jid (ringbuffer (sp m) ! nat (reader_pos (sp m))) m)"

definition monitor_loop ::
  "(rat \<Rightarrow> uint64) \<Rightarrow> byte list option \<Rightarrow> clocks \<Rightarrow> monitor \<Rightarrow> (monitor_pc \<times> monitor) option" where
  "monitor_loop dbl jid k m =
     (case hold_check k m of (hold, m) \<Rightarrow>
        if amt_mode m then
          (case edumpi_amt_ring_drain (clk_rt k) (clk_mt k) False AMT_DRAIN_BATCH (amt m) of
             (n, r, es) \<Rightarrow> map_option (Pair Timer) (emit_all dbl jid es (m\<lparr>amt := r\<rparr>)))
        else if hold then Some (Timer, m)
        else if reader_idle (sp m) then Some (Idle, m)
        else
          (case read_entry m of (write, m) \<Rightarrow>
             if \<not> write then Some (Timer, m)
             else if reader_pos (sp m) = writer_pos (sp m) then Some (Spin, m)
             else map_option (Pair Timer) (write_current dbl jid m)))"

text \<open>The last COPY command ends and rank 0 notes the end of the run; lines 709 to 741.\<close>

definition monitor_finish :: "byte list option \<Rightarrow> int \<Rightarrow> byte list \<Rightarrow> monitor \<Rightarrow> monitor" where
  "monitor_finish jid rank end_time_str m =
     m\<lparr>calls := calls m @ [PQputCopyEnd, PQflush, PQgetResult] @
         (if rank = 0 then [PQexecParams (ascii ''UPDATE edumpi_runs SET end_time = $1 WHERE edumpi_run_id = $2'')
            [Some end_time_str, jid]] else []) @
         [PQflush, PQfinish]\<rparr>"

text \<open>After the loop: the forced drain, or the rest of the ring; lines 650 to 708.\<close>

definition monitor_final ::
  "(rat \<Rightarrow> uint64) \<Rightarrow> byte list option \<Rightarrow> int \<Rightarrow> byte list \<Rightarrow> clocks \<Rightarrow> monitor \<Rightarrow> (monitor_pc \<times> monitor) option" where
  "monitor_final dbl jid rank end_time_str k m =
     (if amt_mode m then
        (case edumpi_amt_ring_drain (clk_rt k) (clk_mt k) True AMT_DRAIN_BATCH (amt m) of
           (n, r, es) \<Rightarrow>
             if n > 0 then map_option (Pair Final) (emit_all dbl jid es (m\<lparr>amt := r\<rparr>))
             else Some (Done, monitor_finish jid rank end_time_str m))
      else if reader_pos (sp m) \<noteq> writer_pos (sp m) then
        (let m = m\<lparr>sp := (sp m)\<lparr>reader_pos := reader_next (sp m)\<rparr>\<rparr> in
         map_option (\<lambda>m. (Final, copy_restart k m))
           (amt_emit dbl jid (ringbuffer (sp m) ! nat (reader_pos (sp m))) m))
      else Some (Done, monitor_finish jid rank end_time_str m))"

fun monitor_step ::
  "(rat \<Rightarrow> uint64) \<Rightarrow> byte list option \<Rightarrow> int \<Rightarrow> byte list \<Rightarrow> clocks \<Rightarrow> monitor_pc \<Rightarrow> monitor \<Rightarrow>
   (monitor_pc \<times> monitor) option" where
  "monitor_step dbl jid rank ts k Loop m = (if run_thread m then monitor_loop dbl jid k m else Some (Final, m))"
| "monitor_step dbl jid rank ts k Idle m = Some (if run_thread m then Timer else Final, m)"
| "monitor_step dbl jid rank ts k Spin m =
     (if tv_nsec (end' (ringbuffer (sp m) ! nat (reader_pos (sp m)))) = 0 \<and> run_thread m then Some (Spin, m)
      else map_option (Pair Timer) (write_current dbl jid m))"
| "monitor_step dbl jid rank ts k Timer m = Some (Loop, copy_restart k m)"
| "monitor_step dbl jid rank ts k Final m = monitor_final dbl jid rank ts k m"
| "monitor_step dbl jid rank ts k Done m = Some (Done, m)"

section \<open>The COPY stream\<close>

definition segment_image :: "(rat \<Rightarrow> uint64) \<Rightarrow> byte list \<Rightarrow> qentry list \<Rightarrow> byte list" where
  "segment_image dbl jid es = PGCOPY_HEADER @ concat (map (row_image dbl jid) es)"

definition stream_of :: "(rat \<Rightarrow> uint64) \<Rightarrow> byte list \<Rightarrow> pq_call list \<Rightarrow> qentry list \<Rightarrow> bool" where
  "stream_of dbl jid cs es \<longleftrightarrow>
     (\<exists>segs. segs \<noteq> [] \<and> concat segs = es \<and> copy_segments cs = map (segment_image dbl jid) segs)"

lemma add_data_last: "add_data d (ss @ [s]) = ss @ [s @ d]"
proof (induction ss)
  case (Cons a ss)
  then show ?case by (cases ss) auto
qed simp

lemma copy_segments_append: "copy_segments (cs @ ds) = foldl copy_segment (copy_segments cs) ds"
  by (simp add: copy_segments_def)

lemma stream_row:
  assumes "stream_of dbl jid cs es"
  shows "stream_of dbl jid (cs @ [PQputCopyData (row_image dbl jid e)]) (es @ [e])"
proof -
  obtain segs where "segs \<noteq> []" "concat segs = es" "copy_segments cs = map (segment_image dbl jid) segs"
    using assms by (auto simp: stream_of_def)
  then have "copy_segments (cs @ [PQputCopyData (row_image dbl jid e)]) =
      map (segment_image dbl jid) (butlast segs @ [last segs @ [e]])"
    by (cases segs rule: rev_cases)
      (simp_all add: copy_segments_append copy_segment_def add_data_last segment_image_def)
  moreover have "concat (butlast segs @ [last segs @ [e]]) = es @ [e]"
    using \<open>segs \<noteq> []\<close> \<open>concat segs = es\<close> by (cases segs rule: rev_cases) auto
  ultimately show ?thesis unfolding stream_of_def by (intro exI [of _ "butlast segs @ [last segs @ [e]]"]) simp
qed

lemma stream_rows:
  "stream_of dbl jid cs es \<Longrightarrow>
    stream_of dbl jid (cs @ map (\<lambda>e. PQputCopyData (row_image dbl jid e)) es') (es @ es')"
proof (induction es' arbitrary: cs es)
  case (Cons e es')
  from Cons.IH [OF stream_row [OF Cons.prems]] show ?case by simp
qed simp

lemma stream_restart:
  assumes "stream_of dbl jid cs es"
  shows "stream_of dbl jid (cs @ [PQputCopyEnd, PQflush, PQgetResult, PQexec copyQuery, PQputCopyData PGCOPY_HEADER]) es"
proof -
  obtain segs where s: "segs \<noteq> []" "concat segs = es" "copy_segments cs = map (segment_image dbl jid) segs"
    using assms by (auto simp: stream_of_def)
  show ?thesis
    unfolding stream_of_def
    by (rule exI [of _ "segs @ [[]]"])
      (simp add: s copy_segments_append copy_segment_def add_data_last segment_image_def)
qed

lemma stream_finish:
  "stream_of dbl jid cs es \<Longrightarrow> stream_of dbl jid (cs @ [PQputCopyEnd, PQflush, PQgetResult] @
      (if c then [PQexecParams q ps] else []) @ [PQflush, PQfinish]) es"
  by (auto simp: stream_of_def copy_segments_append copy_segment_def)

lemma read_segment_image:
  assumes "\<forall>e \<in> set es. wf_entry e \<and> c_ranges e"
  shows "read_segment (segment_image dbl jid es) = Some (map (row_of_entry dbl jid) es)"
proof -
  have "length PGCOPY_HEADER = 19" by (simp add: PGCOPY_HEADER_def)
  then show ?thesis
    using read_rows_images [OF assms, of dbl jid "length (segment_image dbl jid es)"]
    by (simp add: read_segment_def segment_image_def)
qed

section \<open>Steps of the monitor\<close>

lemma amt_emit_ok:
  assumes "wf_entry e"
  shows "amt_emit dbl (Some jid) e m =
    Some (m\<lparr>counter := counter m + 1, calls := calls m @ [PQputCopyData (row_image dbl jid e)]\<rparr>)"
  using qentryToBinary_writes [OF assms, of 0 dbl jid "replicate 2048 0" "counter m"] length_row_image [OF assms, of dbl jid]
  by (simp add: amt_emit_def)

lemma emit_all_ok:
  "\<forall>e \<in> set es. wf_entry e \<Longrightarrow> emit_all dbl (Some jid) es m =
    Some (m\<lparr>counter := counter m + int (length es), calls := calls m @ map (\<lambda>e. PQputCopyData (row_image dbl jid e)) es\<rparr>)"
  by (induction es arbitrary: m) (simp_all add: amt_emit_ok algebra_simps)

definition good_entry :: "qentry \<Rightarrow> bool" where
  "good_entry e \<longleftrightarrow> wf_entry e \<and> c_ranges e"

definition monitor_inv :: "monitor \<Rightarrow> bool" where
  "monitor_inv m \<longleftrightarrow>
     (if amt_mode m then ring_inv (amt m) \<and> (\<forall>e \<in> set (slots (amt m)). good_entry e)
      else sp_inv (sp m) \<and> (\<forall>e \<in> set (sp_unread (sp m)). good_entry e))"

text \<open>The entry is being waited for: the reader is on it.\<close>

definition pc_inv :: "monitor_pc \<Rightarrow> monitor \<Rightarrow> bool" where
  "pc_inv pc m \<longleftrightarrow> (pc = Spin \<longrightarrow> \<not> amt_mode m \<and> 0 \<le> reader_pos (sp m) \<and>
     good_entry (ringbuffer (sp m) ! nat (reader_pos (sp m))))"

lemma good_abandon: "good_entry e \<Longrightarrow> good_entry (snd (edumpi_lifecycle_try_abandon e))"
  by (auto simp: good_entry_def wf_entry_def c_ranges_def edumpi_lifecycle_try_abandon_def Let_def split: if_splits)

lemma contents_subset: "ring_inv r \<Longrightarrow> set (contents r) \<subseteq> set (slots r)"
  by (auto simp: contents_def slot_at_def slot_index_bound ring_inv_def)

lemma emitted_subset: "set (emitted vs es) \<subseteq> set es"
  by (auto simp: emitted_def dest: set_zip_rightD)

lemma copy_restart_frame:
  "sp (copy_restart k m) = sp m" "amt (copy_restart k m) = amt m" "amt_mode (copy_restart k m) = amt_mode m"
  "run_thread (copy_restart k m) = run_thread m"
  by (simp_all add: copy_restart_def Let_def)

lemma stream_copy_restart: "stream_of dbl jid (calls m) es \<Longrightarrow> stream_of dbl jid (calls (copy_restart k m)) es"
  using stream_restart by (simp add: copy_restart_def Let_def)

lemma hold_check_frame:
  assumes "hold_check k m = (h, m')"
  shows "sp m' = sp m" "amt m' = amt m" "amt_mode m' = amt_mode m" "run_thread m' = run_thread m"
    "calls m' = calls m" "amt_mode m \<Longrightarrow> m' = m"
  using assms by (auto simp: hold_check_def Let_def split: if_splits)

lemma drain_check_entry:
  "drain_check t1 t2 force r e = (v, r', e') \<Longrightarrow> e' = e \<or> e' = snd (edumpi_lifecycle_try_abandon e)"
  by (auto simp: drain_check_def edumpi_lifecycle_try_abandon_def Let_def split: if_splits)

lemma free_slot_good:
  "\<forall>e \<in> set (slots r). good_entry e \<Longrightarrow> good_entry e \<Longrightarrow> \<forall>e \<in> set (slots (free_slot r i e)). good_entry e"
  using set_update_subset_insert [of "slots r" i e] by (auto simp: free_slot_def)

lemma drain_loop_good:
  assumes "ring_inv r" and "\<forall>e \<in> set (slots r). good_entry e"
    and "drain_loop rt mt force maxn n r out = (n', r', out')"
  shows "\<forall>e \<in> set (slots r'). good_entry e"
  using assms
proof (induction rt mt force maxn n r out arbitrary: n' r' out' rule: drain_loop.induct)
  case (1 rt mt force maxn n r out)
  let ?i = "slot_index r (tail r)"
  obtain v r1 e where chk: "drain_check (rt n) (mt n) force r (slots r ! ?i) = (v, r1, e)" by (metis prod_cases3)
  note F = drain_check_frame [OF chk]
  show ?case
  proof (cases "n < maxn \<and> tail r < head r \<and> states r ! ?i = EDUMPI_SLOT_ACTIVE \<and> v \<noteq> Break")
    case False
    then have "r' = r \<or> r' = r1"
      using "1.prems"(3) chk by (auto simp: drain_loop.simps [of rt mt force maxn n r out] Let_def split: if_splits)
    then show ?thesis using "1.prems"(2) F(1) by auto
  next
    case True
    let ?o = "if v = Emit then out @ [e] else out" and ?r2 = "free_slot r1 ?i e"
    have step: "drain_loop rt mt force maxn (n + 1) ?r2 ?o = (n', r', out')"
      using True "1.prems"(3) chk
      by (cases v) (auto simp: drain_loop.simps [of rt mt force maxn n r out] Let_def)
    have "slots r ! ?i \<in> set (slots r)"
      using ring_invD [OF "1.prems"(1)] by (simp add: slot_index_bound)
    then have "good_entry (slots r ! ?i)" using "1.prems"(2) by blast
    then have e: "good_entry e" using drain_check_entry [OF chk] good_abandon by metis
    have "\<forall>e \<in> set (slots r1). good_entry e" unfolding F(1) by (rule "1.prems"(2))
    then have g: "\<forall>e \<in> set (slots ?r2). good_entry e" using e by (rule free_slot_good)
    have "ring_inv r1" "tail r1 < head r1" "slot_index r1 (tail r1) = ?i"
      using "1.prems"(1) True ring_inv_cong [OF F(1-5)] F(4,5) by simp_all
    then have inv: "ring_inv ?r2" using free_slot_inv(1) by metis
    have tr: "n < maxn" "\<not> head r \<le> tail r" "\<not> states r ! ?i \<noteq> EDUMPI_SLOT_ACTIVE" using True by simp_all
    show ?thesis
    proof (cases v)
      case Abandon
      then have "drain_loop rt mt force maxn (n + 1) ?r2 out = (n', r', out')" using step by simp
      from "1.IH"(1) [OF tr(1,2) refl tr(3) chk [symmetric] Abandon refl inv g this] show ?thesis .
    next
      case Emit
      then have "drain_loop rt mt force maxn (n + 1) ?r2 (out @ [e]) = (n', r', out')" using step by simp
      from "1.IH"(2) [OF tr(1,2) refl tr(3) chk [symmetric] Emit refl inv g this] show ?thesis .
    qed (use True in simp)
  qed
qed

lemma drain_good:
  assumes "ring_inv r" and "\<forall>e \<in> set (slots r). good_entry e"
    and "edumpi_amt_ring_drain rt mt force maxn r = (n, r', es)"
  shows "ring_inv r'" "\<forall>e \<in> set (slots r'). good_entry e" "\<forall>e \<in> set es. good_entry e"
proof -
  have d: "drain_loop rt mt force maxn 0 r [] = (n, r', es)" using assms(3) by (simp add: edumpi_amt_ring_drain_def)
  show "\<forall>e \<in> set (slots r'). good_entry e" by (rule drain_loop_good [OF assms(1,2) d])
  have R: "drain_result rt force maxn r n r' es" using drain_loop_result [OF assms(1) d] by simp
  then show "ring_inv r'" by (simp add: drain_result_def)
  show "\<forall>e \<in> set es. good_entry e"
    using R contents_subset [OF assms(1)] emitted_subset assms(2) unfolding drain_result_def by blast
qed

text \<open>One step keeps the stream readable.\<close>

definition steps_to :: "(rat \<Rightarrow> uint64) \<Rightarrow> byte list \<Rightarrow> qentry list \<Rightarrow> (monitor_pc \<times> monitor) option \<Rightarrow> qentry list \<Rightarrow> bool" where
  "steps_to dbl jid es res new \<longleftrightarrow>
     (\<exists>pc' m'. res = Some (pc', m') \<and> monitor_inv m' \<and> pc_inv pc' m' \<and>
        stream_of dbl jid (calls m') (es @ new) \<and> (\<forall>e \<in> set new. good_entry e))"

lemma steps_toI:
  "res = Some (pc', m') \<Longrightarrow> monitor_inv m' \<Longrightarrow> pc_inv pc' m' \<Longrightarrow> stream_of dbl jid (calls m') (es @ new) \<Longrightarrow>
   \<forall>e \<in> set new. good_entry e \<Longrightarrow> steps_to dbl jid es res new"
  by (auto simp: steps_to_def)

lemma drain_steps:
  assumes inv: "monitor_inv m" "amt_mode m" and st: "stream_of dbl jid (calls m) es" and pc: "pc \<noteq> Spin"
    and d: "edumpi_amt_ring_drain rt mt force maxn (amt m) = (n, r, new)"
  shows "steps_to dbl jid es (map_option (Pair pc) (emit_all dbl (Some jid) new (m\<lparr>amt := r\<rparr>))) new"
proof -
  have I: "ring_inv (amt m)" "\<forall>e \<in> set (slots (amt m)). good_entry e" using inv by (auto simp: monitor_inv_def)
  note G = drain_good [OF I d]
  have "\<forall>e \<in> set new. wf_entry e" using G(3) by (auto simp: good_entry_def)
  then show ?thesis
    using stream_rows [OF st] G inv(2) pc
    by (intro steps_toI [OF _ _ _ _ G(3)]) (auto simp: emit_all_ok monitor_inv_def pc_inv_def)
qed

lemma write_steps:
  assumes "monitor_inv m" "\<not> amt_mode m" "good_entry (ringbuffer (sp m) ! nat (reader_pos (sp m)))"
    and "stream_of dbl jid (calls m) es"
  shows "steps_to dbl jid es (map_option (Pair Timer) (write_current dbl (Some jid) m)) [ringbuffer (sp m) ! nat (reader_pos (sp m))]"
proof -
  let ?e = "ringbuffer (sp m) ! nat (reader_pos (sp m))"
  have w: "wf_entry ?e" using assms(3) by (simp add: good_entry_def)
  show ?thesis
    using amt_emit_ok [OF w] stream_row [OF assms(4), of ?e] assms(1-3)
    by (intro steps_toI) (auto simp: write_current_def monitor_inv_def pc_inv_def)
qed

text \<open>Changing the entry the reader is on does not change the unread ones.\<close>

lemma sp_unread_update:
  assumes "sp_inv s" and "0 < sp_count s"
  shows "sp_unread (s\<lparr>reader_pos := reader_next s, ringbuffer := (ringbuffer s)[nat (reader_next s) := e]\<rparr>) =
    sp_unread (s\<lparr>reader_pos := reader_next s\<rparr>)"
proof -
  let ?t = "s\<lparr>reader_pos := reader_next s\<rparr>"
  note A = reader_advance [OF assms]
  have c: "sp_count ?t \<le> MAX_RINGSIZE - 1" using A(2) sp_count_le [OF assms(1)] by simp
  have "sp_slot ?t k \<noteq> nat (reader_next s)" if "1 \<le> k" "k \<le> sp_count ?t" for k
  proof
    assume *: "sp_slot ?t k = nat (reader_next s)"
    have b: "0 \<le> reader_next s" "reader_next s < MAX_RINGSIZE" using reader_next_bounds [OF assms(1)] by auto
    have "sp_slot ?t MAX_RINGSIZE = nat (reader_next s)" using b by (simp add: sp_slot_def mod_pos_pos_trivial)
    then have "k = MAX_RINGSIZE" using * sp_slot_inj [OF A(1), of k MAX_RINGSIZE] that c b by simp
    then show False using that c by simp
  qed
  then have "(ringbuffer s)[nat (reader_next s) := e] ! sp_slot ?t k = ringbuffer s ! sp_slot ?t k"
    if "1 \<le> k" "k \<le> sp_count ?t" for k
    using that by (metis nth_list_update_neq)
  moreover have "sp_slot (s\<lparr>reader_pos := reader_next s, ringbuffer := b\<rparr>) = sp_slot ?t"
      "sp_count (s\<lparr>reader_pos := reader_next s, ringbuffer := b\<rparr>) = sp_count ?t" for b
    by (auto simp: sp_slot_def sp_count_def)
  ultimately show ?thesis unfolding sp_unread_def by (simp cong: map_cong)
qed

lemma read_entry_inv:
  assumes "monitor_inv m" "\<not> amt_mode m" "\<not> reader_idle (sp m)" and "read_entry m = (w, m')"
  shows "monitor_inv m'" "\<not> amt_mode m'" "0 \<le> reader_pos (sp m')" "calls m' = calls m"
    "w \<Longrightarrow> good_entry (ringbuffer (sp m') ! nat (reader_pos (sp m')))"
proof -
  let ?s = "sp m" and ?p = "reader_next (sp m)"
  have I: "sp_inv ?s" "\<forall>e \<in> set (sp_unread ?s). good_entry e" using assms(1,2) by (auto simp: monitor_inv_def)
  have c: "0 < sp_count ?s" by (rule reader_idle_count(1) [OF I(1) assms(3)])
  note A = reader_advance [OF I(1) c] and U = sp_unread_update [OF I(1) c] and b = reader_next_bounds [OF I(1)]
  have g: "\<forall>e \<in> set (sp_unread (?s\<lparr>reader_pos := ?p\<rparr>)). good_entry e" "good_entry (ringbuffer ?s ! nat ?p)"
    using I(2) A(3) by auto
  show "monitor_inv m'" "\<not> amt_mode m'" "0 \<le> reader_pos (sp m')" "calls m' = calls m"
    "w \<Longrightarrow> good_entry (ringbuffer (sp m') ! nat (reader_pos (sp m')))"
    using assms(2,4) A(1) g U b
    by (auto simp: read_entry_def Let_def monitor_inv_def sp_inv_def split: if_splits)
qed

lemma monitor_loop_steps:
  assumes inv: "monitor_inv m" and st: "stream_of dbl jid (calls m) es"
  shows "\<exists>new. steps_to dbl jid es (monitor_loop dbl (Some jid) k m) new"
proof -
  obtain h m1 where h: "hold_check k m = (h, m1)" by fastforce
  note H = hold_check_frame [OF h]
  have inv1: "monitor_inv m1" using inv H by (simp add: monitor_inv_def)
  have st1: "stream_of dbl jid (calls m1) es" using st H by simp
  have stay: "steps_to dbl jid es (Some (pc, m1)) []" if "pc \<noteq> Spin" for pc
    using inv1 st1 that by (intro steps_toI) (auto simp: pc_inv_def)
  consider "amt_mode m1" | "\<not> amt_mode m1" "h \<or> reader_idle (sp m1)" | "\<not> amt_mode m1" "\<not> h" "\<not> reader_idle (sp m1)"
    by blast
  then show ?thesis
  proof cases
    case 1
    obtain n r new where d: "edumpi_amt_ring_drain (clk_rt k) (clk_mt k) False AMT_DRAIN_BATCH (amt m1) = (n, r, new)"
      by (metis prod_cases3)
    from drain_steps [OF inv1 1 st1 _ d, of Timer] show ?thesis using 1 h d by (auto simp: monitor_loop_def)
  next
    case 2
    then show ?thesis using stay [of Timer] stay [of Idle] h by (auto simp: monitor_loop_def)
  next
    case 3
    obtain w m2 where r: "read_entry m1 = (w, m2)" by fastforce
    note R = read_entry_inv [OF inv1 3(1,3) r]
    have st2: "stream_of dbl jid (calls m2) es" using st1 R(4) by simp
    have "steps_to dbl jid es (Some (Timer, m2)) []" "w \<Longrightarrow> steps_to dbl jid es (Some (Spin, m2)) []"
      using R st2 by (auto intro!: steps_toI simp: pc_inv_def)
    then show ?thesis
      using write_steps [OF R(1,2) R(5) st2] 3 h r by (cases w) (auto simp: monitor_loop_def)
  qed
qed

lemma sp_count_zero: "sp_inv s \<Longrightarrow> sp_count s = 0 \<longleftrightarrow> reader_pos s = writer_pos s"
  using sp_count_mod [of s] by (auto simp: sp_inv_def sp_count_def split: if_splits)

lemma finish_steps:
  assumes "monitor_inv m" and "stream_of dbl jid (calls m) es"
  shows "steps_to dbl jid es (Some (Done, monitor_finish (Some jid) rank ts m)) []"
proof (rule steps_toI [OF refl])
  show "stream_of dbl jid (calls (monitor_finish (Some jid) rank ts m)) (es @ [])"
    using stream_finish [OF assms(2)] by (simp add: monitor_finish_def del: ascii_Cons)
qed (use assms(1) in \<open>simp_all add: monitor_finish_def monitor_inv_def pc_inv_def\<close>)

lemma final_sp_steps:
  assumes inv: "monitor_inv m" "\<not> amt_mode m" and ne: "reader_pos (sp m) \<noteq> writer_pos (sp m)"
    and st: "stream_of dbl jid (calls m) es"
  shows "\<exists>m'. monitor_final dbl (Some jid) rank ts k m = Some (Final, m') \<and> monitor_inv m' \<and> \<not> amt_mode m' \<and>
    sp m' = (sp m)\<lparr>reader_pos := reader_next (sp m)\<rparr> \<and>
    stream_of dbl jid (calls m') (es @ [ringbuffer (sp m) ! nat (reader_next (sp m))]) \<and>
    good_entry (ringbuffer (sp m) ! nat (reader_next (sp m)))"
proof -
  let ?e = "ringbuffer (sp m) ! nat (reader_next (sp m))" and ?s = "(sp m)\<lparr>reader_pos := reader_next (sp m)\<rparr>"
  have I: "sp_inv (sp m)" "\<forall>e \<in> set (sp_unread (sp m)). good_entry e" using inv by (auto simp: monitor_inv_def)
  have c: "0 < sp_count (sp m)" using sp_count_zero [OF I(1)] sp_count_nonneg [OF I(1)] ne by auto
  note A = reader_advance [OF I(1) c]
  have g: "good_entry ?e" using I(2) A(3) by simp
  then have w: "wf_entry ?e" by (simp add: good_entry_def)
  let ?m = "m\<lparr>sp := ?s\<rparr>"
  let ?m' = "copy_restart k (?m\<lparr>counter := counter ?m + 1, calls := calls ?m @ [PQputCopyData (row_image dbl jid ?e)]\<rparr>)"
  have f: "monitor_final dbl (Some jid) rank ts k m = Some (Final, ?m')"
    using inv(2) ne amt_emit_ok [OF w, of dbl jid ?m] by (simp add: monitor_final_def Let_def)
  have st': "stream_of dbl jid (calls ?m') (es @ [?e])"
    using stream_row [OF st, of ?e] by (intro stream_copy_restart) simp
  have "monitor_inv ?m'" using A(1,3) I(2) inv(2) by (simp add: monitor_inv_def copy_restart_frame)
  then show ?thesis
    using f st' inv(2) g by (intro exI [of _ ?m']) (simp add: copy_restart_frame)
qed

lemma monitor_final_steps:
  assumes inv: "monitor_inv m" and st: "stream_of dbl jid (calls m) es"
  shows "\<exists>new. steps_to dbl jid es (monitor_final dbl (Some jid) rank ts k m) new"
proof (cases "amt_mode m")
  case True
  obtain n r new where d: "edumpi_amt_ring_drain (clk_rt k) (clk_mt k) True AMT_DRAIN_BATCH (amt m) = (n, r, new)"
    by (metis prod_cases3)
  from drain_steps [OF inv True st _ d, of Final] show ?thesis
    using True d finish_steps [OF inv st] by (auto simp: monitor_final_def Let_def)
next
  case False
  show ?thesis
  proof (cases "reader_pos (sp m) = writer_pos (sp m)")
    case True
    then show ?thesis using False finish_steps [OF inv st] by (auto simp: monitor_final_def Let_def)
  next
    case ne: False
    let ?e = "ringbuffer (sp m) ! nat (reader_next (sp m))"
    have "steps_to dbl jid es (monitor_final dbl (Some jid) rank ts k m) [?e]"
      using final_sp_steps [OF inv False ne st, of rank ts k] by (auto simp: steps_to_def pc_inv_def)
    then show ?thesis by blast
  qed
qed

lemma monitor_step_steps:
  assumes inv: "monitor_inv m" "pc_inv pc m" and st: "stream_of dbl jid (calls m) es"
  shows "\<exists>new. steps_to dbl jid es (monitor_step dbl (Some jid) rank ts k pc m) new"
proof (cases pc)
  case Loop
  have "steps_to dbl jid es (Some (Final, m)) []"
    using inv st by (intro steps_toI [OF refl]) (auto simp: pc_inv_def)
  then show ?thesis using monitor_loop_steps [OF inv(1) st, of k] Loop by auto
next
  case Idle
  have "steps_to dbl jid es (Some (p, m)) []" if "p \<noteq> Spin" for p
    using inv st that by (intro steps_toI [OF refl]) (auto simp: pc_inv_def)
  then show ?thesis using Idle by fastforce
next
  case Spin
  have "steps_to dbl jid es (Some (Spin, m)) []"
    using inv st Spin by (intro steps_toI [OF refl]) auto
  then show ?thesis
    using write_steps [OF inv(1) _ _ st] inv(2) Spin by (auto simp: pc_inv_def)
next
  case Timer
  have "steps_to dbl jid es (Some (Loop, copy_restart k m)) []"
    using inv stream_copy_restart [OF st, of k]
    by (intro steps_toI [OF refl]) (auto simp: pc_inv_def monitor_inv_def copy_restart_frame)
  then show ?thesis using Timer by auto
next
  case Final
  then show ?thesis using monitor_final_steps [OF inv(1) st] by simp
next
  case Done
  then have "steps_to dbl jid es (Some (Done, m)) []"
    using inv st by (intro steps_toI [OF refl]) auto
  then show ?thesis using Done by auto
qed

section \<open>The thread beside the application\<close>

inductive mon_step :: "(rat \<Rightarrow> uint64) \<Rightarrow> byte list \<Rightarrow> int \<Rightarrow> byte list \<Rightarrow> monitor_pc \<times> monitor \<Rightarrow> monitor_pc \<times> monitor \<Rightarrow> bool"
  for dbl jid rank ts where
  mon: "monitor_step dbl (Some jid) rank ts k pc m = Some (pc', m') \<Longrightarrow> mon_step dbl jid rank ts (pc, m) (pc', m')"
| claim_sp: "\<not> amt_mode m \<Longrightarrow> getWritingRingPos (sp m) = Some (p, s) \<Longrightarrow> mon_step dbl jid rank ts (pc, m) (pc, m\<lparr>sp := s\<rparr>)"
| claim_amt: "amt_mode m \<Longrightarrow> mon_step dbl jid rank ts (pc, m) (pc, m\<lparr>amt := snd (edumpi_amt_ring_claim (amt m))\<rparr>)"
| store_sp: "good_entry e \<Longrightarrow>
    mon_step dbl jid rank ts (pc, m) (pc, m\<lparr>sp := (sp m)\<lparr>ringbuffer := (ringbuffer (sp m))[i := e]\<rparr>\<rparr>)"
| store_amt: "good_entry e \<Longrightarrow> mon_step dbl jid rank ts (pc, m) (pc, m\<lparr>amt := (amt m)\<lparr>slots := (slots (amt m))[i := e]\<rparr>\<rparr>)"
| finalize: "mon_step dbl jid rank ts (pc, m) (pc, m\<lparr>run_thread := False\<rparr>)"

definition mon_start :: "monitor_pc \<times> monitor \<Rightarrow> bool" where
  "mon_start c \<longleftrightarrow> fst c = Loop \<and> monitor_inv (snd c) \<and> copy_segments (calls (snd c)) = [PGCOPY_HEADER]"

definition mon_reachable :: "(rat \<Rightarrow> uint64) \<Rightarrow> byte list \<Rightarrow> int \<Rightarrow> byte list \<Rightarrow> monitor_pc \<times> monitor \<Rightarrow> bool" where
  "mon_reachable dbl jid rank ts c \<longleftrightarrow> (\<exists>c0. mon_start c0 \<and> (mon_step dbl jid rank ts)\<^sup>*\<^sup>* c0 c)"

definition mon_inv :: "(rat \<Rightarrow> uint64) \<Rightarrow> byte list \<Rightarrow> monitor_pc \<times> monitor \<Rightarrow> bool" where
  "mon_inv dbl jid c \<longleftrightarrow> monitor_inv (snd c) \<and> pc_inv (fst c) (snd c) \<and>
     (\<exists>es. stream_of dbl jid (calls (snd c)) es \<and> (\<forall>e \<in> set es. good_entry e))"

lemma good_zero_entry: "good_entry (zero_entry lc)"
  by (simp add: good_entry_def c_ranges_def zero_entry_def zero_timespec_def) (simp add: wf_zero_entry [unfolded zero_entry_def zero_timespec_def])

lemma good_update: "\<forall>e \<in> set xs. good_entry e \<Longrightarrow> good_entry e \<Longrightarrow> \<forall>e \<in> set (xs[i := e]). good_entry e"
  using set_update_subset_insert by fastforce

lemma getWritingRingPos_full:
  assumes "sp_inv s" and "\<not> sp_room s" and "getWritingRingPos s = Some (p, s')"
  shows "set (sp_unread s') \<subseteq> {ringbuffer s' ! nat p}" "s' = write_at p s" "0 \<le> p" "p < MAX_RINGSIZE"
proof -
  have w: "writer_pos s = MAX_RINGSIZE - 1" "reader_pos s \<in> {- 1, 0}"
    using assms sp_count_mod [OF assms(1)]
    by (auto simp: sp_inv_def sp_room_def getWritingRingPos_def writer_waits_def MAX_RINGSIZE_def split: if_splits)
  then show s': "s' = write_at p s" "0 \<le> p" "p < MAX_RINGSIZE"
    using assms(3) by (auto simp: getWritingRingPos_def MAX_RINGSIZE_def split: if_splits)
  have "p = 0" using w assms(3) by (auto simp: getWritingRingPos_def MAX_RINGSIZE_def split: if_splits)
  then show "set (sp_unread s') \<subseteq> {ringbuffer s' ! nat p}"
    using w by (auto simp: sp_unread_def sp_count_def sp_slot_def s'(1) write_at_frame MAX_RINGSIZE_def)
qed

lemma getWritingRingPos_keeps:
  assumes "sp_inv s" and "\<forall>e \<in> set (sp_unread s). good_entry e" and g: "getWritingRingPos s = Some (p, s')"
  shows "sp_inv s'" "\<forall>e \<in> set (sp_unread s'). good_entry e" "reader_pos s' = reader_pos s"
    "good_entry (ringbuffer s ! i) \<Longrightarrow> good_entry (ringbuffer s' ! i)"
proof -
  have s': "s' = write_at p s" "0 \<le> p" "p < MAX_RINGSIZE"
    using assms(1,3) by (auto simp: getWritingRingPos_def sp_inv_def MAX_RINGSIZE_def split: if_splits)
  show "sp_inv s'" using assms(1) s'(2,3) by (auto simp: sp_inv_def s'(1) write_at_frame)
  show "reader_pos s' = reader_pos s" by (simp add: s'(1) write_at_frame)
  have rb: "ringbuffer s' = (ringbuffer s)[nat p := zero_entry (EDUMPI_LC (edumpi_ticket_counter s + 1) EDUMPI_LC_NONE)]"
    by (simp add: s'(1) write_at_def Let_def edumpi_entry_reset_def)
  have b: "nat p < length (ringbuffer s)" using assms(1) s'(2,3) by (simp add: sp_inv_def)
  show "good_entry (ringbuffer s ! i) \<Longrightarrow> good_entry (ringbuffer s' ! i)"
    using b good_zero_entry by (cases "i = nat p") (simp_all add: rb)
  show "\<forall>e \<in> set (sp_unread s'). good_entry e"
  proof (cases "sp_room s")
    case True
    then show ?thesis using getWritingRingPos_appends(3) [OF assms(1) True g] assms(2) good_zero_entry by simp
  next
    case False
    have "ringbuffer s' ! nat p = zero_entry (EDUMPI_LC (edumpi_ticket_counter s + 1) EDUMPI_LC_NONE)" using b by (simp add: rb)
    then show ?thesis using getWritingRingPos_full(1) [OF assms(1) False g] good_zero_entry by auto
  qed
qed

lemma sp_store_keeps:
  assumes "\<forall>e \<in> set (sp_unread s). good_entry e" and "good_entry e"
  shows "\<forall>e \<in> set (sp_unread (s\<lparr>ringbuffer := (ringbuffer s)[i := e]\<rparr>)). good_entry e"
    "good_entry (ringbuffer s ! j) \<Longrightarrow> good_entry ((ringbuffer s)[i := e] ! j)"
proof -
  show *: "good_entry (ringbuffer s ! j) \<Longrightarrow> good_entry ((ringbuffer s)[i := e] ! j)" for j
    using assms(2) by (cases "i = j"; cases "i < length (ringbuffer s)") (auto simp: list_update_beyond)
  show "\<forall>e \<in> set (sp_unread (s\<lparr>ringbuffer := (ringbuffer s)[i := e]\<rparr>)). good_entry e"
    using assms(1) * by (auto simp: sp_unread_def sp_count_def sp_slot_def)
qed

lemma claim_keeps:
  assumes "ring_inv r" and "\<forall>e \<in> set (slots r). good_entry e"
  shows "ring_inv (snd (edumpi_amt_ring_claim r))" "\<forall>e \<in> set (slots (snd (edumpi_amt_ring_claim r))). good_entry e"
proof -
  obtain c r' where cl: "edumpi_amt_ring_claim r = (c, r')" by fastforce
  show "ring_inv (snd (edumpi_amt_ring_claim r))"
    using claim_room(2) [OF assms(1) _ cl] assms(1) cl claim_full [of r] by (cases "head r - tail r < rsize r") auto
  have "slots r' = slots r \<or> (\<exists>i lc. slots r' = (slots r)[i := zero_entry lc])"
  proof (cases "head r - tail r < rsize r")
    case True
    then show ?thesis using cl by (intro disjI2 exI) (auto simp: edumpi_amt_ring_claim_def Let_def edumpi_entry_reset_def)
  qed (use cl in \<open>auto simp: claim_full\<close>)
  then show "\<forall>e \<in> set (slots (snd (edumpi_amt_ring_claim r))). good_entry e"
    using assms(2) good_update [OF assms(2) good_zero_entry] cl by auto
qed

lemma ring_inv_slots: "length xs = length (slots r) \<Longrightarrow> ring_inv (r\<lparr>slots := xs\<rparr>) = ring_inv r"
proof -
  have si: "slot_index (r\<lparr>slots := xs\<rparr>) k = slot_index r k" for k by (rule slot_index_cong) simp
  show "length xs = length (slots r) \<Longrightarrow> ring_inv (r\<lparr>slots := xs\<rparr>) = ring_inv r"
    unfolding ring_inv_def si by simp
qed

lemma mon_step_inv:
  assumes "mon_step dbl jid rank ts c c'" and "mon_inv dbl jid c"
  shows "mon_inv dbl jid c'"
  using assms
proof (induction rule: mon_step.induct)
  case (mon k pc m pc' m')
  then obtain es where I: "monitor_inv m" "pc_inv pc m" "stream_of dbl jid (calls m) es" "\<forall>e \<in> set es. good_entry e"
    by (auto simp: mon_inv_def)
  then obtain new where "steps_to dbl jid es (Some (pc', m')) new"
    using monitor_step_steps [OF I(1-3), of rank ts k] mon.hyps by auto
  then show ?case using I(4) by (auto simp: mon_inv_def steps_to_def intro!: exI [of _ "es @ new"])
next
  case (claim_sp m p s pc)
  have "sp_inv (sp m)" "\<forall>e \<in> set (sp_unread (sp m)). good_entry e"
    using claim_sp by (auto simp: mon_inv_def monitor_inv_def)
  note K = getWritingRingPos_keeps [OF this claim_sp.hyps(2)]
  show ?case using claim_sp K by (auto simp: mon_inv_def monitor_inv_def pc_inv_def)
next
  case (claim_amt m pc)
  have "ring_inv (amt m)" "\<forall>e \<in> set (slots (amt m)). good_entry e"
    using claim_amt by (auto simp: mon_inv_def monitor_inv_def)
  note K = claim_keeps [OF this]
  show ?case using claim_amt K by (auto simp: mon_inv_def monitor_inv_def pc_inv_def)
next
  case (store_sp e pc m i)
  then show ?case using sp_store_keeps(1) [where s = "sp m" and i = i, OF _ store_sp.hyps]
      sp_store_keeps(2) [where s = "sp m" and i = i and j = "nat (reader_pos (sp m))", OF _ store_sp.hyps]
    by (auto simp: mon_inv_def monitor_inv_def pc_inv_def sp_inv_def)
next
  case (store_amt e pc m i)
  then show ?case using good_update [OF _ store_amt.hyps, of "slots (amt m)" i]
    by (auto simp: mon_inv_def monitor_inv_def pc_inv_def ring_inv_slots)
next
  case (finalize pc m)
  then show ?case by (auto simp: mon_inv_def monitor_inv_def pc_inv_def)
qed

lemma mon_reachable_inv:
  assumes "mon_reachable dbl jid rank ts c"
  shows "mon_inv dbl jid c"
proof -
  obtain c0 where s: "mon_start c0" and st: "(mon_step dbl jid rank ts)\<^sup>*\<^sup>* c0 c" using assms by (auto simp: mon_reachable_def)
  have "stream_of dbl jid (calls (snd c0)) []"
    using s by (auto simp: mon_start_def stream_of_def segment_image_def intro: exI [of _ "[[]]"])
  then have "mon_inv dbl jid c0" using s by (auto simp: mon_start_def mon_inv_def pc_inv_def intro: exI [of _ "[]"])
  with st show ?thesis by (induction rule: rtranclp_induct) (simp_all add: mon_step_inv)
qed

section \<open>Shutdown\<close>

text \<open>The steps after the main loop; \<open>ks\<close> gives the clock readings.\<close>

fun run_final ::
  "(rat \<Rightarrow> uint64) \<Rightarrow> byte list \<Rightarrow> int \<Rightarrow> byte list \<Rightarrow> (nat \<Rightarrow> clocks) \<Rightarrow> nat \<Rightarrow> monitor_pc \<times> monitor \<Rightarrow>
   (monitor_pc \<times> monitor) option" where
  "run_final dbl jid rank ts ks 0 c = Some c"
| "run_final dbl jid rank ts ks (Suc n) c =
     Option.bind (monitor_step dbl (Some jid) rank ts (ks n) (fst c) (snd c)) (run_final dbl jid rank ts ks n)"

lemma run_final_Done: "run_final dbl jid rank ts ks n (Done, m) = Some (Done, m)"
  by (induction n) simp_all

lemma run_final_sp:
  assumes "monitor_inv m" "\<not> amt_mode m" "stream_of dbl jid (calls m) es" and "sp_count (sp m) < int n"
  shows "\<exists>m'. run_final dbl jid rank ts ks n (Final, m) = Some (Done, m') \<and>
    stream_of dbl jid (calls m') (es @ sp_unread (sp m))"
  using assms
proof (induction n arbitrary: m es)
  case 0
  then have "sp_inv (sp m)" by (simp add: monitor_inv_def)
  from sp_count_nonneg [OF this] 0 show ?case by simp
next
  case (Suc n)
  have I: "sp_inv (sp m)" using Suc.prems(1,2) by (simp add: monitor_inv_def)
  show ?case
  proof (cases "reader_pos (sp m) = writer_pos (sp m)")
    case True
    then have "sp_unread (sp m) = []" using sp_count_zero [OF I] by (simp add: sp_unread_def)
    moreover have "stream_of dbl jid (calls (monitor_finish (Some jid) rank ts m)) es"
      using finish_steps [OF Suc.prems(1,3), of rank ts] by (simp add: steps_to_def)
    ultimately show ?thesis using True Suc.prems(2) by (simp add: monitor_final_def run_final_Done)
  next
    case False
    from final_sp_steps [OF Suc.prems(1,2) False Suc.prems(3), of rank ts "ks n"]
    obtain m' where m': "monitor_final dbl (Some jid) rank ts (ks n) m = Some (Final, m')" "monitor_inv m'" "\<not> amt_mode m'"
        "sp m' = (sp m)\<lparr>reader_pos := reader_next (sp m)\<rparr>"
        "stream_of dbl jid (calls m') (es @ [ringbuffer (sp m) ! nat (reader_next (sp m))])"
      by blast
    have c: "0 < sp_count (sp m)" using sp_count_zero [OF I] sp_count_nonneg [OF I] False by auto
    note A = reader_advance [OF I c]
    have "sp_count (sp m') < int n" using A(2) Suc.prems(4) m'(4) by simp
    from Suc.IH [OF m'(2,3,5) this] show ?thesis using m'(1) A(3) m'(4) by simp
  qed
qed

lemma run_final_amt:
  assumes "monitor_inv m" "amt_mode m" "stream_of dbl jid (calls m) es" and "head (amt m) - tail (amt m) < int n"
  shows "\<exists>m'. run_final dbl jid rank ts ks n (Final, m) = Some (Done, m') \<and>
    stream_of dbl jid (calls m') (es @ contents (amt m))"
  using assms
proof (induction n arbitrary: m es)
  case 0
  then have "ring_inv (amt m)" by (simp add: monitor_inv_def)
  from ring_invD(5) [OF this] 0 show ?case by simp
next
  case (Suc n)
  have I: "ring_inv (amt m)" using Suc.prems(1,2) by (simp add: monitor_inv_def)
  obtain k r new where d: "edumpi_amt_ring_drain (clk_rt (ks n)) (clk_mt (ks n)) True AMT_DRAIN_BATCH (amt m) = (k, r, new)"
    by (metis prod_cases3)
  have "0 \<le> AMT_DRAIN_BATCH" by (simp add: AMT_DRAIN_BATCH_def)
  note D = drain_force [OF I this d]
  show ?case
  proof (cases "0 < k")
    case False
    then have "head (amt m) - tail (amt m) = 0" using D(1) ring_invD(5) [OF I] by (auto simp: AMT_DRAIN_BATCH_def)
    then have "contents (amt m) = []" by (simp add: contents_def)
    moreover have "stream_of dbl jid (calls (monitor_finish (Some jid) rank ts m)) es"
      using finish_steps [OF Suc.prems(1,3), of rank ts] by (simp add: steps_to_def)
    ultimately show ?thesis using False d Suc.prems(2) by (simp add: monitor_final_def run_final_Done)
  next
    case True
    from drain_steps [OF Suc.prems(1-3) _ d, of Final]
    obtain m' where m': "emit_all dbl (Some jid) new (m\<lparr>amt := r\<rparr>) = Some m'" "monitor_inv m'"
        "stream_of dbl jid (calls m') (es @ new)"
      by (auto simp: steps_to_def)
    have "\<forall>e \<in> set new. good_entry e"
      using drain_good(3) [OF I _ d] Suc.prems(1,2) by (simp add: monitor_inv_def)
    then have a: "amt m' = r" "amt_mode m'" using m'(1) emit_all_ok [of new dbl jid "m\<lparr>amt := r\<rparr>"] Suc.prems(2)
      by (auto simp: good_entry_def)
    have "head (amt m') - tail (amt m') < int n" using D(7) True Suc.prems(4) a(1) by simp
    from Suc.IH [OF m'(2) a(2) m'(3) this] show ?thesis
      using m'(1) True d D(2,4) a(1) Suc.prems(2) by (auto simp: monitor_final_def)
  qed
qed

section \<open>Properties\<close>


definition demo_clocks :: clocks where
  "demo_clocks = \<lparr>clk_mono = zero_timespec, clk_real = zero_timespec, clk_rt = \<lambda>_. 0, clk_mt = \<lambda>_. 0\<rparr>"

definition demo_monitor :: monitor where
  "demo_monitor = \<lparr>sp = demo_sp, amt = snd (edumpi_amt_ring_init True True 2 1000 1000), amt_mode = False,
     run_thread = True, request_wait_s = 2, counter = 0, held = False, held_since = 0, copy_start = 0,
     calls = [PQexec copyQuery, PQputCopyData PGCOPY_HEADER]\<rparr>"

lemma demo_monitor_inv: "monitor_inv demo_monitor"
  using demo_sp_inv(1) by (auto simp: demo_monitor_def monitor_inv_def sp_unread_def) (simp add: sp_count_def demo_sp_def)

lemma demo_monitor_start: "mon_start (Loop, demo_monitor)"
  using demo_monitor_inv
  by (simp add: mon_start_def copy_segments_def) (simp add: demo_monitor_def copy_segment_def)

lemma demo_monitor_reachable: "mon_reachable dbl jid rank ts (Loop, demo_monitor)"
  unfolding mon_reachable_def using demo_monitor_start by blast


text \<open>C6: After the end of the run the monitor terminates in both modes, within one step more than there are
  entries left, and by then has written exactly the entries that were left in the ring, in order, behind what it
  had written before.\<close>

theorem shutdown_writes_everything:
  assumes "monitor_inv m" and "stream_of dbl jid (calls m) es"
    and "(if amt_mode m then head (amt m) - tail (amt m) else sp_count (sp m)) < int n"
  shows "\<exists>m'. run_final dbl jid rank ts ks n (Final, m) = Some (Done, m') \<and>
    stream_of dbl jid (calls m') (es @ (if amt_mode m then contents (amt m) else sp_unread (sp m)))"
  using run_final_sp [OF assms(1) _ assms(2)] run_final_amt [OF assms(1) _ assms(2)] assms(3) by auto

theorem shutdown_writes_everything_witness:
  "\<exists>m'. run_final (\<lambda>_. 0) (ascii ''7'') 1 [] (\<lambda>_. demo_clocks) 1 (Final, demo_monitor) = Some (Done, m') \<and>
     stream_of (\<lambda>_. 0) (ascii ''7'') (calls m') (sp_unread (sp demo_monitor))"
proof -
  have s: "stream_of (\<lambda>_. 0) (ascii ''7'') (calls demo_monitor) []"
    using demo_monitor_start by (auto simp: mon_start_def stream_of_def segment_image_def intro: exI [of _ "[[]]"])
  have a: "\<not> amt_mode demo_monitor" by (simp add: demo_monitor_def)
  have "(if amt_mode demo_monitor then head (amt demo_monitor) - tail (amt demo_monitor) else sp_count (sp demo_monitor)) < int 1"
    by (simp add: demo_monitor_def sp_count_def demo_sp_def)
  from shutdown_writes_everything [OF demo_monitor_inv s this, of 1 "[]" "\<lambda>_. demo_clocks"] show ?thesis
    using a by (simp del: ascii_Cons)
qed

section \<open>Order in the default mode\<close>

definition pending :: "monitor_pc \<Rightarrow> monitor \<Rightarrow> qentry list" where
  "pending pc m = (if pc = Spin then [ringbuffer (sp m) ! nat (reader_pos (sp m))] else []) @ sp_unread (sp m)"

definition entry_ended :: "qentry \<Rightarrow> bool" where
  "entry_ended e \<longleftrightarrow> tv_sec (end' e) \<noteq> 0 \<or> tv_nsec (end' e) \<noteq> 0"

lemma read_entry_result:
  assumes inv: "monitor_inv m" "\<not> amt_mode m" "\<not> reader_idle (sp m)" and "read_entry m = (w, m')"
  shows "sp_unread (sp m) = ringbuffer (sp m) ! nat (reader_next (sp m)) # sp_unread (sp m')"
    "reader_pos (sp m') = reader_next (sp m)"
    "w \<Longrightarrow> ringbuffer (sp m') = ringbuffer (sp m)"
    "\<not> w \<Longrightarrow> (let e = ringbuffer (sp m) ! nat (reader_next (sp m)) in
       \<not> edumpi_request_ready e \<and> entry_ended e \<and> lifecycle e AND 3 = EDUMPI_LC_PENDING)"
proof -
  have I: "sp_inv (sp m)" using inv(1,2) by (simp add: monitor_inv_def)
  have c: "0 < sp_count (sp m)" by (rule reader_idle_count(1) [OF I inv(3)])
  note A = reader_advance [OF I c] and U = sp_unread_update [OF I c]
  show "sp_unread (sp m) = ringbuffer (sp m) ! nat (reader_next (sp m)) # sp_unread (sp m')"
    using assms(4) A(3) U by (auto simp: read_entry_def Let_def split: if_splits)
  show "reader_pos (sp m') = reader_next (sp m)" "w \<Longrightarrow> ringbuffer (sp m') = ringbuffer (sp m)"
    using assms(4) by (auto simp: read_entry_def Let_def split: if_splits)
  show "\<not> w \<Longrightarrow> (let e = ringbuffer (sp m) ! nat (reader_next (sp m)) in
       \<not> edumpi_request_ready e \<and> entry_ended e \<and> lifecycle e AND 3 = EDUMPI_LC_PENDING)"
    using assms(4)
    by (auto simp: read_entry_def Let_def entry_ended_def edumpi_lifecycle_try_abandon_def split: if_splits)
qed

lemma hold_check_False:
  assumes "hold_check k m = (False, m')" "\<not> amt_mode m" "run_thread m" "\<not> reader_idle (sp m)"
    and "\<not> edumpi_request_ready (ringbuffer (sp m) ! nat (reader_next (sp m)))"
    and "entry_ended (ringbuffer (sp m) ! nat (reader_next (sp m)))"
  shows "request_wait_s m \<le> edumpi_entry_age_seconds k (ringbuffer (sp m) ! nat (reader_next (sp m))) \<and>
    lifecycle (ringbuffer (sp m) ! nat (reader_next (sp m))) AND 3 \<noteq> EDUMPI_LC_FINISHING"
  using assms by (auto simp: hold_check_def reader_idle_def entry_ended_def Let_def split: if_splits)

lemma write_current_result:
  assumes "good_entry (ringbuffer (sp m) ! nat (reader_pos (sp m)))" "stream_of dbl jid (calls m) es"
    and "write_current dbl (Some jid) m = Some m'"
  shows "stream_of dbl jid (calls m') (es @ [ringbuffer (sp m) ! nat (reader_pos (sp m))])" "sp m' = sp m"
proof -
  let ?e = "ringbuffer (sp m) ! nat (reader_pos (sp m))"
  have w: "wf_entry ?e" using assms(1) by (simp add: good_entry_def)
  show "stream_of dbl jid (calls m') (es @ [?e])" "sp m' = sp m"
    using assms(3) amt_emit_ok [OF w] stream_row [OF assms(2), of ?e] by (auto simp: write_current_def)
qed

text \<open>What one step does with the entries that are still to be written.\<close>

definition order_step :: "clocks \<Rightarrow> monitor_pc \<Rightarrow> monitor \<Rightarrow> monitor_pc \<Rightarrow> monitor \<Rightarrow> qentry list \<Rightarrow> bool" where
  "order_step k pc m pc' m' new \<longleftrightarrow>
     pending pc m = new @ pending pc' m' \<or>
     new = [] \<and> (\<exists>e. pending pc m = e # pending pc' m' \<and> \<not> edumpi_request_ready e \<and> entry_ended e \<and>
       lifecycle e AND 3 = EDUMPI_LC_PENDING \<and> request_wait_s m \<le> edumpi_entry_age_seconds k e)"

lemma loop_order:
  assumes inv: "monitor_inv m" "\<not> amt_mode m" "run_thread m" and st: "stream_of dbl jid (calls m) es"
    and s: "monitor_loop dbl (Some jid) k m = Some (pc', m')"
  shows "\<exists>new. stream_of dbl jid (calls m') (es @ new) \<and> order_step k Loop m pc' m' new"
proof -
  obtain h m1 where h: "hold_check k m = (h, m1)" by fastforce
  note H = hold_check_frame [OF h]
  show ?thesis
  proof (cases "h \<or> reader_idle (sp m1)")
    case True
    then have "pc' \<noteq> Spin \<and> m' = m1" using s h H(3) inv(2) by (auto simp: monitor_loop_def split: if_splits)
    then show ?thesis using st H by (auto simp: order_step_def pending_def intro!: exI [of _ "[]"])
  next
    case False
    obtain w m2 where r: "read_entry m1 = (w, m2)" by fastforce
    have inv1: "monitor_inv m1" "\<not> amt_mode m1" "\<not> reader_idle (sp m1)"
      using inv H False by (auto simp: monitor_inv_def)
    note R = read_entry_inv [OF inv1 r] and E = read_entry_result [OF inv1 r]
    have st2: "stream_of dbl jid (calls m2) es" using st H R(4) by simp
    let ?e = "ringbuffer (sp m) ! nat (reader_next (sp m))"
    have cons: "sp_unread (sp m) = ?e # sp_unread (sp m2)" using E(1) H(1) by simp
    consider "\<not> w" | "w" "reader_pos (sp m2) = writer_pos (sp m2)" | "w" "reader_pos (sp m2) \<noteq> writer_pos (sp m2)" by blast
    then show ?thesis
    proof cases
      case 1
      then have p: "pc' = Timer" "m' = m2" using s h r False inv1(2) by (auto simp: monitor_loop_def)
      have a: "\<not> edumpi_request_ready ?e" "entry_ended ?e" "lifecycle ?e AND 3 = EDUMPI_LC_PENDING"
        using E(4) [OF 1] H(1) by (auto simp: Let_def)
      have "request_wait_s m \<le> edumpi_entry_age_seconds k ?e"
        using hold_check_False [of k m m1] h False inv(2,3) H(1) a(1,2) by simp
      then show ?thesis using st2 cons a p by (auto simp: order_step_def pending_def intro!: exI [of _ "[]"])
    next
      case 2
      then have p: "pc' = Spin" "m' = m2" using s h r False inv1(2) by (auto simp: monitor_loop_def)
      have "pending Loop m = pending pc' m'" using cons E(2,3) 2(1) H(1) p by (simp add: pending_def)
      then show ?thesis using st2 p by (auto simp: order_step_def intro!: exI [of _ "[]"])
    next
      case 3
      then obtain m3 where w: "write_current dbl (Some jid) m2 = Some m3" and p: "pc' = Timer" "m' = m3"
        using s h r False inv1(2) by (auto simp: monitor_loop_def)
      note W = write_current_result [OF R(5) [OF 3(1)] st2 w]
      have "ringbuffer (sp m2) ! nat (reader_pos (sp m2)) = ?e" using E(2,3) 3(1) H(1) by simp
      then show ?thesis using W cons p by (auto simp: order_step_def pending_def intro!: exI [of _ "[?e]"])
    qed
  qed
qed

text \<open>C12: In the default mode the monitor writes the entries in the order of the ring, one at a time and
  none twice: each of its steps before shutdown either writes exactly the oldest entry still to be written, or
  leaves the entries to be written as they are, or gives up on the oldest entry. It gives up only on an entry
  whose call has returned, whose request has not completed, that is still PENDING and that is older than the
  wait limit.\<close>

theorem default_mode_order:
  assumes "monitor_inv m" and "pc_inv pc m" and "\<not> amt_mode m" and "pc \<notin> {Final, Done}"
    and "stream_of dbl jid (calls m) es" and "monitor_step dbl (Some jid) rank ts k pc m = Some (pc', m')"
  shows "\<exists>new. stream_of dbl jid (calls m') (es @ new) \<and> order_step k pc m pc' m' new"
proof (cases pc)
  case Loop
  show ?thesis
  proof (cases "run_thread m")
    case True
    then show ?thesis using loop_order [OF assms(1,3) _ assms(5), of k pc' m'] assms(6) Loop by simp
  next
    case False
    then show ?thesis
      using assms(5,6) Loop by (auto simp: order_step_def pending_def intro!: exI [of _ "[]"])
  qed
next
  case Spin
  let ?e = "ringbuffer (sp m) ! nat (reader_pos (sp m))"
  show ?thesis
  proof (cases "tv_nsec (end' ?e) = 0 \<and> run_thread m")
    case True
    then show ?thesis using assms(5,6) Spin by (auto simp: order_step_def intro!: exI [of _ "[]"])
  next
    case False
    then obtain m3 where w: "write_current dbl (Some jid) m = Some m3" and p: "pc' = Timer" "m' = m3"
      using assms(6) Spin by auto
    have "good_entry ?e" using assms(2) Spin by (simp add: pc_inv_def)
    from write_current_result [OF this assms(5) w] show ?thesis
      using p Spin by (auto simp: order_step_def pending_def intro!: exI [of _ "[?e]"])
  qed
next
  case Timer
  then have "pc' = Loop" "m' = copy_restart k m" using assms(6) by auto
  then show ?thesis
    using stream_copy_restart [OF assms(5), of k] Timer
    by (auto simp: order_step_def pending_def copy_restart_frame intro!: exI [of _ "[]"])
qed (use assms in \<open>auto simp: order_step_def pending_def split: if_splits intro!: exI [of _ "[]"]\<close>)

theorem default_mode_order_witness:
  "\<exists>new. stream_of (\<lambda>_. 0) (ascii ''7'') (calls demo_monitor) new \<and> order_step demo_clocks Idle demo_monitor Timer demo_monitor new"
proof -
  have s: "stream_of (\<lambda>_. 0) (ascii ''7'') (calls demo_monitor) []"
    using demo_monitor_start by (auto simp: mon_start_def stream_of_def segment_image_def intro: exI [of _ "[[]]"])
  have a: "\<not> amt_mode demo_monitor" "pc_inv Idle demo_monitor" "Idle \<notin> {Final, Done}"
    "monitor_step (\<lambda>_. 0) (Some (ascii ''7'')) 1 [] demo_clocks Idle demo_monitor = Some (Timer, demo_monitor)"
    by (simp_all add: demo_monitor_def pc_inv_def)
  from default_mode_order [OF demo_monitor_inv a(2,1,3) s a(4)] show ?thesis by (simp del: ascii_Cons)
qed

end
