(* ===== verification/Startup.thy ===== *)
theory Startup
  imports Monitor
begin

text \<open>
  The start and the end of the analysis: \<open>edumpi_env_enabled\<close>, \<open>edumpi_analysis_init_pre\<close> and
  \<open>edumpi_analysis_init_post\<close> of \<^verbatim>\<open>src/ompi/mpi/c/init.c\<close>, the connection the monitor thread opens
  (\<open>SQLMonitorFunc\<close>, first part), and the three entry points \<open>MPI_Init\<close>, \<open>MPI_Init_thread\<close> and
  \<open>MPI_Finalize\<close> that call them. \<^verbatim>\<open>getenv\<close>, the allocator and the back-end initialization
  \<open>ompi_mpi_init\<close> are parameters.
\<close>

section \<open>Environment\<close>

definition c_tolower :: "byte \<Rightarrow> byte" where
  "c_tolower c = (if 65 \<le> c \<and> c \<le> 90 then c + 32 else c)"

definition strcasecmp :: "byte list \<Rightarrow> byte list \<Rightarrow> int" where
  "strcasecmp s t = (if map c_tolower (cstr s) = map c_tolower (cstr t) then 0 else 1)"

definition edumpi_env_enabled :: "(string \<Rightarrow> byte list option) \<Rightarrow> string \<Rightarrow> bool" where
  "edumpi_env_enabled getenv name =
     (case getenv name of
        None \<Rightarrow> False
      | Some v \<Rightarrow>
          if cstr v = [] then False
          else \<not> (strcmp v (ascii ''0'') = 0 \<or> strcasecmp v (ascii ''false'') = 0 \<or> strcasecmp v (ascii ''no'') = 0))"

text \<open>The thread levels of \<^verbatim>\<open>mpi.h\<close>.\<close>

definition MPI_THREAD_SINGLE :: int where "MPI_THREAD_SINGLE = 0"
definition MPI_THREAD_FUNNELED :: int where "MPI_THREAD_FUNNELED = 1"
definition MPI_THREAD_SERIALIZED :: int where "MPI_THREAD_SERIALIZED = 2"
definition MPI_THREAD_MULTIPLE :: int where "MPI_THREAD_MULTIPLE = 3"
definition OMPI_SUCCESS :: int where "OMPI_SUCCESS = 0"
definition OMPI_ERR_BAD_PARAM :: int where "OMPI_ERR_BAD_PARAM = - 5"

lemmas thread_levels = MPI_THREAD_SINGLE_def MPI_THREAD_FUNNELED_def MPI_THREAD_SERIALIZED_def MPI_THREAD_MULTIPLE_def
  OMPI_SUCCESS_def OMPI_ERR_BAD_PARAM_def

text \<open>Result and new value of \<^verbatim>\<open>*requested\<close>.\<close>

definition ompi_getenv_mpi_thread_level :: "(string \<Rightarrow> byte list option) \<Rightarrow> int \<Rightarrow> int \<times> int" where
  "ompi_getenv_mpi_thread_level getenv requested =
     (case getenv ''OMPI_MPI_THREAD_LEVEL'' of
        None \<Rightarrow> (OMPI_SUCCESS, requested)
      | Some env \<Rightarrow>
          if strcasecmp env (ascii ''multiple'') = 0 \<or> strcasecmp env (ascii ''MPI_THREAD_MULTIPLE'') = 0 \<or>
             strcmp env (ascii ''3'') = 0 then (MPI_THREAD_MULTIPLE, MPI_THREAD_MULTIPLE)
          else if strcasecmp env (ascii ''serialized'') = 0 \<or> strcasecmp env (ascii ''MPI_THREAD_SERIALIZED'') = 0 \<or>
             strcmp env (ascii ''2'') = 0 then (MPI_THREAD_SERIALIZED, MPI_THREAD_SERIALIZED)
          else if strcasecmp env (ascii ''funneled'') = 0 \<or> strcasecmp env (ascii ''MPI_THREAD_FUNNELED'') = 0 \<or>
             strcmp env (ascii ''1'') = 0 then (MPI_THREAD_FUNNELED, MPI_THREAD_FUNNELED)
          else if strcasecmp env (ascii ''single'') = 0 \<or> strcasecmp env (ascii ''MPI_THREAD_SINGLE'') = 0 \<or>
             strcmp env (ascii ''0'') = 0 then (MPI_THREAD_SINGLE, MPI_THREAD_SINGLE)
          else (OMPI_ERR_BAD_PARAM, requested))"

section \<open>The event ring\<close>

record analysis = monitor +
  job_id :: "byte list option"
  start_runtime :: timespec
  monitor_started :: bool

text \<open>
  \<open>ok1\<close>, \<open>ok2\<close>: do the two allocations of the multi-producer ring succeed; \<open>mem\<close>: the memory \<^verbatim>\<open>malloc\<close>
  returns for the single-producer ring, of unknown content. None is \<^verbatim>\<open>abort()\<close>.
\<close>

definition edumpi_analysis_init_pre ::
  "(string \<Rightarrow> byte list option) \<Rightarrow> bool \<Rightarrow> bool \<Rightarrow> qentry list \<Rightarrow> timespec \<Rightarrow> analysis \<Rightarrow> analysis option" where
  "edumpi_analysis_init_pre getenv ok1 ok2 mem now g =
     (let g = g\<lparr>run_thread := True, counter := 0, amt_mode := edumpi_env_enabled getenv ''EDUMPI_MPI_THREAD_AMT''\<rparr>;
          request_wait_ms = (case getenv ''EDUMPI_REQUEST_WAIT_MS'' of
            Some w \<Rightarrow> if atol w \<ge> 0 then atol w else 2000 | None \<Rightarrow> 2000);
          g = g\<lparr>request_wait_s := of_int request_wait_ms / 1000\<rparr>;
          g' = (if amt_mode g then
              (let stall_ms = (case getenv ''EDUMPI_AMT_STALL_MS'' of
                 Some s \<Rightarrow> if atol s > 0 then atol s else 10000 | None \<Rightarrow> 10000) in
               case edumpi_amt_ring_init ok1 ok2 MAX_RINGSIZE stall_ms request_wait_ms of
                 (rc, r) \<Rightarrow> if rc \<noteq> 0 then None else Some (g\<lparr>amt := r\<rparr>))
            else Some (g\<lparr>sp := (sp g)\<lparr>ringbuffer := mem, writer_pos := - 1, reader_pos := - 1\<rparr>\<rparr>)) in
      map_option (\<lambda>g. g\<lparr>job_id := getenv ''SLURM_JOBID'', start_runtime := now\<rparr>) g')"

text \<open>
  The thread is created if \<^verbatim>\<open>pthread_create\<close> returns 0; the second component says whether rank 0
  prints the warning about \<^verbatim>\<open>MPI_THREAD_MULTIPLE\<close>.
\<close>

definition edumpi_analysis_init_post :: "int \<Rightarrow> int \<Rightarrow> int \<Rightarrow> analysis \<Rightarrow> analysis \<times> bool" where
  "edumpi_analysis_init_post pthread_create_rc rank provided g =
     (let g = (if pthread_create_rc = 0 then g\<lparr>monitor_started := True\<rparr> else g) in
      (g, \<not> amt_mode g \<and> provided = MPI_THREAD_MULTIPLE \<and> rank = 0))"

section \<open>The connection\<close>

text \<open>Lines 462 to 491: the connection string in its allocated buffer; a store outside it is None.\<close>

definition c_strcpy :: "nat \<Rightarrow> byte list \<Rightarrow> byte list option" where
  "c_strcpy n s = (if length (cstr s) + 1 \<le> n then Some (cstr s) else None)"

definition c_strcat :: "nat \<Rightarrow> byte list \<Rightarrow> byte list \<Rightarrow> byte list option" where
  "c_strcat n d s = (if length d + length (cstr s) + 1 \<le> n then Some (d @ cstr s) else None)"

datatype conn_result = Unset_environment | Conninfo "byte list" | Overflow

definition monitor_conninfo :: "(string \<Rightarrow> byte list option) \<Rightarrow> conn_result" where
  "monitor_conninfo getenv =
     (case (getenv ''DB_HOST'', getenv ''DB_PORT'', getenv ''DB_USER'', getenv ''DB_NAME'', getenv ''DB_PW'') of
        (Some db_host, Some db_port, Some db_user, Some db_name, Some db_pw) \<Rightarrow>
          (let n = 36 + length (cstr db_host) + length (cstr db_port) + length (cstr db_name) + length (cstr db_user) + length (cstr db_pw) in
           case (do { c \<leftarrow> c_strcpy n (ascii ''host='');
                 c \<leftarrow> c_strcat n c db_host;
                 c \<leftarrow> c_strcat n c (ascii '' port='');
                 c \<leftarrow> c_strcat n c db_port;
                 c \<leftarrow> c_strcat n c (ascii '' dbname='');
                 c \<leftarrow> c_strcat n c db_name;
                 c \<leftarrow> c_strcat n c (ascii '' user='');
                 c \<leftarrow> c_strcat n c db_user;
                 c \<leftarrow> c_strcat n c (ascii '' password='');
                 c_strcat n c db_pw }) of
             None \<Rightarrow> Overflow | Some c \<Rightarrow> Conninfo c)
      | _ \<Rightarrow> Unset_environment)"

text \<open>
  Lines 494 to 523: rank 0 registers the run; the other ranks poll until it is there (\<open>answers\<close>: the numbers of
  tuples the server returns; None while it has not answered enough); all ranks register themselves. The rank is
  printed into \<^verbatim>\<open>char proc_rank[4]\<close>.
\<close>

fun poll_run :: "byte list option \<Rightarrow> int list \<Rightarrow> pq_call list option" where
  "poll_run jid [] = None"
| "poll_run jid (n # ns) =
     (let q = PQexecParams (ascii ''SELECT edumpi_run_id FROM edumpi_runs WHERE edumpi_run_id = $1'') [jid] in
      if n \<noteq> 0 then Some [q] else map_option (Cons q) (poll_run jid ns))"

definition monitor_register ::
  "int \<Rightarrow> byte list option \<Rightarrow> byte list \<Rightarrow> byte list \<Rightarrow> byte list option \<Rightarrow> byte list \<Rightarrow> int list \<Rightarrow> pq_call list option" where
  "monitor_register rank jid start_time_str user_id program_name pname answers =
     do { cs \<leftarrow> (if rank = 0 then
              Some [PQexecParams (ascii ''INSERT INTO edumpi_runs (edumpi_run_id, start_time, user_id, program_name) VALUES ($1, $2, $3, $4)'')
                [jid, Some start_time_str, Some user_id, program_name]]
            else poll_run jid answers);
          proc_rank \<leftarrow> c_strcpy 4 (printf_d rank);
          Some (cs @ [PQexecParams (ascii ''INSERT INTO edumpi_cluster_info (edumpi_run_id, processorname, processrank) VALUES ($1, $2, $3)'')
            [jid, Some pname, Some proc_rank]]) }"

text \<open>The state in which the thread enters its loop; lines 526 to 534.\<close>

definition monitor_open :: "clocks \<Rightarrow> pq_call list \<Rightarrow> 'a monitor_scheme \<Rightarrow> 'a monitor_scheme" where
  "monitor_open k cs g =
     g\<lparr>copy_start := edumpi_wall_seconds k, held := False, held_since := 0,
       calls := cs @ [PQexec copyQuery, PQputCopyData PGCOPY_HEADER]\<rparr>"

section \<open>MPI_Init, MPI_Init_thread, MPI_Finalize\<close>

text \<open>
  The back end: \<open>mpi_init\<close> maps the required thread level to the error code and the provided level;
  \<open>errcode\<close> is \<open>ompi_errcode_get_mpi_code\<close>, \<open>errhandler\<close> what invoking the error handler returns.
\<close>

record backend =
  be_init :: "int \<Rightarrow> int \<times> int"
  be_errcode :: "int \<Rightarrow> int"
  be_errhandler :: "int \<Rightarrow> int"
  be_rank :: int
  be_pthread_create :: int
  be_finalize :: int

definition MPI_SUCCESS :: int where "MPI_SUCCESS = 0"
definition MPI_ERR_ARG :: int where "MPI_ERR_ARG = 13"

definition MPI_Init ::
  "(string \<Rightarrow> byte list option) \<Rightarrow> bool \<Rightarrow> bool \<Rightarrow> qentry list \<Rightarrow> timespec \<Rightarrow> backend \<Rightarrow> analysis \<Rightarrow> (int \<times> analysis) option" where
  "MPI_Init getenv ok1 ok2 mem now be g =
     (case edumpi_analysis_init_pre getenv ok1 ok2 mem now g of
        None \<Rightarrow> None
      | Some g \<Rightarrow>
          (let required = (case ompi_getenv_mpi_thread_level getenv MPI_THREAD_SINGLE of
                 (rc, required) \<Rightarrow> if OMPI_SUCCESS > rc then MPI_THREAD_MULTIPLE else required);
               (err, provided) = be_init be required in
           if MPI_SUCCESS \<noteq> err then
             Some (be_errhandler be (if err < 0 then be_errcode be err else err), g)
           else Some (MPI_SUCCESS, fst (edumpi_analysis_init_post (be_pthread_create be) (be_rank be) provided g))))"

definition MPI_Init_thread ::
  "(string \<Rightarrow> byte list option) \<Rightarrow> bool \<Rightarrow> bool \<Rightarrow> qentry list \<Rightarrow> timespec \<Rightarrow> backend \<Rightarrow> int \<Rightarrow> analysis \<Rightarrow>
   (int \<times> int \<times> analysis) option" where
  "MPI_Init_thread getenv ok1 ok2 mem now be required g =
     (case edumpi_analysis_init_pre getenv ok1 ok2 mem now g of
        None \<Rightarrow> None
      | Some g \<Rightarrow>
          (let bad = (required \<noteq> MPI_THREAD_SINGLE \<and> required \<noteq> MPI_THREAD_FUNNELED \<and>
                 required \<noteq> MPI_THREAD_SERIALIZED \<and> required \<noteq> MPI_THREAD_MULTIPLE);
               safe = (if bad then MPI_THREAD_SERIALIZED else required);
               (rc, safe) = ompi_getenv_mpi_thread_level getenv safe;
               bad = (bad \<or> OMPI_SUCCESS > rc);
               (err, provided) = be_init be safe in
           if bad then Some (be_errhandler be MPI_ERR_ARG, provided, g)
           else if MPI_SUCCESS \<noteq> err then
             Some (be_errhandler be (if err < 0 then be_errcode be err else err), provided, g)
           else Some (MPI_SUCCESS, provided,
             fst (edumpi_analysis_init_post (be_pthread_create be) (be_rank be) provided g))))"

text \<open>\<open>MPI_Finalize\<close>: the end of the run, whether the thread is joined, and the result of the back end.\<close>

definition MPI_Finalize :: "backend \<Rightarrow> analysis \<Rightarrow> int \<times> bool \<times> analysis" where
  "MPI_Finalize be g = (let g = g\<lparr>run_thread := False\<rparr> in (be_finalize be, monitor_started g, g))"

section \<open>Lemmas\<close>

lemma cstr_ascii_literal:
  "cstr (ascii ''host='') = ascii ''host=''" "cstr (ascii '' port='') = ascii '' port=''"
  "cstr (ascii '' dbname='') = ascii '' dbname=''" "cstr (ascii '' user='') = ascii '' user=''"
  "cstr (ascii '' password='') = ascii '' password=''"
  by (simp_all add: cstr_def)

lemma length_ascii: "length (ascii s) = length s"
  by (simp add: ascii_def)

lemma init_pre_sp:
  assumes "edumpi_analysis_init_pre getenv ok1 ok2 mem now g = Some g'" and "\<not> amt_mode g'"
    and "length mem = nat MAX_RINGSIZE"
  shows "sp_inv (sp g')" "sp_unread (sp g') = []" "run_thread g'" "job_id g' = getenv ''SLURM_JOBID''"
  using assms
  by (auto simp: edumpi_analysis_init_pre_def Let_def sp_inv_def sp_unread_def sp_count_def MAX_RINGSIZE_def
      split: if_splits prod.splits)

lemma init_pre_amt:
  assumes "edumpi_analysis_init_pre getenv ok1 ok2 mem now g = Some g'" and "amt_mode g'"
  shows "ring_inv (amt g')" "contents (amt g') = []" "\<forall>e \<in> set (slots (amt g')). good_entry e"
    "run_thread g'" "job_id g' = getenv ''SLURM_JOBID''" "rsize (amt g') = MAX_RINGSIZE" "dropped (amt g') = 0"
proof -
  obtain sm wm rc r where r: "edumpi_amt_ring_init ok1 ok2 MAX_RINGSIZE sm wm = (rc, r)" "rc = 0" "amt g' = r"
    and f: "run_thread g'" "job_id g' = getenv ''SLURM_JOBID''"
    using assms by (auto simp: edumpi_analysis_init_pre_def Let_def split: if_splits prod.splits)
  have ok: "ok1" "ok2" using r(1,2) by (auto simp: edumpi_amt_ring_init_def Let_def split: if_splits)
  have "0 < MAX_RINGSIZE" "edumpi_amt_ring_init True True MAX_RINGSIZE sm wm = (rc, r)"
    using r(1) ok by (simp_all add: MAX_RINGSIZE_def)
  note R = ring_inv_init [OF this]
  show "ring_inv (amt g')" "contents (amt g') = []" "rsize (amt g') = MAX_RINGSIZE" "dropped (amt g') = 0"
    using R r(3) ok by simp_all
  have "slots r = replicate (nat MAX_RINGSIZE) (zero_entry 0)"
    using r(1) ok by (auto simp: edumpi_amt_ring_init_def Let_def)
  then show "\<forall>e \<in> set (slots (amt g')). good_entry e" using good_zero_entry r(3) by simp
  show "run_thread g'" "job_id g' = getenv ''SLURM_JOBID''" by (rule f)+
qed

lemma monitor_inv_truncate: "monitor_inv (monitor.truncate g) \<longleftrightarrow>
    (if amt_mode g then ring_inv (amt g) \<and> (\<forall>e \<in> set (slots (amt g)). good_entry e)
     else sp_inv (sp g) \<and> (\<forall>e \<in> set (sp_unread (sp g)). good_entry e))"
  by (simp add: monitor_inv_def monitor.truncate_def)

lemma poll_run_no_copy: "poll_run jid ns = Some cs \<Longrightarrow> copy_segments cs = []"
  unfolding copy_segments_def
  by (induction ns arbitrary: cs) (auto simp: copy_segment_def Let_def split: if_splits)

lemma register_no_copy:
  assumes "monitor_register rank jid st u pn nm ns = Some cs"
  shows "copy_segments cs = []"
proof -
  obtain cs0 q ps where c: "(if rank = 0 then
        Some [PQexecParams (ascii ''INSERT INTO edumpi_runs (edumpi_run_id, start_time, user_id, program_name) VALUES ($1, $2, $3, $4)'')
          [jid, Some st, Some u, pn]] else poll_run jid ns) = Some cs0"
    and cs: "cs = cs0 @ [PQexecParams q ps]"
    using assms by (auto simp only: monitor_register_def bind_Some_iff option.inject)
  have "copy_segments cs0 = []"
  proof (cases "rank = 0")
    case True
    then show ?thesis using c by (auto simp: copy_segments_def copy_segment_def simp del: ascii_Cons)
  next
    case False
    then show ?thesis using c poll_run_no_copy by auto
  qed
  then show ?thesis by (simp add: cs copy_segments_append copy_segment_def)
qed

lemma dec_digits_bound: "n < 10 ^ length (dec_digits n)"
proof (induction n rule: dec_digits.induct)
  case (1 n)
  show ?case
  proof (cases "n < 10")
    case True
    then show ?thesis by (subst dec_digits.simps) simp
  next
    case False
    have "n div 10 < 10 ^ length (dec_digits (n div 10))" using "1.IH" False by blast
    then have "n < 10 * 10 ^ length (dec_digits (n div 10))" by (simp add: div_less_iff_less_mult mult.commute)
    then show ?thesis using False by (subst dec_digits.simps) simp
  qed
qed

section \<open>Properties\<close>


definition demo_getenv :: "string \<Rightarrow> byte list option" where
  "demo_getenv n = (if n = ''SLURM_JOBID'' then Some (ascii ''7'') else None)"

definition demo_analysis :: analysis where
  "demo_analysis = monitor.extend demo_monitor \<lparr>job_id = None, start_runtime = zero_timespec, monitor_started = False\<rparr>"


text \<open>The connection string fits its allocated buffer exactly, whatever the values of the five environment
  variables; if one of them is unset the thread gives up before using any.\<close>

theorem conninfo_never_overflows:
  "monitor_conninfo getenv \<noteq> Overflow \<and>
   (monitor_conninfo getenv = Unset_environment \<longleftrightarrow>
     None \<in> getenv ` {''DB_HOST'', ''DB_PORT'', ''DB_USER'', ''DB_NAME'', ''DB_PW''})"
  by (auto simp: monitor_conninfo_def c_strcpy_def c_strcat_def cstr_ascii_literal length_ascii Let_def
      simp del: ascii_Cons split: option.splits)

text \<open>Ranks of four digits do not fit the buffer \<^verbatim>\<open>char proc_rank[4]\<close> into which the monitor thread prints its
  rank: once the run is found in the database (which only ranks other than 0 wait for), registration stores
  outside the buffer exactly from rank 1000 on.\<close>

theorem register_rank_buffer:
  assumes "0 \<le> rank" and "\<exists>n \<in> set ns. n \<noteq> 0"
  shows "monitor_register rank jid st u pn nm ns = None \<longleftrightarrow> 1000 \<le> rank"
proof -
  have poll: "poll_run jid ns \<noteq> None" using assms(2) by (induction ns) (auto simp: Let_def)
  have "length (dec_digits (nat rank)) \<le> 3" if "rank < 1000"
    using length_dec_digits [of 3 "nat rank"] that assms(1) by simp
  moreover have "4 \<le> length (dec_digits (nat rank))" if "1000 \<le> rank"
  proof (rule ccontr)
    assume "\<not> 4 \<le> length (dec_digits (nat rank))"
    then have "length (dec_digits (nat rank)) \<le> 3" by simp
    then have "(10::nat) ^ length (dec_digits (nat rank)) \<le> 10 ^ 3" by (intro power_increasing) simp_all
    then have "nat rank < 10 ^ 3" by (rule order.strict_trans2 [OF dec_digits_bound])
    then show False using that by simp
  qed
  moreover have "cstr (printf_d rank) = dec_digits (nat rank)"
    unfolding cstr_def printf_d_def takeWhile_eq_all_conv using assms(1) dec_digits_no_NUL [of "nat rank"]
    by (simp add: takeWhile_eq_all_conv) blast
  ultimately have "length (cstr (printf_d rank)) + 1 \<le> 4 \<longleftrightarrow> rank < 1000" by (cases "rank < 1000") simp_all
  then show ?thesis using poll by (auto simp: monitor_register_def c_strcpy_def bind_Some_iff)
qed

theorem register_rank_buffer_witness:
  "monitor_register 1000 None [] [] None [] [1] = None \<longleftrightarrow> 1000 \<le> (1000 :: int)"
  using register_rank_buffer [of 1000 "[1]" None "[]" "[]" None "[]"] by simp

text \<open>Whatever the environment says, the thread level that reaches the back end is one of the four levels of
  MPI; an invalid level asked for by the program or in the environment is answered through the error handler
  with \<^verbatim>\<open>MPI_ERR_ARG\<close>, after the back end was started, and the monitor thread is then not started.\<close>

theorem init_thread_level_checked:
  assumes "MPI_Init_thread getenv ok1 ok2 mem now be required g = Some (rc, provided, g')" and "\<not> monitor_started g"
  shows "\<exists>level \<in> {MPI_THREAD_SINGLE, MPI_THREAD_FUNNELED, MPI_THREAD_SERIALIZED, MPI_THREAD_MULTIPLE}.
    provided = snd (be_init be level) \<and>
    (required \<notin> {MPI_THREAD_SINGLE, MPI_THREAD_FUNNELED, MPI_THREAD_SERIALIZED, MPI_THREAD_MULTIPLE} \<or>
     fst (ompi_getenv_mpi_thread_level getenv required) < 0 \<longrightarrow>
       rc = be_errhandler be MPI_ERR_ARG \<and> \<not> monitor_started g')"
proof -
  obtain g1 where g1: "edumpi_analysis_init_pre getenv ok1 ok2 mem now g = Some g1"
    using assms(1) by (auto simp: MPI_Init_thread_def split: option.splits)
  have m: "\<not> monitor_started g1"
    using g1 assms(2) by (auto simp: edumpi_analysis_init_pre_def Let_def split: if_splits prod.splits)
  let ?L = "{MPI_THREAD_SINGLE, MPI_THREAD_FUNNELED, MPI_THREAD_SERIALIZED, MPI_THREAD_MULTIPLE}"
  define safe where "safe = (if required \<notin> ?L then MPI_THREAD_SERIALIZED else required)"
  obtain rc1 lv where e: "ompi_getenv_mpi_thread_level getenv safe = (rc1, lv)" by fastforce
  have lv: "lv \<in> ?L" using e
    by (auto simp: ompi_getenv_mpi_thread_level_def safe_def simp del: ascii_Cons split: option.splits if_splits)
  have rc1: "fst (ompi_getenv_mpi_thread_level getenv x) = rc1" for x
    using e by (auto simp: ompi_getenv_mpi_thread_level_def simp del: ascii_Cons split: option.splits if_splits)
  have "provided = snd (be_init be lv) \<and> ((required \<notin> ?L \<or> rc1 < 0) \<longrightarrow>
      rc = be_errhandler be MPI_ERR_ARG \<and> \<not> monitor_started g')"
    using assms(1) g1 e m
    by (auto simp: MPI_Init_thread_def Let_def safe_def OMPI_SUCCESS_def split: if_splits prod.splits)
  then show ?thesis using lv unfolding rc1 by blast
qed

definition demo_backend :: backend where
  "demo_backend = \<lparr>be_init = \<lambda>l. (0, l), be_errcode = \<lambda>e. e, be_errhandler = \<lambda>e. e, be_rank = 0, be_pthread_create = 0, be_finalize = 0\<rparr>"

theorem init_thread_level_checked_witness:
  "\<exists>rc provided g'. MPI_Init_thread demo_getenv True True (replicate 1000000 (zero_entry 5)) zero_timespec demo_backend 17 demo_analysis =
     Some (rc, provided, g') \<and> rc = be_errhandler demo_backend MPI_ERR_ARG \<and> \<not> monitor_started g'"
proof -
  have m: "\<not> monitor_started demo_analysis" by (simp add: demo_analysis_def monitor.extend_def)
  obtain rc provided g' where
    r: "MPI_Init_thread demo_getenv True True (replicate 1000000 (zero_entry 5)) zero_timespec demo_backend 17 demo_analysis = Some (rc, provided, g')"
    by (simp add: MPI_Init_thread_def edumpi_analysis_init_pre_def demo_getenv_def edumpi_env_enabled_def demo_analysis_def monitor.extend_def
        demo_monitor_def demo_backend_def Let_def ompi_getenv_mpi_thread_level_def thread_levels)
  have "(17 :: int) \<notin> {MPI_THREAD_SINGLE, MPI_THREAD_FUNNELED, MPI_THREAD_SERIALIZED, MPI_THREAD_MULTIPLE}"
    by (simp add: thread_levels)
  then show ?thesis using r init_thread_level_checked [OF r m] by blast
qed

end
