(* ===== verification/Bindings.thy ===== *)
theory Bindings
  imports Startup
begin

text \<open>
  What the MPI bindings of \<^verbatim>\<open>src/ompi/mpi/c\<close> share: the handles they are called with, the macros of
  \<^verbatim>\<open>bindings.h\<close> and \<^verbatim>\<open>errhandler.h\<close>, the predicates of \<^verbatim>\<open>communicator.h\<close>, and the three tracing statements
  (claim a slot and stamp the start, \<open>initQentry\<close>, stamp the end). A binding is a chain of statements in
  continuation-passing style, so that every \<^verbatim>\<open>return\<close> of the source is a branch that drops the continuation.
  The bindings are those of a build with \<^verbatim>\<open>ENABLE_ANALYSIS\<close>; counters (\<^verbatim>\<open>SPC_RECORD\<close>), memory-checker
  annotations (\<^verbatim>\<open>MEMCHECKER\<close>) and the references that a blocking call takes and gives back do not change the
  result and are left out.
\<close>

section \<open>Constants of mpi.h\<close>

definition MPI_ANY_SOURCE :: int where "MPI_ANY_SOURCE = - 1"
definition MPI_PROC_NULL :: int where "MPI_PROC_NULL = - 2"
definition MPI_ROOT :: int where "MPI_ROOT = - 4"
definition MPI_ANY_TAG :: int where "MPI_ANY_TAG = - 1"

definition MPI_ERR_BUFFER :: int where "MPI_ERR_BUFFER = 1"
definition MPI_ERR_COUNT :: int where "MPI_ERR_COUNT = 2"
definition MPI_ERR_TYPE :: int where "MPI_ERR_TYPE = 3"
definition MPI_ERR_TAG :: int where "MPI_ERR_TAG = 4"
definition MPI_ERR_COMM :: int where "MPI_ERR_COMM = 5"
definition MPI_ERR_RANK :: int where "MPI_ERR_RANK = 6"
definition MPI_ERR_REQUEST :: int where "MPI_ERR_REQUEST = 7"
definition MPI_ERR_ROOT :: int where "MPI_ERR_ROOT = 8"
definition MPI_ERR_OP :: int where "MPI_ERR_OP = 10"
definition MPI_ERR_TOPOLOGY :: int where "MPI_ERR_TOPOLOGY = 11"
definition MPI_ERR_UNKNOWN :: int where "MPI_ERR_UNKNOWN = 14"
definition MPI_ERR_TRUNCATE :: int where "MPI_ERR_TRUNCATE = 15"
definition MPI_ERR_DISP :: int where "MPI_ERR_DISP = 26"
definition MPI_ERR_WIN :: int where "MPI_ERR_WIN = 53"
definition MPI_ERR_PROC_FAILED :: int where "MPI_ERR_PROC_FAILED = 75"
definition MPI_ERR_PROC_FAILED_PENDING :: int where "MPI_ERR_PROC_FAILED_PENDING = 76"
definition MPI_ERR_REVOKED :: int where "MPI_ERR_REVOKED = 77"

lemmas mpi_codes = MPI_ERR_BUFFER_def MPI_ERR_COUNT_def MPI_ERR_TYPE_def MPI_ERR_TAG_def MPI_ERR_COMM_def
  MPI_ERR_RANK_def MPI_ERR_REQUEST_def MPI_ERR_ROOT_def MPI_ERR_OP_def MPI_ERR_TOPOLOGY_def MPI_ERR_UNKNOWN_def
  MPI_ERR_TRUNCATE_def MPI_ERR_DISP_def MPI_ERR_WIN_def MPI_ERR_PROC_FAILED_def MPI_ERR_PROC_FAILED_PENDING_def
  MPI_ERR_REVOKED_def MPI_ERR_ARG_def MPI_SUCCESS_def OMPI_SUCCESS_def

lemma codes_not_success [simp]:
  "MPI_ERR_BUFFER \<noteq> OMPI_SUCCESS" "MPI_ERR_COUNT \<noteq> OMPI_SUCCESS" "MPI_ERR_TYPE \<noteq> OMPI_SUCCESS"
  "MPI_ERR_TAG \<noteq> OMPI_SUCCESS" "MPI_ERR_COMM \<noteq> OMPI_SUCCESS" "MPI_ERR_RANK \<noteq> OMPI_SUCCESS"
  "MPI_ERR_REQUEST \<noteq> OMPI_SUCCESS" "MPI_ERR_ROOT \<noteq> OMPI_SUCCESS" "MPI_ERR_OP \<noteq> OMPI_SUCCESS"
  "MPI_ERR_TOPOLOGY \<noteq> OMPI_SUCCESS" "MPI_ERR_UNKNOWN \<noteq> OMPI_SUCCESS" "MPI_ERR_TRUNCATE \<noteq> OMPI_SUCCESS"
  "MPI_ERR_DISP \<noteq> OMPI_SUCCESS" "MPI_ERR_WIN \<noteq> OMPI_SUCCESS" "MPI_ERR_PROC_FAILED \<noteq> OMPI_SUCCESS"
  "MPI_ERR_PROC_FAILED_PENDING \<noteq> OMPI_SUCCESS" "MPI_ERR_REVOKED \<noteq> OMPI_SUCCESS" "MPI_ERR_ARG \<noteq> OMPI_SUCCESS"
  by (simp_all add: mpi_codes)

lemma success_codes: "MPI_SUCCESS = OMPI_SUCCESS"
  by (simp add: mpi_codes)

section \<open>Handles\<close>

text \<open>Addresses: \<^verbatim>\<open>NULL\<close> (also \<^verbatim>\<open>MPI_BOTTOM\<close>) is 0 and \<^verbatim>\<open>MPI_IN_PLACE\<close> is 1.\<close>

type_synonym ptr = nat

definition NULL :: ptr where "NULL = 0"
definition MPI_BOTTOM :: ptr where "MPI_BOTTOM = 0"
definition MPI_IN_PLACE :: ptr where "MPI_IN_PLACE = 1"

text \<open>
  What a derived datatype was made of (its \<^verbatim>\<open>args\<close>): a predefined type with its id, a derived type with the
  types it was built from, or a derived type whose arguments were not stored (\<^verbatim>\<open>args == NULL\<close>).
\<close>

datatype type_tree = Predefined_Type nat | Derived_Type "type_tree list" | Opaque_Type

text \<open>What the bindings read of a datatype; a NULL pointer is \<open>None\<close>.\<close>

record ddt =
  ddt_name :: mpi_datatype
  ddt_id :: nat
  ddt_is_null :: bool        \<comment> \<open>the handle \<^verbatim>\<open>MPI_DATATYPE_NULL\<close>\<close>
  ddt_committed :: bool
  ddt_overlapped :: bool
  ddt_valid :: bool
  ddt_predefined :: bool
  ddt_size :: nat
  ddt_true_extent :: int
  ddt_made_of :: "type_tree list option"   \<comment> \<open>\<^verbatim>\<open>args->d[0 .. cd - 1]\<close>; \<open>None\<close> for NULL\<close>

type_synonym dtype = "ddt option"

record op_handle =
  op_name :: mpi_op
  op_is_null :: bool         \<comment> \<open>the handle \<^verbatim>\<open>MPI_OP_NULL\<close>\<close>
  op_no_op :: bool           \<comment> \<open>the handle \<^verbatim>\<open>MPI_NO_OP\<close>\<close>
  op_replace :: bool         \<comment> \<open>the handle \<^verbatim>\<open>MPI_REPLACE\<close>\<close>
  op_intrinsic :: bool
  op_defined :: "nat list"   \<comment> \<open>the ids of the types with a function in the table of the operation\<close>

text \<open>A window: its number, the bits of \<^verbatim>\<open>w_flags\<close>, its flavor and the size of its group.\<close>

record window =
  w_number :: nat
  w_invalid :: bool
  w_freed :: bool
  w_flavor :: int
  w_group_size :: int

datatype win_handle = Win_NULL | MPI_WIN_NULL | Win window

datatype mpi_object = No_Object | Comm_Object comm_handle | Win_Object win_handle

text \<open>A NULL pointer in the place of an object.\<close>

definition null_object :: "mpi_object \<Rightarrow> bool" where
  "null_object obj \<longleftrightarrow> obj = Comm_Object Comm_NULL \<or> obj = Win_Object Win_NULL"

lemma null_object_simps [simp]:
  "\<not> null_object No_Object" "null_object (Comm_Object c) \<longleftrightarrow> c = Comm_NULL" "null_object (Win_Object w) \<longleftrightarrow> w = Win_NULL"
  by (auto simp: null_object_def)

datatype mpi_request = Request_NULL | Request_empty | Request nat

text \<open>A matched message: \<^verbatim>\<open>MPI_MESSAGE_NULL\<close>, \<^verbatim>\<open>ompi_message_no_proc\<close>, or one with its communicator.\<close>

datatype mpi_message = Message_NULL | Message_no_proc communicator | Message communicator nat

datatype send_mode = MCA_PML_BASE_SEND_SYNCHRONOUS | MCA_PML_BASE_SEND_BUFFERED | MCA_PML_BASE_SEND_READY
  | MCA_PML_BASE_SEND_STANDARD

text \<open>Arguments of a call into the selected PML, collective or one-sided component.\<close>

datatype arg = P ptr | N int | T dtype | Op "op_handle option" | C comm_handle | W win_handle
  | M send_mode | Ns "int list option" | Ts "dtype list option"

type_synonym backend_call = "string \<times> arg list"

text \<open>The state of one call: its entry, \<^verbatim>\<open>*request\<close>, \<^verbatim>\<open>*message\<close>, the source in the status, the error handlers
  invoked, the components called and the references that the request holds on types and operations.\<close>

record call_state =
  item :: qentry
  request :: mpi_request
  message :: mpi_message
  status_source :: int
  invoked :: "(mpi_object \<times> int) list"
  backend :: "backend_call list"
  refs :: "arg list"

text \<open>
  The rest of the library: configuration, the error handlers (\<open>None\<close> when a handler does not return), the table
  of internal error codes, the liveness of peers, the error, the object, the persistence and the completion of a
  request, and the selected components. A component gets the call and the state and returns its code and the new state. The two clock readings of a call are \<open>t_start\<close> and \<open>t_end\<close>.
\<close>

record mpi_lib =
  env :: edu_env
  t_start :: timespec
  t_end :: timespec
  param_check :: bool
  ft_mpi :: bool
  ompi_instance_count :: int
  pml_max_tag :: int
  errcodes_intern :: "(int \<times> int) list"
  errhandler :: "mpi_object \<Rightarrow> int \<Rightarrow> int option"
  proc_active :: "communicator \<Rightarrow> int \<Rightarrow> bool"
  null_comm :: communicator
  request_error :: "mpi_request \<Rightarrow> int"
  request_object :: "mpi_request \<Rightarrow> mpi_object"
  request_persistent :: "mpi_request \<Rightarrow> bool"
  request_complete :: "mpi_request \<Rightarrow> bool"
  component :: "backend_call \<Rightarrow> call_state \<Rightarrow> int \<times> call_state"

text \<open>A call returns a code, or an error handler does not return, or it is undefined (a store outside an array, a
  NULL dereference).\<close>

datatype outcome = Returned int call_state | Aborted call_state | Undefined

type_synonym prog = "call_state \<Rightarrow> outcome"

section \<open>Error handling\<close>

definition ompi_errcode_get_mpi_code :: "mpi_lib \<Rightarrow> int \<Rightarrow> int" where
  "ompi_errcode_get_mpi_code L errcode =
     (if errcode \<ge> 0 then errcode
      else case map_of (errcodes_intern L) errcode of None \<Rightarrow> MPI_ERR_UNKNOWN | Some c \<Rightarrow> c)"

definition ompi_errhandler_invoke :: "mpi_lib \<Rightarrow> mpi_object \<Rightarrow> int \<Rightarrow> (int \<Rightarrow> prog) \<Rightarrow> prog" where
  "ompi_errhandler_invoke L obj err_code k s =
     (let s = s\<lparr>invoked := invoked s @ [(obj, err_code)]\<rparr> in
      case errhandler L obj err_code of None \<Rightarrow> Aborted s | Some rc \<Rightarrow> k rc s)"

definition OMPI_ERR_INIT_FINALIZE :: "mpi_lib \<Rightarrow> prog \<Rightarrow> prog" where
  "OMPI_ERR_INIT_FINALIZE L k =
     (if ompi_instance_count L = 0
      then ompi_errhandler_invoke L No_Object (ompi_errcode_get_mpi_code L MPI_ERR_ARG) (\<lambda>_. k)
      else k)"

text \<open>The handler of an object is read from the object, which must not be a null pointer.\<close>

definition invoke_on :: "mpi_lib \<Rightarrow> mpi_object \<Rightarrow> int \<Rightarrow> (int \<Rightarrow> prog) \<Rightarrow> prog" where
  "invoke_on L obj err_code k s =
     (if null_object obj then Undefined else ompi_errhandler_invoke L obj err_code k s)"

text \<open>\<^verbatim>\<open>return OMPI_ERRHANDLER_INVOKE(...)\<close> and the variant without a handle.\<close>

definition OMPI_ERRHANDLER_INVOKE :: "mpi_lib \<Rightarrow> mpi_object \<Rightarrow> int \<Rightarrow> prog" where
  "OMPI_ERRHANDLER_INVOKE L obj err =
     invoke_on L obj (ompi_errcode_get_mpi_code L err) Returned"

definition OMPI_ERRHANDLER_NOHANDLE_INVOKE :: "mpi_lib \<Rightarrow> int \<Rightarrow> prog" where
  "OMPI_ERRHANDLER_NOHANDLE_INVOKE L err =
     ompi_errhandler_invoke L No_Object (ompi_errcode_get_mpi_code L err) Returned"

definition OMPI_ERRHANDLER_CHECK :: "mpi_lib \<Rightarrow> int \<Rightarrow> mpi_object \<Rightarrow> prog \<Rightarrow> prog" where
  "OMPI_ERRHANDLER_CHECK L rc obj k =
     (if rc \<noteq> OMPI_SUCCESS
      then let code = ompi_errcode_get_mpi_code L rc in invoke_on L obj code (\<lambda>_. Returned code)
      else k)"

definition OMPI_ERRHANDLER_NOHANDLE_CHECK :: "mpi_lib \<Rightarrow> int \<Rightarrow> prog \<Rightarrow> prog" where
  "OMPI_ERRHANDLER_NOHANDLE_CHECK L rc k =
     (if rc \<noteq> OMPI_SUCCESS
      then let code = ompi_errcode_get_mpi_code L rc in ompi_errhandler_invoke L No_Object code (\<lambda>_. Returned code)
      else k)"

definition OMPI_ERRHANDLER_RETURN :: "mpi_lib \<Rightarrow> int \<Rightarrow> mpi_object \<Rightarrow> prog" where
  "OMPI_ERRHANDLER_RETURN L rc obj =
     (if OMPI_SUCCESS \<noteq> rc
      then let code = ompi_errcode_get_mpi_code L rc in invoke_on L obj code (\<lambda>_. Returned code)
      else Returned MPI_SUCCESS)"

section \<open>Checks of arguments\<close>

definition type_null :: "dtype \<Rightarrow> bool" where
  "type_null t \<longleftrightarrow> (case t of None \<Rightarrow> True | Some d \<Rightarrow> ddt_is_null d)"

definition OMPI_CHECK_DATATYPE_FOR_SEND :: "int \<Rightarrow> dtype \<Rightarrow> int \<Rightarrow> int" where
  "OMPI_CHECK_DATATYPE_FOR_SEND rc t count =
     (if type_null t then MPI_ERR_TYPE
      else if count < 0 then MPI_ERR_COUNT
      else if \<not> ddt_committed (the t) then MPI_ERR_TYPE
      else if \<not> ddt_valid (the t) then MPI_ERR_TYPE
      else rc)"

definition OMPI_CHECK_DATATYPE_FOR_RECV :: "int \<Rightarrow> dtype \<Rightarrow> int \<Rightarrow> int" where
  "OMPI_CHECK_DATATYPE_FOR_RECV rc t count =
     (if type_null t then MPI_ERR_TYPE
      else if count < 0 then MPI_ERR_COUNT
      else if \<not> ddt_committed (the t) then MPI_ERR_TYPE
      else if \<not> ddt_valid (the t) then MPI_ERR_TYPE
      else rc)"

definition OMPI_CHECK_DATATYPE_FOR_ONE_SIDED :: "int \<Rightarrow> dtype \<Rightarrow> int \<Rightarrow> int" where
  "OMPI_CHECK_DATATYPE_FOR_ONE_SIDED rc t count =
     (if type_null t then MPI_ERR_TYPE
      else if count < 0 then MPI_ERR_COUNT
      else if \<not> ddt_committed (the t) then MPI_ERR_TYPE
      else if ddt_overlapped (the t) then MPI_ERR_TYPE
      else if \<not> ddt_valid (the t) then MPI_ERR_TYPE
      else rc)"

definition OMPI_CHECK_USER_BUFFER :: "int \<Rightarrow> ptr \<Rightarrow> dtype \<Rightarrow> int \<Rightarrow> int" where
  "OMPI_CHECK_USER_BUFFER rc buffer t count =
     (if buffer = NULL \<and> 0 < count \<and> rc = MPI_SUCCESS then
        (if ddt_predefined (the t) then MPI_ERR_BUFFER
         else if 0 < ddt_size (the t) \<and> ddt_true_extent (the t) = 0 then MPI_ERR_BUFFER
         else rc)
      else rc)"

text \<open>\<open>ompi_op_is_valid\<close>; without a type an intrinsic operation cannot be checked (a NULL dereference).\<close>

definition ompi_op_is_valid :: "op_handle \<Rightarrow> dtype \<Rightarrow> bool option" where
  "ompi_op_is_valid op t =
     (if op_intrinsic op then map_option (\<lambda>d. ddt_predefined d \<and> ddt_id d \<in> set (op_defined op)) t else Some True)"

text \<open>The object behind a handle; a NULL handle has none.\<close>

fun comm_object :: "mpi_lib \<Rightarrow> comm_handle \<Rightarrow> communicator option" where
  "comm_object L Comm_NULL = None"
| "comm_object L MPI_COMM_NULL = Some (null_comm L)"
| "comm_object L MPI_COMM_WORLD = Some (world (env L))"
| "comm_object L (Comm c) = Some c"

text \<open>\<^verbatim>\<open>comm->...\<close>: everything that follows a dereference of the handle.\<close>

definition with_comm :: "mpi_lib \<Rightarrow> comm_handle \<Rightarrow> (communicator \<Rightarrow> prog) \<Rightarrow> prog" where
  "with_comm L comm k s = (case comm_object L comm of None \<Rightarrow> Undefined | Some c \<Rightarrow> k c s)"

definition ompi_comm_invalid :: "mpi_lib \<Rightarrow> comm_handle \<Rightarrow> bool" where
  "ompi_comm_invalid L comm \<longleftrightarrow>
     comm = Comm_NULL \<or> comm = MPI_COMM_NULL \<or> c_freed (the (comm_object L comm)) \<or> c_invalid (the (comm_object L comm))"

definition ompi_comm_peer_invalid :: "communicator \<Rightarrow> int \<Rightarrow> bool" where
  "ompi_comm_peer_invalid c peer_id \<longleftrightarrow> peer_id < 0 \<or> peer_id \<ge> int (length (c_remote_group c))"

text \<open>The fault-tolerance checks: \<open>None\<close> when the operation may go on, otherwise the error (after a call of the progress
  engine, which is not modelled).\<close>

definition ompi_comm_iface_p2p_check_proc :: "mpi_lib \<Rightarrow> communicator \<Rightarrow> int \<Rightarrow> int option" where
  "ompi_comm_iface_p2p_check_proc L c peer_id =
     (if c_revoked c then Some MPI_ERR_REVOKED
      else if \<not> proc_active L c peer_id then Some MPI_ERR_PROC_FAILED
      else None)"

definition ompi_comm_iface_coll_check :: "communicator \<Rightarrow> int option" where
  "ompi_comm_iface_coll_check c =
     (if c_revoked c then Some MPI_ERR_REVOKED
      else if c_coll_revoked c then Some MPI_ERR_PROC_FAILED
      else None)"

text \<open>\<^verbatim>\<open>#if OPAL_ENABLE_FT_MPI\<close> \<dots> \<^verbatim>\<open>OMPI_ERRHANDLER_RETURN\<close> on a failed check.\<close>

definition ft_p2p :: "mpi_lib \<Rightarrow> comm_handle \<Rightarrow> int \<Rightarrow> prog \<Rightarrow> prog" where
  "ft_p2p L comm peer_id k =
     (if ft_mpi L then with_comm L comm (\<lambda>c. case ompi_comm_iface_p2p_check_proc L c peer_id of
        None \<Rightarrow> k | Some rc \<Rightarrow> OMPI_ERRHANDLER_RETURN L rc (Comm_Object comm))
      else k)"

definition ft_coll :: "mpi_lib \<Rightarrow> comm_handle \<Rightarrow> prog \<Rightarrow> prog" where
  "ft_coll L comm k =
     (if ft_mpi L then with_comm L comm (\<lambda>c. case ompi_comm_iface_coll_check c of
        None \<Rightarrow> k | Some err \<Rightarrow> OMPI_ERRHANDLER_RETURN L err (Comm_Object comm))
      else k)"

text \<open>\<open>ompi_errhandler_request_invoke\<close> for one request, which is freed unless it is persistent or still active.\<close>

definition ompi_errhandler_request_invoke :: "mpi_lib \<Rightarrow> prog" where
  "ompi_errhandler_request_invoke L s =
     (let r = request s in
      if r = Request_NULL \<or> request_error L r = MPI_SUCCESS then Returned MPI_SUCCESS s
      else ompi_errhandler_invoke L (request_object L r) (ompi_errcode_get_mpi_code L (request_error L r)) Returned
        (if \<not> request_persistent L r \<and> \<not> (ft_mpi L \<and> MPI_ERR_PROC_FAILED_PENDING = request_error L r)
         then s\<lparr>request := Request_NULL\<rparr> else s))"

section \<open>Tracing and the call of a component\<close>

text \<open>
  \<^verbatim>\<open>clock_gettime(CLOCK_REALTIME, &item->start); initQentry(&item, ...)\<close> on the slot in the state, which the
  caller got from \<open>getWritingRingPos\<close>.
\<close>

definition begin_event ::
  "mpi_lib \<Rightarrow> int \<Rightarrow> string \<Rightarrow> nat \<Rightarrow> int \<Rightarrow> int \<Rightarrow> string \<Rightarrow> nat \<Rightarrow> dtype \<Rightarrow> dtype \<Rightarrow> comm_handle \<Rightarrow> int \<Rightarrow>
   op_handle option \<Rightarrow> prog \<Rightarrow> prog" where
  "begin_event L dest name name_len sendCount recvCount commType commType_len st rt comm blk op k s =
     (case initQentry_item (env L) ((item s)\<lparr>start' := t_start L\<rparr>) dest (ascii name) name_len sendCount recvCount
        (ascii commType) commType_len (map_option ddt_name st) (map_option ddt_name rt) comm blk (map_option op_name op) of
        None \<Rightarrow> Undefined
      | Some e \<Rightarrow> k (s\<lparr>item := e\<rparr>))"

text \<open>\<^verbatim>\<open>clock_gettime(CLOCK_REALTIME, &item->end)\<close>.\<close>

definition end_event :: "mpi_lib \<Rightarrow> prog \<Rightarrow> prog" where
  "end_event L k s = k (s\<lparr>item := (item s)\<lparr>end' := t_end L\<rparr>\<rparr>)"

definition component_call :: "mpi_lib \<Rightarrow> backend_call \<Rightarrow> (int \<Rightarrow> prog) \<Rightarrow> prog" where
  "component_call L b k s =
     (case component L b s of
        (rc, s') \<Rightarrow> k rc (s'\<lparr>invoked := invoked s, backend := backend s @ [b], refs := refs s\<rparr>))"

text \<open>\<^verbatim>\<open>*request = r\<close> through the pointer \<open>req\<close>.\<close>

definition set_request :: "ptr \<Rightarrow> mpi_request \<Rightarrow> prog \<Rightarrow> prog" where
  "set_request req r k s = (if req = NULL then Undefined else k (s\<lparr>request := r\<rparr>))"

text \<open>\<^verbatim>\<open>if (MPI_STATUS_IGNORE != status) OMPI_COPY_STATUS(status, ...)\<close>, where the status copied has the source \<open>src\<close>.\<close>

definition set_status :: "ptr \<Rightarrow> int \<Rightarrow> prog \<Rightarrow> prog" where
  "set_status status src k s = k (if status \<noteq> NULL then s\<lparr>status_source := src\<rparr> else s)"

definition set_item :: "(qentry \<Rightarrow> qentry) \<Rightarrow> prog \<Rightarrow> prog" where
  "set_item f k s = k (s\<lparr>item := f (item s)\<rparr>)"

section \<open>The contract of a traced call\<close>

text \<open>
  What the tracing relies on. The host name fits its field; MPI is initialised; and a component never changes the
  identity of the entry it gets (its function, type, communicator, process and times) and leaves it well formed.
\<close>

definition keeps_identity :: "qentry \<Rightarrow> qentry \<Rightarrow> bool" where
  "keeps_identity e e' \<longleftrightarrow> (wf_entry e \<longrightarrow> wf_entry e') \<and> start' e' = start' e \<and> end' e' = end' e \<and>
     function' e' = function' e \<and> communicationType e' = communicationType e \<and> communicationArea e' = communicationArea e \<and>
     processorname e' = processorname e \<and> processrank' e' = processrank' e"

definition component_ok :: "mpi_lib \<Rightarrow> bool" where
  "component_ok L \<longleftrightarrow> (\<forall>b s. keeps_identity (item s) (item (snd (component L b s))))"

definition env_ok :: "edu_env \<Rightarrow> bool" where
  "env_ok v \<longleftrightarrow> proc_name_length v \<le> length (proc_name v) \<and> proc_name_length v < 30 \<and>
     0 \<notin> set (take (proc_name_length v) (proc_name v)) \<and> 2 \<le> length (beyond v)"

definition lib_ok :: "mpi_lib \<Rightarrow> bool" where
  "lib_ok L \<longleftrightarrow> component_ok L \<and> env_ok (env L) \<and> ompi_instance_count L \<noteq> 0"

text \<open>A call starts on a slot that was just claimed.\<close>

definition fresh_call :: "call_state \<Rightarrow> bool" where
  "fresh_call s \<longleftrightarrow> (\<exists>lc. item s = zero_entry lc) \<and> invoked s = [] \<and> backend s = [] \<and> refs s = []"

text \<open>The entry of a call of \<open>name\<close>.\<close>

definition recorded :: "mpi_lib \<Rightarrow> string \<Rightarrow> string \<Rightarrow> comm_handle \<Rightarrow> qentry \<Rightarrow> bool" where
  "recorded L name ct comm e \<longleftrightarrow> wf_entry e \<and> start' e = t_start L \<and> cstr (function' e) = ascii name \<and>
     cstr (communicationType e) = ascii ct \<and> cstr (communicationArea e) = take 63 (label_text (world (env L)) comm) \<and>
     cstr (processorname e) = take (proc_name_length (env L)) (proc_name (env L)) \<and>
     processrank' e = processrank (env L)"

text \<open>The error a call answers with: success without an error handler, or one handler with the code returned.\<close>

definition answered :: "mpi_lib \<Rightarrow> int \<Rightarrow> call_state \<Rightarrow> bool" where
  "answered L rc s \<longleftrightarrow> invoked s = [] \<and> rc = MPI_SUCCESS \<or>
     (\<exists>obj code. invoked s = [(obj, code)] \<and> (rc = code \<or> errhandler L obj code = Some rc))"

text \<open>
  The result of a call: the entry is recorded, and either the call had the reason \<open>G\<close> not to call a component, called
  none and the entry has no end time, or the components that were called satisfy \<open>B\<close> and the entry has its end time.
\<close>

definition traced :: "mpi_lib \<Rightarrow> (qentry \<Rightarrow> bool) \<Rightarrow> bool \<Rightarrow> (backend_call list \<Rightarrow> bool) \<Rightarrow> outcome \<Rightarrow> bool" where
  "traced L R G B out \<longleftrightarrow>
     (case out of
        Returned rc s \<Rightarrow> R (item s) \<and> answered L rc s \<and>
          (G \<and> backend s = [] \<and> end' (item s) = zero_timespec \<or> B (backend s) \<and> end' (item s) = t_end L)
      | Aborted s \<Rightarrow> R (item s) \<and> (G \<and> backend s = [] \<or> B (backend s))
      | Undefined \<Rightarrow> False)"

text \<open>The states in between: before any component, after the call of components, and after the end time.\<close>

definition running :: "(qentry \<Rightarrow> bool) \<Rightarrow> backend_call list \<Rightarrow> timespec \<Rightarrow> call_state \<Rightarrow> bool" where
  "running R bs t s \<longleftrightarrow> R (item s) \<and> end' (item s) = t \<and> backend s = bs \<and> invoked s = []"

definition may_return :: "mpi_lib \<Rightarrow> bool \<Rightarrow> (backend_call list \<Rightarrow> bool) \<Rightarrow> backend_call list \<Rightarrow> timespec \<Rightarrow> bool" where
  "may_return L G B bs t \<longleftrightarrow> G \<and> bs = [] \<and> t = zero_timespec \<or> B bs \<and> t = t_end L"

lemma may_return_open [simp]: "G \<Longrightarrow> may_return L G B [] zero_timespec"
  by (simp add: may_return_def)

lemma may_return_closed [simp]: "B bs \<Longrightarrow> may_return L G B bs (t_end L)"
  by (simp add: may_return_def)

named_theorems trace_rules \<open>rules of the contract, one per statement of a binding\<close>

lemma traced_Returned [trace_rules]:
  "running R bs t s \<Longrightarrow> may_return L G B bs t \<Longrightarrow> traced L R G B (Returned MPI_SUCCESS s)"
  by (auto simp: traced_def running_def may_return_def answered_def)

lemma traced_invoke:
  assumes "running R bs t s" "may_return L G B bs t" "\<And>rc. k rc = Returned rc \<or> k rc = Returned code"
  shows "traced L R G B (ompi_errhandler_invoke L obj code k s)"
proof (cases "errhandler L obj code")
  case None
  then show ?thesis using assms(1,2) by (auto simp: ompi_errhandler_invoke_def traced_def running_def may_return_def)
next
  case (Some rc)
  then show ?thesis using assms(1,2) assms(3) [of rc]
    by (auto simp: ompi_errhandler_invoke_def traced_def running_def may_return_def answered_def Let_def)
qed

lemma traced_INVOKE [trace_rules]:
  "\<not> null_object obj \<Longrightarrow> running R bs t s \<Longrightarrow> may_return L G B bs t \<Longrightarrow> traced L R G B (OMPI_ERRHANDLER_INVOKE L obj e s)"
  "running R bs t s \<Longrightarrow> may_return L G B bs t \<Longrightarrow> traced L R G B (OMPI_ERRHANDLER_NOHANDLE_INVOKE L e s)"
  unfolding OMPI_ERRHANDLER_INVOKE_def OMPI_ERRHANDLER_NOHANDLE_INVOKE_def invoke_on_def by (simp_all add: traced_invoke)

lemma traced_CHECK [trace_rules]:
  "\<not> null_object obj \<Longrightarrow> running R bs t s \<Longrightarrow> (rc \<noteq> OMPI_SUCCESS \<Longrightarrow> may_return L G B bs t) \<Longrightarrow> (rc = OMPI_SUCCESS \<Longrightarrow> traced L R G B (k s)) \<Longrightarrow>
    traced L R G B (OMPI_ERRHANDLER_CHECK L rc obj k s)"
  "running R bs t s \<Longrightarrow> (rc \<noteq> OMPI_SUCCESS \<Longrightarrow> may_return L G B bs t) \<Longrightarrow> (rc = OMPI_SUCCESS \<Longrightarrow> traced L R G B (k s)) \<Longrightarrow>
    traced L R G B (OMPI_ERRHANDLER_NOHANDLE_CHECK L rc k s)"
  unfolding OMPI_ERRHANDLER_CHECK_def OMPI_ERRHANDLER_NOHANDLE_CHECK_def invoke_on_def Let_def
  by (auto intro: traced_invoke)

lemma traced_RETURN [trace_rules]:
  "\<not> null_object obj \<Longrightarrow> running R bs t s \<Longrightarrow> may_return L G B bs t \<Longrightarrow> traced L R G B (OMPI_ERRHANDLER_RETURN L rc obj s)"
  unfolding OMPI_ERRHANDLER_RETURN_def invoke_on_def Let_def by (auto intro: traced_invoke traced_Returned)

lemma traced_INIT_FINALIZE [trace_rules]:
  "lib_ok L \<Longrightarrow> traced L R G B (k s) \<Longrightarrow> traced L R G B (OMPI_ERR_INIT_FINALIZE L k s)"
  by (simp add: OMPI_ERR_INIT_FINALIZE_def lib_ok_def)

lemma traced_if [trace_rules]:
  "(b \<Longrightarrow> traced L R G B (p s)) \<Longrightarrow> (\<not> b \<Longrightarrow> traced L R G B (q s)) \<Longrightarrow> traced L R G B ((if b then p else q) s)"
  by simp

lemma traced_if_outcome [trace_rules]:
  "(b \<Longrightarrow> traced L R G B x) \<Longrightarrow> (\<not> b \<Longrightarrow> traced L R G B y) \<Longrightarrow> traced L R G B (if b then x else y)"
  by simp

lemma traced_with_comm [trace_rules]:
  "comm \<noteq> Comm_NULL \<Longrightarrow> (\<And>c. comm_object L comm = Some c \<Longrightarrow> traced L R G B (k c s)) \<Longrightarrow>
    traced L R G B (with_comm L comm k s)"
  by (cases comm) (simp_all add: with_comm_def)

lemma comm_invalid_null [simp]: "ompi_comm_invalid L Comm_NULL" "ompi_comm_invalid L MPI_COMM_NULL"
  by (simp_all add: ompi_comm_invalid_def)

text \<open>The fault-tolerance checks that end a call.\<close>

definition ft_blocks_p2p :: "mpi_lib \<Rightarrow> comm_handle \<Rightarrow> int \<Rightarrow> bool" where
  "ft_blocks_p2p L comm peer \<longleftrightarrow> ft_mpi L \<and>
     (case comm_object L comm of None \<Rightarrow> False | Some c \<Rightarrow> ompi_comm_iface_p2p_check_proc L c peer \<noteq> None)"

definition ft_blocks_coll :: "mpi_lib \<Rightarrow> comm_handle \<Rightarrow> bool" where
  "ft_blocks_coll L comm \<longleftrightarrow> ft_mpi L \<and>
     (case comm_object L comm of None \<Rightarrow> False | Some c \<Rightarrow> ompi_comm_iface_coll_check c \<noteq> None)"

lemma traced_ft [trace_rules]:
  "comm \<noteq> Comm_NULL \<Longrightarrow> running R bs t s \<Longrightarrow> (ft_blocks_p2p L comm peer \<Longrightarrow> may_return L G B bs t) \<Longrightarrow>
    (\<not> ft_blocks_p2p L comm peer \<Longrightarrow> traced L R G B (k s)) \<Longrightarrow> traced L R G B (ft_p2p L comm peer k s)"
  "comm \<noteq> Comm_NULL \<Longrightarrow> running R bs t s \<Longrightarrow> (ft_blocks_coll L comm \<Longrightarrow> may_return L G B bs t) \<Longrightarrow>
    (\<not> ft_blocks_coll L comm \<Longrightarrow> traced L R G B (k s)) \<Longrightarrow> traced L R G B (ft_coll L comm k s)"
  unfolding ft_p2p_def ft_coll_def ft_blocks_p2p_def ft_blocks_coll_def
  by (auto intro!: traced_with_comm traced_RETURN split: option.splits)

lemma recorded_keeps: "recorded L name ct comm e \<Longrightarrow> keeps_identity e e' \<Longrightarrow> recorded L name ct comm e'"
  by (auto simp: recorded_def keeps_identity_def)

lemma traced_component [trace_rules]:
  assumes "lib_ok L" "running (recorded L name ct comm) bs t s"
    "\<And>rc s'. running (recorded L name ct comm) (bs @ [b]) t s' \<Longrightarrow> traced L (recorded L name ct comm) G B (k rc s')"
  shows "traced L (recorded L name ct comm) G B (component_call L b k s)"
proof -
  obtain rc s' where c: "component L b s = (rc, s')" by fastforce
  then have "keeps_identity (item s) (item s')"
    using assms(1) unfolding lib_ok_def component_ok_def by (metis snd_conv)
  then have "running (recorded L name ct comm) (bs @ [b]) t (s'\<lparr>invoked := invoked s, backend := backend s @ [b], refs := refs s\<rparr>)"
    using assms(2) recorded_keeps by (auto simp: running_def keeps_identity_def)
  then show ?thesis using assms(3) by (simp add: component_call_def c)
qed

lemma recorded_end [simp]: "recorded L name ct comm (e\<lparr>end' := t\<rparr>) = recorded L name ct comm e"
  by (simp add: recorded_def wf_entry_def)

lemma traced_end_event [trace_rules]:
  assumes "running (recorded L name ct comm) bs t s"
    "\<And>s'. running (recorded L name ct comm) bs (t_end L) s' \<Longrightarrow> traced L (recorded L name ct comm) G B (k s')"
  shows "traced L (recorded L name ct comm) G B (end_event L k s)"
  using assms by (simp add: end_event_def running_def)

lemma traced_set_request [trace_rules]:
  assumes "req \<noteq> NULL" "running R bs t s" "\<And>s'. running R bs t s' \<Longrightarrow> traced L R G B (k s')"
  shows "traced L R G B (set_request req r k s)"
  using assms by (simp add: set_request_def running_def)

lemma traced_set_status [trace_rules]:
  assumes "running R bs t s" "\<And>s'. running R bs t s' \<Longrightarrow> traced L R G B (k s')"
  shows "traced L R G B (set_status status src k s)"
  using assms by (simp add: set_status_def running_def)

lemma traced_request_invoke [trace_rules]:
  assumes "running R bs t s" "may_return L G B bs t"
  shows "traced L R G B (ompi_errhandler_request_invoke L s)"
proof -
  have "running R bs t (s\<lparr>request := Request_NULL\<rparr>)" using assms(1) by (simp add: running_def)
  then show ?thesis
    unfolding ompi_errhandler_request_invoke_def Let_def using assms by (auto intro: traced_Returned traced_invoke)
qed

lemma traced_set_item [trace_rules]:
  assumes "running (recorded L name ct comm) bs t s" "\<And>e. keeps_identity e (f e)"
    "\<And>s'. running (recorded L name ct comm) bs t s' \<Longrightarrow> traced L (recorded L name ct comm) G B (k s')"
  shows "traced L (recorded L name ct comm) G B (set_item f k s)"
proof -
  have "end' (f (item s)) = end' (item s)" using assms(2) by (simp add: keeps_identity_def)
  then show ?thesis using assms(1,3) recorded_keeps [OF _ assms(2)] by (simp add: set_item_def running_def)
qed

text \<open>
  The functions of the library that write to the entry of a running call. All the components do to an entry is made of
  them, and each of them keeps the identity of the entry, which is what the contract needs of a component.
\<close>

locale entry_writer =
  fixes upd :: "qentry \<Rightarrow> qentry"
  assumes keeps: "keeps_identity e (upd e)"
begin

lemma recorded_upd: "recorded L name ct comm e \<Longrightarrow> recorded L name ct comm (upd e)"
  using recorded_keeps keeps by blast

lemma component_upd: "component_ok (L\<lparr>component := \<lambda>b s. (rc b, s\<lparr>item := upd (item s)\<rparr>)\<rparr>)"
  using keeps by (simp add: component_ok_def)

end

definition mark_partner :: "nat \<Rightarrow> qentry \<Rightarrow> qentry" where
  "mark_partner v e = (case mark_coll_partner v e of None \<Rightarrow> e | Some e' \<Rightarrow> e')"

interpretation pml_partner: entry_writer "mark_partner v" for v
  by unfold_locales
    (auto simp: mark_partner_def mark_coll_partner_def keeps_identity_def wf_entry_def Let_def split: option.splits if_splits)

interpretation request_done: entry_writer edumpi_request_done
  by unfold_locales (simp add: edumpi_request_done_def keeps_identity_def wf_entry_def)

interpretation request_bytes: entry_writer "\<lambda>e. edumpi_request_done_bytes e n" for n
  by unfold_locales (simp add: edumpi_request_done_bytes_def edumpi_request_done_def keeps_identity_def wf_entry_def)

text \<open>A length argument shorter than the name records the name cut to that length.\<close>

lemma initQentry_item_cut:
  "n \<le> length func \<Longrightarrow>
   initQentry_item v e dest func n sc rc ct m st rt comm bl op =
   initQentry_item v e dest (take n func) n sc rc ct m st rt comm bl op"
  by (simp add: initQentry_item_def memcpy_def)

lemma ascii_take: "ascii (take n s) = take n (ascii s)"
  by (simp add: ascii_def take_map)

lemma begin_event_runs:
  assumes L: "lib_ok L" and s: "fresh_call s"
    and n: "n \<le> length name" "n < 30" "0 \<notin> set (ascii name)" and ct: "length ct < 30" "m = length ct" "0 \<notin> set (ascii ct)"
  shows "\<exists>e. (\<forall>k. begin_event L dest name n sc rc ct m st rt comm bl op k s = k (s\<lparr>item := e\<rparr>)) \<and>
    running (recorded L (take n name) ct comm) [] zero_timespec (s\<lparr>item := e\<rparr>) \<and>
    partnerrank e = edumpi_world_rank comm dest \<and> pending_request e = 0"
proof -
  obtain lc where lc: "item s = zero_entry lc" "invoked s = []" "backend s = []" using s by (auto simp: fresh_call_def)
  have v: "proc_name_length (env L) \<le> length (proc_name (env L))" "proc_name_length (env L) < 30"
    "0 \<notin> set (take (proc_name_length (env L)) (proc_name (env L)))" "2 \<le> length (beyond (env L))"
    using L by (auto simp: lib_ok_def env_ok_def)
  have f: "length (ascii (take n name)) = n" "length (ascii ct) = m" using n(1) ct(2) by simp_all
  have z: "0 \<notin> set (ascii (take n name))" using n(3) unfolding ascii_take by (meson in_set_takeD)
  obtain e where e: "initQentry_item (env L) ((item s)\<lparr>start' := t_start L\<rparr>) dest (ascii (take n name)) n sc rc (ascii ct) m
      (map_option ddt_name st) (map_option ddt_name rt) comm bl (map_option op_name op) = Some e"
    and r: "recorded L (take n name) ct comm e" "end' e = zero_timespec" "partnerrank e = edumpi_world_rank comm dest"
      "pending_request e = 0"
    using initQentry_fresh [of "ascii (take n name)" "ascii ct" "env L" "t_start L" lc dest sc rc
        "map_option ddt_name st" "map_option ddt_name rt" comm bl "map_option op_name op"] n(2) z ct v f
    by (auto simp: initQentry_def recorded_def lc(1))
  have "initQentry_item (env L) ((item s)\<lparr>start' := t_start L\<rparr>) dest (ascii name) n sc rc (ascii ct) m
      (map_option ddt_name st) (map_option ddt_name rt) comm bl (map_option op_name op) = Some e"
    using e n(1) by (subst initQentry_item_cut) (simp_all add: ascii_take)
  then have "begin_event L dest name n sc rc ct m st rt comm bl op k s = k (s\<lparr>item := e\<rparr>)" for k
    by (simp add: begin_event_def)
  moreover have "running (recorded L (take n name) ct comm) [] zero_timespec (s\<lparr>item := e\<rparr>)"
    using r lc by (simp add: running_def)
  ultimately show ?thesis using r by blast
qed

lemma traced_begin_event [trace_rules]:
  assumes "lib_ok L" "fresh_call s" "n \<le> length name" "n < 30" "0 \<notin> set (ascii name)"
    "length ct < 30" "m = length ct" "0 \<notin> set (ascii ct)" "take n name = nm"
    and k: "\<And>s'. running (recorded L nm ct comm) [] zero_timespec s' \<Longrightarrow> traced L (recorded L nm ct comm) G B (k s')"
  shows "traced L (recorded L nm ct comm) G B (begin_event L dest name n sc rc ct m st rt comm bl op k s)"
proof -
  obtain e where "\<forall>k. begin_event L dest name n sc rc ct m st rt comm bl op k s = k (s\<lparr>item := e\<rparr>)"
    "running (recorded L (take n name) ct comm) [] zero_timespec (s\<lparr>item := e\<rparr>)"
    using begin_event_runs [OF assms(1-8)] by blast
  then show ?thesis using k assms(9) by simp
qed

lemma traced_mono: "traced L R G B out \<Longrightarrow> (G \<Longrightarrow> G') \<Longrightarrow> (\<And>bs. B bs \<Longrightarrow> B' bs) \<Longrightarrow> traced L R G' B' out"
  by (auto simp: traced_def split: outcome.splits)

text \<open>A call that made no component call has an entry without an end time, which the monitor takes for unfinished.\<close>

lemma traced_open:
  assumes "traced L R G B (Returned rc s)" and "\<not> B (backend s)"
  shows "\<not> edumpi_amt_entry_complete (item s)" "backend s = []"
  using assms by (auto simp: traced_def edumpi_amt_entry_complete_def zero_timespec_def)

text \<open>The types that pass the checks.\<close>

definition type_usable :: "dtype \<Rightarrow> bool" where
  "type_usable t \<longleftrightarrow> \<not> type_null t \<and> ddt_committed (the t) \<and> ddt_valid (the t)"

lemma null_not_usable [simp]: "type_null t \<Longrightarrow> \<not> type_usable t"
  by (simp add: type_usable_def)

lemma check_types_ok:
  "OMPI_CHECK_DATATYPE_FOR_SEND OMPI_SUCCESS t n = OMPI_SUCCESS \<longleftrightarrow> type_usable t \<and> 0 \<le> n"
  "OMPI_CHECK_DATATYPE_FOR_RECV OMPI_SUCCESS t n = OMPI_SUCCESS \<longleftrightarrow> type_usable t \<and> 0 \<le> n"
  "OMPI_CHECK_DATATYPE_FOR_ONE_SIDED OMPI_SUCCESS t n = OMPI_SUCCESS \<longleftrightarrow> type_usable t \<and> \<not> ddt_overlapped (the t) \<and> 0 \<le> n"
  by (auto simp: OMPI_CHECK_DATATYPE_FOR_SEND_def OMPI_CHECK_DATATYPE_FOR_RECV_def OMPI_CHECK_DATATYPE_FOR_ONE_SIDED_def
      type_usable_def mpi_codes)

section \<open>A concrete library\<close>

definition demo_lib :: mpi_lib where
  "demo_lib = \<lparr>env = demo_env, t_start = \<lparr>tv_sec = 5, tv_nsec = 0\<rparr>, t_end = \<lparr>tv_sec = 6, tv_nsec = 0\<rparr>, param_check = True,
     ft_mpi = False, ompi_instance_count = 1, pml_max_tag = 1000, errcodes_intern = [(- 1, 17)],
     errhandler = (\<lambda>_ c. Some c), proc_active = (\<lambda>_ _. True), null_comm = world demo_env,
     request_error = (\<lambda>_. 0), request_object = (\<lambda>_. No_Object), request_persistent = (\<lambda>_. False), request_complete = (\<lambda>_. False), component = (\<lambda>_ s. (0, s))\<rparr>"

definition demo_call :: call_state where
  "demo_call = \<lparr>item = zero_entry 4, request = Request_NULL, message = Message (world demo_env) 1, status_source = 0,
     invoked = [], backend = [], refs = []\<rparr>"

definition demo_type :: dtype where
  "demo_type = Some \<lparr>ddt_name = MPI_INT, ddt_id = 6, ddt_is_null = False, ddt_committed = True, ddt_overlapped = False, ddt_valid = True,
     ddt_predefined = True, ddt_size = 4, ddt_true_extent = 4, ddt_made_of = None\<rparr>"

definition demo_op :: "op_handle option" where
  "demo_op = Some \<lparr>op_name = MPI_SUM, op_is_null = False, op_no_op = False, op_replace = False, op_intrinsic = True, op_defined = [6]\<rparr>"

lemma demo_lib_ok: "lib_ok demo_lib" "lib_ok (demo_lib\<lparr>component := \<lambda>_ s. (c, s)\<rparr>)" "lib_ok (demo_lib\<lparr>param_check := b\<rparr>)"
  by (simp_all add: lib_ok_def component_ok_def keeps_identity_def env_ok_def demo_lib_def demo_env_def)

lemma demo_fresh: "fresh_call demo_call"
  by (auto simp: fresh_call_def demo_call_def)

end
