(* ===== verification/BindP2P.thy ===== *)
theory BindP2P
  imports Bindings
begin

text \<open>
  The point-to-point bindings of \<^verbatim>\<open>src/ompi/mpi/c\<close>: the blocking, non-blocking and persistent sends and
  receives, \<open>MPI_Sendrecv\<close>, the matched receives and \<open>MPI_Wait\<close>, one definition per file.
\<close>

section \<open>Sends\<close>

definition MPI_Send :: "mpi_lib \<Rightarrow> ptr \<Rightarrow> int \<Rightarrow> dtype \<Rightarrow> int \<Rightarrow> int \<Rightarrow> comm_handle \<Rightarrow> prog" where
  "MPI_Send L buf count type dest tag comm =
     begin_event L dest ''MPI_Send'' 8 0 0 ''p2p'' 3 type None comm 1 None
     (let rest =
        (if MPI_PROC_NULL = dest then Returned MPI_SUCCESS
         else component_call L (''send'', [P buf, N count, T type, N dest, N tag, M MCA_PML_BASE_SEND_STANDARD, C comm])
           (\<lambda>rc. end_event L (OMPI_ERRHANDLER_RETURN L rc (Comm_Object comm)))) in
      if param_check L then OMPI_ERR_INIT_FINALIZE L
        (if ompi_comm_invalid L comm then OMPI_ERRHANDLER_INVOKE L (Comm_Object MPI_COMM_WORLD) MPI_ERR_COMM
         else with_comm L comm (\<lambda>c. OMPI_ERRHANDLER_CHECK L
           (if count < 0 then MPI_ERR_COUNT
            else if tag < 0 \<or> tag > pml_max_tag L then MPI_ERR_TAG
            else if ompi_comm_peer_invalid c dest \<and> MPI_PROC_NULL \<noteq> dest then MPI_ERR_RANK
            else OMPI_CHECK_USER_BUFFER (OMPI_CHECK_DATATYPE_FOR_SEND MPI_SUCCESS type count) buf type count)
           (Comm_Object comm) rest))
      else rest)"

definition MPI_Bsend :: "mpi_lib \<Rightarrow> ptr \<Rightarrow> int \<Rightarrow> dtype \<Rightarrow> int \<Rightarrow> int \<Rightarrow> comm_handle \<Rightarrow> prog" where
  "MPI_Bsend L buf count type dest tag comm =
     begin_event L dest ''MPI_Bsend'' 9 0 0 ''p2p'' 3 type None comm 1 None
     (let rest = ft_p2p L comm dest
        (if MPI_PROC_NULL = dest then Returned MPI_SUCCESS
         else component_call L (''send'', [P buf, N count, T type, N dest, N tag, M MCA_PML_BASE_SEND_BUFFERED, C comm])
           (\<lambda>rc. end_event L (OMPI_ERRHANDLER_RETURN L rc (Comm_Object comm)))) in
      if param_check L then OMPI_ERR_INIT_FINALIZE L
        (if ompi_comm_invalid L comm then OMPI_ERRHANDLER_NOHANDLE_INVOKE L MPI_ERR_COMM
         else with_comm L comm (\<lambda>c. OMPI_ERRHANDLER_CHECK L
           (if count < 0 then MPI_ERR_COUNT
            else if type_null type then MPI_ERR_TYPE
            else if tag < 0 \<or> tag > pml_max_tag L then MPI_ERR_TAG
            else if ompi_comm_peer_invalid c dest \<and> MPI_PROC_NULL \<noteq> dest then MPI_ERR_RANK
            else OMPI_CHECK_USER_BUFFER (OMPI_CHECK_DATATYPE_FOR_SEND MPI_SUCCESS type count) buf type count)
           (Comm_Object comm) rest))
      else rest)"

definition MPI_Ssend :: "mpi_lib \<Rightarrow> ptr \<Rightarrow> int \<Rightarrow> dtype \<Rightarrow> int \<Rightarrow> int \<Rightarrow> comm_handle \<Rightarrow> prog" where
  "MPI_Ssend L buf count type dest tag comm =
     begin_event L dest ''MPI_Ssend'' 9 0 0 ''p2p'' 3 type None comm 1 None
     (let rest = ft_p2p L comm dest
        (if MPI_PROC_NULL = dest then Returned MPI_SUCCESS
         else component_call L (''send'', [P buf, N count, T type, N dest, N tag, M MCA_PML_BASE_SEND_SYNCHRONOUS, C comm])
           (\<lambda>rc. end_event L (OMPI_ERRHANDLER_RETURN L rc (Comm_Object comm)))) in
      if param_check L then OMPI_ERR_INIT_FINALIZE L
        (if ompi_comm_invalid L comm then OMPI_ERRHANDLER_NOHANDLE_INVOKE L MPI_ERR_COMM
         else with_comm L comm (\<lambda>c. OMPI_ERRHANDLER_CHECK L
           (if count < 0 then MPI_ERR_COUNT
            else if type_null type then MPI_ERR_TYPE
            else if tag < 0 \<or> tag > pml_max_tag L then MPI_ERR_TAG
            else if ompi_comm_peer_invalid c dest \<and> MPI_PROC_NULL \<noteq> dest then MPI_ERR_RANK
            else OMPI_CHECK_USER_BUFFER (OMPI_CHECK_DATATYPE_FOR_SEND MPI_SUCCESS type count) buf type count)
           (Comm_Object comm) rest))
      else rest)"

definition MPI_Rsend :: "mpi_lib \<Rightarrow> ptr \<Rightarrow> int \<Rightarrow> dtype \<Rightarrow> int \<Rightarrow> int \<Rightarrow> comm_handle \<Rightarrow> prog" where
  "MPI_Rsend L buf count type dest tag comm =
     begin_event L dest ''MPI_Rsend'' 9 0 0 ''p2p'' 3 type None comm 1 None
     (let rest = ft_p2p L comm dest
        (if MPI_PROC_NULL = dest then Returned MPI_SUCCESS
         else component_call L (''send'', [P buf, N count, T type, N dest, N tag, M MCA_PML_BASE_SEND_READY, C comm])
           (\<lambda>rc. end_event L (OMPI_ERRHANDLER_RETURN L rc (Comm_Object comm)))) in
      if param_check L then OMPI_ERR_INIT_FINALIZE L
        (if ompi_comm_invalid L comm then OMPI_ERRHANDLER_NOHANDLE_INVOKE L MPI_ERR_COMM
         else with_comm L comm (\<lambda>c. OMPI_ERRHANDLER_CHECK L
           (if count < 0 then MPI_ERR_COUNT
            else if type_null type then MPI_ERR_TYPE
            else if tag < 0 \<or> tag > pml_max_tag L then MPI_ERR_TAG
            else if ompi_comm_peer_invalid c dest \<and> MPI_PROC_NULL \<noteq> dest then MPI_ERR_RANK
            else OMPI_CHECK_USER_BUFFER (OMPI_CHECK_DATATYPE_FOR_SEND MPI_SUCCESS type count) buf type count)
           (Comm_Object comm) rest))
      else rest)"

definition MPI_Isend :: "mpi_lib \<Rightarrow> ptr \<Rightarrow> int \<Rightarrow> dtype \<Rightarrow> int \<Rightarrow> int \<Rightarrow> comm_handle \<Rightarrow> ptr \<Rightarrow> prog" where
  "MPI_Isend L buf count type dest tag comm req =
     begin_event L dest ''MPI_Isend'' 9 0 0 ''p2p'' 3 type None comm 0 None
     (set_item (\<lambda>e. e\<lparr>request' := Some req\<rparr>)
     (let rest =
        (if MPI_PROC_NULL = dest then set_request req Request_empty (Returned MPI_SUCCESS)
         else component_call L (''isend'', [P buf, N count, T type, N dest, N tag, M MCA_PML_BASE_SEND_STANDARD, C comm])
           (\<lambda>rc. end_event L (OMPI_ERRHANDLER_RETURN L rc (Comm_Object comm)))) in
      if param_check L then OMPI_ERR_INIT_FINALIZE L
        (if ompi_comm_invalid L comm then OMPI_ERRHANDLER_NOHANDLE_INVOKE L MPI_ERR_COMM
         else with_comm L comm (\<lambda>c. OMPI_ERRHANDLER_CHECK L
           (if count < 0 then MPI_ERR_COUNT
            else if type_null type then MPI_ERR_TYPE
            else if tag < 0 \<or> tag > pml_max_tag L then MPI_ERR_TAG
            else if ompi_comm_peer_invalid c dest \<and> MPI_PROC_NULL \<noteq> dest then MPI_ERR_RANK
            else if req = NULL then MPI_ERR_REQUEST
            else OMPI_CHECK_USER_BUFFER (OMPI_CHECK_DATATYPE_FOR_SEND MPI_SUCCESS type count) buf type count)
           (Comm_Object comm) rest))
      else rest))"

definition MPI_Ibsend :: "mpi_lib \<Rightarrow> ptr \<Rightarrow> int \<Rightarrow> dtype \<Rightarrow> int \<Rightarrow> int \<Rightarrow> comm_handle \<Rightarrow> ptr \<Rightarrow> prog" where
  "MPI_Ibsend L buf count type dest tag comm req =
     begin_event L dest ''MPI_Ibsend'' 10 0 0 ''p2p'' 3 type None comm 0 None
     (let rest =
        (if MPI_PROC_NULL = dest then set_request req Request_empty (Returned MPI_SUCCESS)
         else component_call L (''isend'', [P buf, N count, T type, N dest, N tag, M MCA_PML_BASE_SEND_BUFFERED, C comm])
           (\<lambda>rc. end_event L (OMPI_ERRHANDLER_RETURN L rc (Comm_Object comm)))) in
      if param_check L then OMPI_ERR_INIT_FINALIZE L
        (if ompi_comm_invalid L comm then OMPI_ERRHANDLER_NOHANDLE_INVOKE L MPI_ERR_COMM
         else with_comm L comm (\<lambda>c. OMPI_ERRHANDLER_CHECK L
           (if count < 0 then MPI_ERR_COUNT
            else if tag < 0 \<or> tag > pml_max_tag L then MPI_ERR_TAG
            else if ompi_comm_peer_invalid c dest \<and> MPI_PROC_NULL \<noteq> dest then MPI_ERR_RANK
            else if req = NULL then MPI_ERR_REQUEST
            else OMPI_CHECK_USER_BUFFER (OMPI_CHECK_DATATYPE_FOR_SEND MPI_SUCCESS type count) buf type count)
           (Comm_Object comm) rest))
      else rest)"

definition MPI_Issend :: "mpi_lib \<Rightarrow> ptr \<Rightarrow> int \<Rightarrow> dtype \<Rightarrow> int \<Rightarrow> int \<Rightarrow> comm_handle \<Rightarrow> ptr \<Rightarrow> prog" where
  "MPI_Issend L buf count type dest tag comm req =
     begin_event L dest ''MPI_Issend'' 10 0 0 ''p2p'' 3 type None comm 0 None
     (let rest =
        (if MPI_PROC_NULL = dest then set_request req Request_empty (Returned MPI_SUCCESS)
         else component_call L (''isend'', [P buf, N count, T type, N dest, N tag, M MCA_PML_BASE_SEND_SYNCHRONOUS, C comm])
           (\<lambda>rc. end_event L (OMPI_ERRHANDLER_RETURN L rc (Comm_Object comm)))) in
      if param_check L then OMPI_ERR_INIT_FINALIZE L
        (if ompi_comm_invalid L comm then OMPI_ERRHANDLER_NOHANDLE_INVOKE L MPI_ERR_COMM
         else with_comm L comm (\<lambda>c. OMPI_ERRHANDLER_CHECK L
           (if count < 0 then MPI_ERR_COUNT
            else if tag < 0 \<or> tag > pml_max_tag L then MPI_ERR_TAG
            else if ompi_comm_peer_invalid c dest \<and> MPI_PROC_NULL \<noteq> dest then MPI_ERR_RANK
            else if req = NULL then MPI_ERR_REQUEST
            else OMPI_CHECK_USER_BUFFER (OMPI_CHECK_DATATYPE_FOR_SEND MPI_SUCCESS type count) buf type count)
           (Comm_Object comm) rest))
      else rest)"

definition MPI_Irsend :: "mpi_lib \<Rightarrow> ptr \<Rightarrow> int \<Rightarrow> dtype \<Rightarrow> int \<Rightarrow> int \<Rightarrow> comm_handle \<Rightarrow> ptr \<Rightarrow> prog" where
  "MPI_Irsend L buf count type dest tag comm req =
     begin_event L dest ''MPI_Irsend'' 10 0 0 ''p2p'' 3 type None comm 0 None
     (let rest =
        (if MPI_PROC_NULL = dest then set_request req Request_empty (Returned MPI_SUCCESS)
         else component_call L (''isend'', [P buf, N count, T type, N dest, N tag, M MCA_PML_BASE_SEND_READY, C comm])
           (\<lambda>rc. end_event L (OMPI_ERRHANDLER_RETURN L rc (Comm_Object comm)))) in
      if param_check L then OMPI_ERR_INIT_FINALIZE L
        (if ompi_comm_invalid L comm then OMPI_ERRHANDLER_NOHANDLE_INVOKE L MPI_ERR_COMM
         else with_comm L comm (\<lambda>c. OMPI_ERRHANDLER_CHECK L
           (if count < 0 then MPI_ERR_COUNT
            else if tag < 0 \<or> tag > pml_max_tag L then MPI_ERR_TAG
            else if ompi_comm_peer_invalid c dest \<and> MPI_PROC_NULL \<noteq> dest then MPI_ERR_RANK
            else if req = NULL then MPI_ERR_REQUEST
            else OMPI_CHECK_USER_BUFFER (OMPI_CHECK_DATATYPE_FOR_SEND MPI_SUCCESS type count) buf type count)
           (Comm_Object comm) rest))
      else rest)"

section \<open>Persistent sends\<close>

definition MPI_Send_init :: "mpi_lib \<Rightarrow> ptr \<Rightarrow> int \<Rightarrow> dtype \<Rightarrow> int \<Rightarrow> int \<Rightarrow> comm_handle \<Rightarrow> ptr \<Rightarrow> prog" where
  "MPI_Send_init L buf count type dest tag comm req =
     begin_event L dest ''MPI_Send_init'' 12 0 0 ''p2p'' 3 type None comm 1 None
     (let rest =
        (if MPI_PROC_NULL = dest
         then component_call L (''ompi_request_persistent_noop_create'', [P req])
           (\<lambda>rc. OMPI_ERRHANDLER_RETURN L rc (Comm_Object comm))
         else component_call L (''isend_init'', [P buf, N count, T type, N dest, N tag, M MCA_PML_BASE_SEND_STANDARD, C comm])
           (\<lambda>rc. end_event L (OMPI_ERRHANDLER_RETURN L rc (Comm_Object comm)))) in
      if param_check L then OMPI_ERR_INIT_FINALIZE L
        (if ompi_comm_invalid L comm then OMPI_ERRHANDLER_NOHANDLE_INVOKE L MPI_ERR_COMM
         else with_comm L comm (\<lambda>c. OMPI_ERRHANDLER_CHECK L
           (if count < 0 then MPI_ERR_COUNT
            else if tag < 0 \<or> tag > pml_max_tag L then MPI_ERR_TAG
            else if ompi_comm_peer_invalid c dest \<and> MPI_PROC_NULL \<noteq> dest then MPI_ERR_RANK
            else if req = NULL then MPI_ERR_REQUEST
            else OMPI_CHECK_USER_BUFFER (OMPI_CHECK_DATATYPE_FOR_SEND MPI_SUCCESS type count) buf type count)
           (Comm_Object comm) rest))
      else rest)"

definition MPI_Bsend_init :: "mpi_lib \<Rightarrow> ptr \<Rightarrow> int \<Rightarrow> dtype \<Rightarrow> int \<Rightarrow> int \<Rightarrow> comm_handle \<Rightarrow> ptr \<Rightarrow> prog" where
  "MPI_Bsend_init L buf count type dest tag comm req =
     begin_event L dest ''MPI_Bsend_init'' 13 0 0 ''p2p'' 3 type None comm 1 None
     (let rest =
        (if MPI_PROC_NULL = dest
         then component_call L (''ompi_request_persistent_noop_create'', [P req])
           (\<lambda>rc. OMPI_ERRHANDLER_RETURN L rc (Comm_Object comm))
         else component_call L (''isend_init'', [P buf, N count, T type, N dest, N tag, M MCA_PML_BASE_SEND_BUFFERED, C comm])
           (\<lambda>rc. end_event L (OMPI_ERRHANDLER_RETURN L rc (Comm_Object comm)))) in
      if param_check L then OMPI_ERR_INIT_FINALIZE L
        (if ompi_comm_invalid L comm then OMPI_ERRHANDLER_NOHANDLE_INVOKE L MPI_ERR_COMM
         else with_comm L comm (\<lambda>c. OMPI_ERRHANDLER_CHECK L
           (if count < 0 then MPI_ERR_COUNT
            else if (case type of None \<Rightarrow> False | Some d \<Rightarrow> ddt_is_null d) then MPI_ERR_TYPE
            else if tag < 0 \<or> tag > pml_max_tag L then MPI_ERR_TAG
            else if ompi_comm_peer_invalid c dest \<and> MPI_PROC_NULL \<noteq> dest then MPI_ERR_RANK
            else if req = NULL then MPI_ERR_REQUEST
            else MPI_SUCCESS)
           (Comm_Object comm) rest))
      else rest)"

definition MPI_Rsend_init :: "mpi_lib \<Rightarrow> ptr \<Rightarrow> int \<Rightarrow> dtype \<Rightarrow> int \<Rightarrow> int \<Rightarrow> comm_handle \<Rightarrow> ptr \<Rightarrow> prog" where
  "MPI_Rsend_init L buf count type dest tag comm req =
     begin_event L dest ''MPI_Rsend_Init'' 13 0 0 ''p2p'' 3 type None comm 1 None
     (let rest =
        (if MPI_PROC_NULL = dest
         then component_call L (''ompi_request_persistent_noop_create'', [P req])
           (\<lambda>rc. OMPI_ERRHANDLER_RETURN L rc (Comm_Object comm))
         else component_call L (''isend_init'', [P buf, N count, T type, N dest, N tag, M MCA_PML_BASE_SEND_READY, C comm])
           (\<lambda>rc. end_event L (OMPI_ERRHANDLER_RETURN L rc (Comm_Object comm)))) in
      if param_check L then OMPI_ERR_INIT_FINALIZE L
        (if ompi_comm_invalid L comm then OMPI_ERRHANDLER_NOHANDLE_INVOKE L MPI_ERR_COMM
         else with_comm L comm (\<lambda>c. OMPI_ERRHANDLER_CHECK L
           (if count < 0 then MPI_ERR_COUNT
            else if type_null type then MPI_ERR_TYPE
            else if tag < 0 \<or> tag > pml_max_tag L then MPI_ERR_TAG
            else if ompi_comm_peer_invalid c dest \<and> MPI_PROC_NULL \<noteq> dest then MPI_ERR_RANK
            else if req = NULL then MPI_ERR_REQUEST
            else MPI_SUCCESS)
           (Comm_Object comm) rest))
      else rest)"

definition MPI_Ssend_init :: "mpi_lib \<Rightarrow> ptr \<Rightarrow> int \<Rightarrow> dtype \<Rightarrow> int \<Rightarrow> int \<Rightarrow> comm_handle \<Rightarrow> ptr \<Rightarrow> prog" where
  "MPI_Ssend_init L buf count type dest tag comm req =
     begin_event L dest ''MPI_Ssend_Init'' 13 0 0 ''p2p'' 3 type None comm 1 None
     (let rest =
        (if MPI_PROC_NULL = dest
         then component_call L (''ompi_request_persistent_noop_create'', [P req])
           (\<lambda>rc. OMPI_ERRHANDLER_RETURN L rc (Comm_Object comm))
         else component_call L (''isend_init'', [P buf, N count, T type, N dest, N tag, M MCA_PML_BASE_SEND_SYNCHRONOUS, C comm])
           (\<lambda>rc. end_event L (OMPI_ERRHANDLER_RETURN L rc (Comm_Object comm)))) in
      if param_check L then OMPI_ERR_INIT_FINALIZE L
        (if ompi_comm_invalid L comm then OMPI_ERRHANDLER_NOHANDLE_INVOKE L MPI_ERR_COMM
         else with_comm L comm (\<lambda>c. OMPI_ERRHANDLER_CHECK L
           (if count < 0 then MPI_ERR_COUNT
            else if type_null type then MPI_ERR_TYPE
            else if tag < 0 \<or> tag > pml_max_tag L then MPI_ERR_TAG
            else if ompi_comm_peer_invalid c dest \<and> MPI_PROC_NULL \<noteq> dest then MPI_ERR_RANK
            else if req = NULL then MPI_ERR_REQUEST
            else MPI_SUCCESS)
           (Comm_Object comm) rest))
      else rest)"

section \<open>Receives\<close>

definition MPI_Recv :: "mpi_lib \<Rightarrow> ptr \<Rightarrow> int \<Rightarrow> dtype \<Rightarrow> int \<Rightarrow> int \<Rightarrow> comm_handle \<Rightarrow> ptr \<Rightarrow> prog" where
  "MPI_Recv L buf count type source tag comm status =
     begin_event L source ''MPI_Recv'' 8 0 0 ''p2p'' 3 None type comm 1 None
     (let rest =
        (if MPI_PROC_NULL = source then set_status status MPI_PROC_NULL (Returned MPI_SUCCESS)
         else component_call L (''recv'', [P buf, N count, T type, N source, N tag, C comm, P status])
           (\<lambda>rc s. if partnerrank (item s) = - 1 \<and> status = NULL then Undefined
             else set_item (\<lambda>e. if partnerrank e = - 1
                 then e\<lparr>partnerrank := edumpi_world_rank comm (status_source s)\<rparr> else e)
               (end_event L (OMPI_ERRHANDLER_RETURN L rc (Comm_Object comm))) s)) in
      if param_check L then OMPI_ERR_INIT_FINALIZE L
        (let rc = OMPI_CHECK_USER_BUFFER (OMPI_CHECK_DATATYPE_FOR_RECV MPI_SUCCESS type count) buf type count in
         if ompi_comm_invalid L comm then OMPI_ERRHANDLER_INVOKE L (Comm_Object MPI_COMM_WORLD) MPI_ERR_COMM
         else with_comm L comm (\<lambda>c. OMPI_ERRHANDLER_CHECK L
           (if tag < 0 \<and> tag \<noteq> MPI_ANY_TAG \<or> tag > pml_max_tag L then MPI_ERR_TAG
            else if source \<noteq> MPI_ANY_SOURCE \<and> MPI_PROC_NULL \<noteq> source \<and> ompi_comm_peer_invalid c source then MPI_ERR_RANK
            else rc)
           (Comm_Object comm) rest))
      else rest)"

definition MPI_Irecv :: "mpi_lib \<Rightarrow> ptr \<Rightarrow> int \<Rightarrow> dtype \<Rightarrow> int \<Rightarrow> int \<Rightarrow> comm_handle \<Rightarrow> ptr \<Rightarrow> prog" where
  "MPI_Irecv L buf count type source tag comm req =
     begin_event L source ''MPI_Irecv'' 9 0 0 ''p2p'' 3 None type comm 0 None
     (set_item (\<lambda>e. e\<lparr>request' := Some req, pending_request := (if MPI_PROC_NULL \<noteq> source then 1 else pending_request e)\<rparr>)
     (let rest =
        (if source = MPI_PROC_NULL then set_request req Request_empty (Returned MPI_SUCCESS)
         else component_call L (''irecv'', [P buf, N count, T type, N source, N tag, C comm])
           (\<lambda>rc. set_item (\<lambda>e. if MPI_SUCCESS \<noteq> rc then e\<lparr>pending_request := 0\<rparr> else e)
             (end_event L (OMPI_ERRHANDLER_RETURN L rc (Comm_Object comm))))) in
      if param_check L then OMPI_ERR_INIT_FINALIZE L
        (let rc = OMPI_CHECK_USER_BUFFER (OMPI_CHECK_DATATYPE_FOR_RECV MPI_SUCCESS type count) buf type count in
         if ompi_comm_invalid L comm then OMPI_ERRHANDLER_NOHANDLE_INVOKE L MPI_ERR_COMM
         else with_comm L comm (\<lambda>c. OMPI_ERRHANDLER_CHECK L
           (if tag < 0 \<and> tag \<noteq> MPI_ANY_TAG \<or> tag > pml_max_tag L then MPI_ERR_TAG
            else if MPI_ANY_SOURCE \<noteq> source \<and> MPI_PROC_NULL \<noteq> source \<and> ompi_comm_peer_invalid c source then MPI_ERR_RANK
            else if req = NULL then MPI_ERR_REQUEST
            else rc)
           (Comm_Object comm) rest))
      else rest))"

definition MPI_Recv_init :: "mpi_lib \<Rightarrow> ptr \<Rightarrow> int \<Rightarrow> dtype \<Rightarrow> int \<Rightarrow> int \<Rightarrow> comm_handle \<Rightarrow> ptr \<Rightarrow> prog" where
  "MPI_Recv_init L buf count type source tag comm req =
     begin_event L source ''MPI_Irecv_Init'' 14 0 0 ''p2p'' 3 None type comm 0 None
     (let rest =
        (if MPI_PROC_NULL = source
         then component_call L (''ompi_request_persistent_noop_create'', [P req])
           (\<lambda>rc. OMPI_ERRHANDLER_RETURN L rc (Comm_Object comm))
         else component_call L (''irecv_init'', [P buf, N count, T type, N source, N tag, C comm])
           (\<lambda>rc. end_event L (OMPI_ERRHANDLER_RETURN L rc (Comm_Object comm)))) in
      if param_check L then OMPI_ERR_INIT_FINALIZE L
        (let rc = OMPI_CHECK_USER_BUFFER (OMPI_CHECK_DATATYPE_FOR_RECV MPI_SUCCESS type count) buf type count in
         if ompi_comm_invalid L comm then OMPI_ERRHANDLER_NOHANDLE_INVOKE L MPI_ERR_COMM
         else with_comm L comm (\<lambda>c. OMPI_ERRHANDLER_CHECK L
           (if tag < 0 \<and> tag \<noteq> MPI_ANY_TAG \<or> tag > pml_max_tag L then MPI_ERR_TAG
            else if source \<noteq> MPI_ANY_SOURCE \<and> MPI_PROC_NULL \<noteq> source \<and> ompi_comm_peer_invalid c source then MPI_ERR_RANK
            else if req = NULL then MPI_ERR_REQUEST
            else rc)
           (Comm_Object comm) rest))
      else rest)"

section \<open>Combined and matched operations, completion\<close>

text \<open>\<open>MPI_Sendrecv\<close>: the local request \<^verbatim>\<open>req\<close> is set by the posted receive only.\<close>

definition MPI_Sendrecv ::
  "mpi_lib \<Rightarrow> ptr \<Rightarrow> int \<Rightarrow> dtype \<Rightarrow> int \<Rightarrow> int \<Rightarrow> ptr \<Rightarrow> int \<Rightarrow> dtype \<Rightarrow> int \<Rightarrow> int \<Rightarrow> comm_handle \<Rightarrow> ptr \<Rightarrow> prog" where
  "MPI_Sendrecv L sendbuf scount sendtype dest sendtag recvbuf rcount recvtype source recvtag comm status =
     begin_event L dest ''MPI_Sendrecv'' 12 0 0 ''p2p'' 3 sendtype recvtype comm 1 None
     (let finish = (\<lambda>rcs rc. end_event L
            (OMPI_ERRHANDLER_RETURN L (if MPI_SUCCESS \<noteq> rcs \<and> MPI_SUCCESS = rc then rcs else rc) (Comm_Object comm)));
          wait = (\<lambda>rcs.
            if source \<noteq> MPI_PROC_NULL then component_call L (''ompi_request_wait'', [P status])
              (\<lambda>rc. if ft_mpi L \<and> MPI_ERR_PROC_FAILED_PENDING = rc
                then component_call L (''ompi_request_cancel'', []) (\<lambda>_.
                  component_call L (''ompi_request_wait'', [P NULL]) (\<lambda>_. finish rcs MPI_ERR_PROC_FAILED))
                else finish rcs rc)
            else set_status status MPI_PROC_NULL (finish rcs MPI_SUCCESS));
          send =
            (if dest \<noteq> MPI_PROC_NULL then
               component_call L (''send'', [P sendbuf, N scount, T sendtype, N dest, N sendtag, M MCA_PML_BASE_SEND_STANDARD, C comm])
               (\<lambda>rcs. if MPI_SUCCESS = rcs then wait MPI_SUCCESS
                 else if ft_mpi L \<and> MPI_ERR_PROC_FAILED = rcs then wait rcs
                 else if source = MPI_PROC_NULL then (\<lambda>_. Undefined)
                 else component_call L (''ompi_request_cancel'', []) (\<lambda>_. wait rcs))
             else wait MPI_SUCCESS);
          rest =
            (if source \<noteq> MPI_PROC_NULL then
               component_call L (''irecv'', [P recvbuf, N rcount, T recvtype, N source, N recvtag, C comm])
               (\<lambda>rc. OMPI_ERRHANDLER_CHECK L rc (Comm_Object comm) send)
             else send) in
      if param_check L then OMPI_ERR_INIT_FINALIZE L
        (let rc = OMPI_CHECK_DATATYPE_FOR_RECV (OMPI_CHECK_DATATYPE_FOR_SEND MPI_SUCCESS sendtype scount) recvtype rcount;
             rc = OMPI_CHECK_USER_BUFFER (OMPI_CHECK_USER_BUFFER rc sendbuf sendtype scount) recvbuf recvtype rcount in
         if ompi_comm_invalid L comm then OMPI_ERRHANDLER_NOHANDLE_INVOKE L MPI_ERR_COMM
         else with_comm L comm (\<lambda>c. OMPI_ERRHANDLER_CHECK L
           (if dest \<noteq> MPI_PROC_NULL \<and> ompi_comm_peer_invalid c dest then MPI_ERR_RANK
            else if sendtag < 0 \<or> sendtag > pml_max_tag L then MPI_ERR_TAG
            else if source \<noteq> MPI_PROC_NULL \<and> source \<noteq> MPI_ANY_SOURCE \<and> ompi_comm_peer_invalid c source then MPI_ERR_RANK
            else if recvtag < 0 \<and> recvtag \<noteq> MPI_ANY_TAG \<or> recvtag > pml_max_tag L then MPI_ERR_TAG
            else rc)
           (Comm_Object comm) rest))
      else rest)"

text \<open>The communicator of a matched message; \<^verbatim>\<open>MPI_MESSAGE_NULL\<close> is a null pointer.\<close>

fun message_comm :: "mpi_message \<Rightarrow> comm_handle option" where
  "message_comm Message_NULL = None"
| "message_comm (Message_no_proc c) = Some (Comm c)"
| "message_comm (Message c _) = Some (Comm c)"

lemma message_comm_not_null [simp]: "m \<noteq> Message_NULL \<Longrightarrow> the (message_comm m) \<noteq> Comm_NULL"
  by (cases m) simp_all

definition no_proc_message :: "mpi_message \<Rightarrow> bool" where
  "no_proc_message m \<longleftrightarrow> (case m of Message_no_proc _ \<Rightarrow> True | _ \<Rightarrow> False)"

text \<open>\<^verbatim>\<open>comm\<close>, from the checks on the message pointer \<open>msg\<close> and \<^verbatim>\<open>*message\<close>.\<close>

definition with_message :: "mpi_lib \<Rightarrow> ptr \<Rightarrow> int \<Rightarrow> (comm_handle \<Rightarrow> prog) \<Rightarrow> prog" where
  "with_message L msg rc k s =
     (if param_check L then OMPI_ERR_INIT_FINALIZE L
        (if msg = NULL \<or> message s = Message_NULL
         then OMPI_ERRHANDLER_CHECK L MPI_ERR_REQUEST (Comm_Object MPI_COMM_NULL) (k MPI_COMM_NULL)
         else OMPI_ERRHANDLER_CHECK L rc (Comm_Object (the (message_comm (message s)))) (k (the (message_comm (message s))))) s
      else if msg = NULL \<or> message s = Message_NULL then Undefined
      else k (the (message_comm (message s))) s)"

definition MPI_Mrecv :: "mpi_lib \<Rightarrow> ptr \<Rightarrow> int \<Rightarrow> dtype \<Rightarrow> ptr \<Rightarrow> ptr \<Rightarrow> prog" where
  "MPI_Mrecv L buf count type msg status =
     begin_event L (- 1) ''MPI_Mrecv'' 9 0 0 ''p2p'' 3 None type Comm_NULL 1 None
     (with_message L msg (OMPI_CHECK_USER_BUFFER (OMPI_CHECK_DATATYPE_FOR_RECV MPI_SUCCESS type count) buf type count)
       (\<lambda>comm s.
         (if no_proc_message (message s)
          then set_status status MPI_PROC_NULL (\<lambda>s. Returned MPI_SUCCESS (s\<lparr>message := Message_NULL\<rparr>))
          else component_call L (''mrecv'', [P buf, N count, T type, P msg, P status])
            (\<lambda>rc. end_event L (OMPI_ERRHANDLER_RETURN L rc (Comm_Object comm)))) s))"

definition MPI_Imrecv :: "mpi_lib \<Rightarrow> ptr \<Rightarrow> int \<Rightarrow> dtype \<Rightarrow> ptr \<Rightarrow> ptr \<Rightarrow> prog" where
  "MPI_Imrecv L buf count type msg req =
     begin_event L (- 1) ''MPI_Imrecv'' 10 0 0 ''p2p'' 3 type None Comm_NULL 0 None
     (with_message L msg (OMPI_CHECK_USER_BUFFER (OMPI_CHECK_DATATYPE_FOR_RECV MPI_SUCCESS type count) buf type count)
       (\<lambda>comm s.
         (if no_proc_message (message s)
          then set_request req Request_empty (\<lambda>s. Returned MPI_SUCCESS (s\<lparr>message := Message_NULL\<rparr>))
          else component_call L (''imrecv'', [P buf, N count, T type, P msg])
            (\<lambda>rc. end_event L (OMPI_ERRHANDLER_RETURN L rc (Comm_Object comm)))) s))"

definition MPI_Wait :: "mpi_lib \<Rightarrow> ptr \<Rightarrow> ptr \<Rightarrow> prog" where
  "MPI_Wait L req status =
     begin_event L (- 1) ''MPI_Wait'' 8 0 0 ''p2p'' 3 None None Comm_NULL 1 None
     (let rest = (\<lambda>s.
        if req = NULL then Undefined
        else if request s = Request_NULL
        then set_status status MPI_ANY_SOURCE (end_event L (Returned MPI_SUCCESS)) s
        else component_call L (''ompi_request_wait'', [P status])
          (\<lambda>rc. end_event L (if OMPI_SUCCESS = rc then Returned MPI_SUCCESS else ompi_errhandler_request_invoke L)) s) in
      if param_check L then OMPI_ERR_INIT_FINALIZE L
        (OMPI_ERRHANDLER_NOHANDLE_CHECK L (if req = NULL then MPI_ERR_REQUEST else MPI_SUCCESS) rest)
      else rest)"

section \<open>Contracts\<close>

definition buffer_usable :: "ptr \<Rightarrow> dtype \<Rightarrow> int \<Rightarrow> bool" where
  "buffer_usable buf t count \<longleftrightarrow>
     \<not> (buf = NULL \<and> 0 < count \<and> (ddt_predefined (the t) \<or> 0 < ddt_size (the t) \<and> ddt_true_extent (the t) = 0))"

text \<open>A handle, peer and tag a message can be sent to, and received from.\<close>

definition peer_ok :: "mpi_lib \<Rightarrow> comm_handle \<Rightarrow> int \<Rightarrow> bool" where
  "peer_ok L comm peer \<longleftrightarrow> \<not> ompi_comm_invalid L comm \<and> \<not> ompi_comm_peer_invalid (the (comm_object L comm)) peer"

lemma check_send_ok:
  "OMPI_CHECK_USER_BUFFER (OMPI_CHECK_DATATYPE_FOR_SEND OMPI_SUCCESS t count) buf t count = OMPI_SUCCESS \<longleftrightarrow>
   type_usable t \<and> 0 \<le> count \<and> buffer_usable buf t count"
  by (auto simp: OMPI_CHECK_USER_BUFFER_def OMPI_CHECK_DATATYPE_FOR_SEND_def type_usable_def buffer_usable_def mpi_codes)

lemma check_recv_ok:
  "OMPI_CHECK_USER_BUFFER (OMPI_CHECK_DATATYPE_FOR_RECV OMPI_SUCCESS t count) buf t count = OMPI_SUCCESS \<longleftrightarrow>
   type_usable t \<and> 0 \<le> count \<and> buffer_usable buf t count"
  by (auto simp: OMPI_CHECK_USER_BUFFER_def OMPI_CHECK_DATATYPE_FOR_RECV_def type_usable_def buffer_usable_def mpi_codes)

lemmas valid_simps = success_codes check_send_ok check_recv_ok peer_ok_def

text \<open>The arguments a send needs to reach the PML: a real peer, and all of them valid if they are checked.\<close>

definition send_valid :: "mpi_lib \<Rightarrow> ptr \<Rightarrow> int \<Rightarrow> dtype \<Rightarrow> int \<Rightarrow> int \<Rightarrow> comm_handle \<Rightarrow> bool" where
  "send_valid L buf count type dest tag comm \<longleftrightarrow> dest \<noteq> MPI_PROC_NULL \<and>
     (param_check L \<longrightarrow> peer_ok L comm dest \<and> 0 \<le> tag \<and> tag \<le> pml_max_tag L \<and>
        type_usable type \<and> 0 \<le> count \<and> buffer_usable buf type count)"

text \<open>The one call it then makes, with the caller's arguments.\<close>

definition send_call :: "string \<Rightarrow> send_mode \<Rightarrow> ptr \<Rightarrow> int \<Rightarrow> dtype \<Rightarrow> int \<Rightarrow> int \<Rightarrow> comm_handle \<Rightarrow> backend_call" where
  "send_call op mode buf count type dest tag comm = (op, [P buf, N count, T type, N dest, N tag, M mode, C comm])"

definition blocking_sends ::
  "(string \<times> send_mode \<times> (mpi_lib \<Rightarrow> ptr \<Rightarrow> int \<Rightarrow> dtype \<Rightarrow> int \<Rightarrow> int \<Rightarrow> comm_handle \<Rightarrow> prog)) list" where
  "blocking_sends =
     [(''MPI_Send'', MCA_PML_BASE_SEND_STANDARD, MPI_Send), (''MPI_Bsend'', MCA_PML_BASE_SEND_BUFFERED, MPI_Bsend),
      (''MPI_Ssend'', MCA_PML_BASE_SEND_SYNCHRONOUS, MPI_Ssend), (''MPI_Rsend'', MCA_PML_BASE_SEND_READY, MPI_Rsend)]"

definition nonblocking_sends ::
  "(string \<times> send_mode \<times> (mpi_lib \<Rightarrow> ptr \<Rightarrow> int \<Rightarrow> dtype \<Rightarrow> int \<Rightarrow> int \<Rightarrow> comm_handle \<Rightarrow> ptr \<Rightarrow> prog)) list" where
  "nonblocking_sends =
     [(''MPI_Isend'', MCA_PML_BASE_SEND_STANDARD, MPI_Isend), (''MPI_Ibsend'', MCA_PML_BASE_SEND_BUFFERED, MPI_Ibsend),
      (''MPI_Issend'', MCA_PML_BASE_SEND_SYNCHRONOUS, MPI_Issend), (''MPI_Irsend'', MCA_PML_BASE_SEND_READY, MPI_Irsend)]"

lemma keeps_request [simp]: "keeps_identity e (e\<lparr>request' := x, pending_request := y\<rparr>)"
  "keeps_identity e (e\<lparr>request' := x\<rparr>)" "keeps_identity e (e\<lparr>pending_request := y\<rparr>)"
  "keeps_identity e (e\<lparr>partnerrank := z\<rparr>)" "keeps_identity e e"
  by (simp_all add: keeps_identity_def wf_entry_def)

lemma MPI_Send_traced:
  assumes "lib_ok L" "fresh_call s" "param_check L \<or> comm \<noteq> Comm_NULL"
  shows "traced L (recorded L ''MPI_Send'' ''p2p'' comm) (\<not> send_valid L buf count type dest tag comm \<or> ft_blocks_p2p L comm dest)
    (\<lambda>bs. bs = [send_call ''send'' MCA_PML_BASE_SEND_STANDARD buf count type dest tag comm] \<and> send_valid L buf count type dest tag comm)
    (MPI_Send L buf count type dest tag comm s)"
  unfolding MPI_Send_def Let_def using assms
  by - (rule trace_rules | assumption | (auto simp: send_call_def send_valid_def valid_simps split: if_splits; fail))+

lemma MPI_Bsend_traced:
  assumes "lib_ok L" "fresh_call s" "param_check L \<or> comm \<noteq> Comm_NULL"
  shows "traced L (recorded L ''MPI_Bsend'' ''p2p'' comm) (\<not> send_valid L buf count type dest tag comm \<or> ft_blocks_p2p L comm dest)
    (\<lambda>bs. bs = [send_call ''send'' MCA_PML_BASE_SEND_BUFFERED buf count type dest tag comm] \<and> send_valid L buf count type dest tag comm)
    (MPI_Bsend L buf count type dest tag comm s)"
  unfolding MPI_Bsend_def Let_def using assms
  by - (rule trace_rules | assumption | (auto simp: send_call_def send_valid_def valid_simps split: if_splits; fail))+

lemma MPI_Ssend_traced:
  assumes "lib_ok L" "fresh_call s" "param_check L \<or> comm \<noteq> Comm_NULL"
  shows "traced L (recorded L ''MPI_Ssend'' ''p2p'' comm) (\<not> send_valid L buf count type dest tag comm \<or> ft_blocks_p2p L comm dest)
    (\<lambda>bs. bs = [send_call ''send'' MCA_PML_BASE_SEND_SYNCHRONOUS buf count type dest tag comm] \<and> send_valid L buf count type dest tag comm)
    (MPI_Ssend L buf count type dest tag comm s)"
  unfolding MPI_Ssend_def Let_def using assms
  by - (rule trace_rules | assumption | (auto simp: send_call_def send_valid_def valid_simps split: if_splits; fail))+

lemma MPI_Rsend_traced:
  assumes "lib_ok L" "fresh_call s" "param_check L \<or> comm \<noteq> Comm_NULL"
  shows "traced L (recorded L ''MPI_Rsend'' ''p2p'' comm) (\<not> send_valid L buf count type dest tag comm \<or> ft_blocks_p2p L comm dest)
    (\<lambda>bs. bs = [send_call ''send'' MCA_PML_BASE_SEND_READY buf count type dest tag comm] \<and> send_valid L buf count type dest tag comm)
    (MPI_Rsend L buf count type dest tag comm s)"
  unfolding MPI_Rsend_def Let_def using assms
  by - (rule trace_rules | assumption | (auto simp: send_call_def send_valid_def valid_simps split: if_splits; fail))+

lemma MPI_Isend_traced:
  assumes "lib_ok L" "fresh_call s" "param_check L \<or> comm \<noteq> Comm_NULL \<and> req \<noteq> NULL"
  shows "traced L (recorded L ''MPI_Isend'' ''p2p'' comm) (\<not> (send_valid L buf count type dest tag comm \<and> (param_check L \<longrightarrow> req \<noteq> NULL)))
    (\<lambda>bs. bs = [send_call ''isend'' MCA_PML_BASE_SEND_STANDARD buf count type dest tag comm] \<and>
      send_valid L buf count type dest tag comm \<and> (param_check L \<longrightarrow> req \<noteq> NULL))
    (MPI_Isend L buf count type dest tag comm req s)"
  unfolding MPI_Isend_def Let_def using assms
  by - (rule trace_rules | assumption | (auto simp: send_call_def send_valid_def valid_simps split: if_splits; fail))+

lemma MPI_Ibsend_traced:
  assumes "lib_ok L" "fresh_call s" "param_check L \<or> comm \<noteq> Comm_NULL \<and> req \<noteq> NULL"
  shows "traced L (recorded L ''MPI_Ibsend'' ''p2p'' comm) (\<not> (send_valid L buf count type dest tag comm \<and> (param_check L \<longrightarrow> req \<noteq> NULL)))
    (\<lambda>bs. bs = [send_call ''isend'' MCA_PML_BASE_SEND_BUFFERED buf count type dest tag comm] \<and>
      send_valid L buf count type dest tag comm \<and> (param_check L \<longrightarrow> req \<noteq> NULL))
    (MPI_Ibsend L buf count type dest tag comm req s)"
  unfolding MPI_Ibsend_def Let_def using assms
  by - (rule trace_rules | assumption | (auto simp: send_call_def send_valid_def valid_simps split: if_splits; fail))+

lemma MPI_Issend_traced:
  assumes "lib_ok L" "fresh_call s" "param_check L \<or> comm \<noteq> Comm_NULL \<and> req \<noteq> NULL"
  shows "traced L (recorded L ''MPI_Issend'' ''p2p'' comm) (\<not> (send_valid L buf count type dest tag comm \<and> (param_check L \<longrightarrow> req \<noteq> NULL)))
    (\<lambda>bs. bs = [send_call ''isend'' MCA_PML_BASE_SEND_SYNCHRONOUS buf count type dest tag comm] \<and>
      send_valid L buf count type dest tag comm \<and> (param_check L \<longrightarrow> req \<noteq> NULL))
    (MPI_Issend L buf count type dest tag comm req s)"
  unfolding MPI_Issend_def Let_def using assms
  by - (rule trace_rules | assumption | (auto simp: send_call_def send_valid_def valid_simps split: if_splits; fail))+

lemma MPI_Irsend_traced:
  assumes "lib_ok L" "fresh_call s" "param_check L \<or> comm \<noteq> Comm_NULL \<and> req \<noteq> NULL"
  shows "traced L (recorded L ''MPI_Irsend'' ''p2p'' comm) (\<not> (send_valid L buf count type dest tag comm \<and> (param_check L \<longrightarrow> req \<noteq> NULL)))
    (\<lambda>bs. bs = [send_call ''isend'' MCA_PML_BASE_SEND_READY buf count type dest tag comm] \<and>
      send_valid L buf count type dest tag comm \<and> (param_check L \<longrightarrow> req \<noteq> NULL))
    (MPI_Irsend L buf count type dest tag comm req s)"
  unfolding MPI_Irsend_def Let_def using assms
  by - (rule trace_rules | assumption | (auto simp: send_call_def send_valid_def valid_simps split: if_splits; fail))+

text \<open>The same for a receive.\<close>

definition recv_valid :: "mpi_lib \<Rightarrow> ptr \<Rightarrow> int \<Rightarrow> dtype \<Rightarrow> int \<Rightarrow> int \<Rightarrow> comm_handle \<Rightarrow> bool" where
  "recv_valid L buf count type source tag comm \<longleftrightarrow> source \<noteq> MPI_PROC_NULL \<and>
     (param_check L \<longrightarrow> \<not> ompi_comm_invalid L comm \<and> (source = MPI_ANY_SOURCE \<or> peer_ok L comm source) \<and>
        (tag = MPI_ANY_TAG \<or> 0 \<le> tag) \<and> tag \<le> pml_max_tag L \<and>
        type_usable type \<and> 0 \<le> count \<and> buffer_usable buf type count)"

definition recv_call :: "string \<Rightarrow> ptr \<Rightarrow> int \<Rightarrow> dtype \<Rightarrow> int \<Rightarrow> int \<Rightarrow> comm_handle \<Rightarrow> arg list \<Rightarrow> backend_call" where
  "recv_call op buf count type source tag comm extra = (op, [P buf, N count, T type, N source, N tag, C comm] @ extra)"

lemma traced_recv_partner:
  assumes "status \<noteq> NULL" "running (recorded L name ct comm') bs t s"
    "\<And>s'. running (recorded L name ct comm') bs t s' \<Longrightarrow> traced L (recorded L name ct comm') G B (k s')"
  shows "traced L (recorded L name ct comm') G B
    (if partnerrank (item s) = - 1 \<and> status = NULL then Undefined
     else set_item (\<lambda>e. if partnerrank e = - 1 then e\<lparr>partnerrank := x s\<rparr> else e) k s)"
  using assms by (auto intro!: traced_set_item)

lemma MPI_Recv_traced:
  assumes "lib_ok L" "fresh_call s" "param_check L \<or> comm \<noteq> Comm_NULL" "status \<noteq> NULL"
  shows "traced L (recorded L ''MPI_Recv'' ''p2p'' comm) (\<not> recv_valid L buf count type source tag comm)
    (\<lambda>bs. bs = [recv_call ''recv'' buf count type source tag comm [P status]] \<and> recv_valid L buf count type source tag comm)
    (MPI_Recv L buf count type source tag comm status s)"
  unfolding MPI_Recv_def Let_def using assms
  by - (rule trace_rules traced_recv_partner | assumption
    | (auto simp: recv_call_def recv_valid_def MPI_ANY_TAG_def MPI_ANY_SOURCE_def MPI_PROC_NULL_def valid_simps split: if_splits; fail))+

lemma MPI_Irecv_traced:
  assumes "lib_ok L" "fresh_call s" "param_check L \<or> comm \<noteq> Comm_NULL \<and> req \<noteq> NULL"
  shows "traced L (recorded L ''MPI_Irecv'' ''p2p'' comm)
    (\<not> (recv_valid L buf count type source tag comm \<and> (param_check L \<longrightarrow> req \<noteq> NULL)))
    (\<lambda>bs. bs = [recv_call ''irecv'' buf count type source tag comm []] \<and>
      recv_valid L buf count type source tag comm \<and> (param_check L \<longrightarrow> req \<noteq> NULL))
    (MPI_Irecv L buf count type source tag comm req s)"
  unfolding MPI_Irecv_def Let_def using assms
  by - (rule trace_rules | assumption
    | (auto simp: recv_call_def recv_valid_def MPI_ANY_TAG_def MPI_ANY_SOURCE_def MPI_PROC_NULL_def valid_simps split: if_splits; fail))+

lemma MPI_Recv_init_traced:
  assumes "lib_ok L" "fresh_call s" "param_check L \<or> comm \<noteq> Comm_NULL" "source \<noteq> MPI_PROC_NULL"
  shows "traced L (recorded L ''MPI_Irecv_Init'' ''p2p'' comm)
    (\<not> (recv_valid L buf count type source tag comm \<and> (param_check L \<longrightarrow> req \<noteq> NULL)))
    (\<lambda>bs. bs = [recv_call ''irecv_init'' buf count type source tag comm []] \<and> recv_valid L buf count type source tag comm)
    (MPI_Recv_init L buf count type source tag comm req s)"
  unfolding MPI_Recv_init_def Let_def using assms
  by - (rule trace_rules | assumption
    | (auto simp: recv_call_def recv_valid_def MPI_ANY_TAG_def MPI_ANY_SOURCE_def MPI_PROC_NULL_def valid_simps split: if_splits; fail))+

lemma MPI_Send_init_traced:
  assumes "lib_ok L" "fresh_call s" "param_check L \<or> comm \<noteq> Comm_NULL" "dest \<noteq> MPI_PROC_NULL"
  shows "traced L (recorded L ''MPI_Send_ini'' ''p2p'' comm)
    (\<not> (send_valid L buf count type dest tag comm \<and> (param_check L \<longrightarrow> req \<noteq> NULL)))
    (\<lambda>bs. bs = [send_call ''isend_init'' MCA_PML_BASE_SEND_STANDARD buf count type dest tag comm])
    (MPI_Send_init L buf count type dest tag comm req s)"
  unfolding MPI_Send_init_def Let_def using assms
  by - (rule trace_rules | assumption
    | (auto simp: send_call_def send_valid_def type_usable_def type_null_def valid_simps split: if_splits option.splits; fail))+

lemma MPI_Bsend_init_traced:
  assumes "lib_ok L" "fresh_call s" "param_check L \<or> comm \<noteq> Comm_NULL" "dest \<noteq> MPI_PROC_NULL"
  shows "traced L (recorded L ''MPI_Bsend_ini'' ''p2p'' comm)
    (\<not> (send_valid L buf count type dest tag comm \<and> (param_check L \<longrightarrow> req \<noteq> NULL)))
    (\<lambda>bs. bs = [send_call ''isend_init'' MCA_PML_BASE_SEND_BUFFERED buf count type dest tag comm])
    (MPI_Bsend_init L buf count type dest tag comm req s)"
  unfolding MPI_Bsend_init_def Let_def using assms
  by - (rule trace_rules | assumption
    | (auto simp: send_call_def send_valid_def type_usable_def type_null_def valid_simps split: if_splits option.splits; fail))+

lemma MPI_Rsend_init_traced:
  assumes "lib_ok L" "fresh_call s" "param_check L \<or> comm \<noteq> Comm_NULL" "dest \<noteq> MPI_PROC_NULL"
  shows "traced L (recorded L ''MPI_Rsend_Ini'' ''p2p'' comm)
    (\<not> (send_valid L buf count type dest tag comm \<and> (param_check L \<longrightarrow> req \<noteq> NULL)))
    (\<lambda>bs. bs = [send_call ''isend_init'' MCA_PML_BASE_SEND_READY buf count type dest tag comm])
    (MPI_Rsend_init L buf count type dest tag comm req s)"
  unfolding MPI_Rsend_init_def Let_def using assms
  by - (rule trace_rules | assumption
    | (auto simp: send_call_def send_valid_def type_usable_def type_null_def valid_simps split: if_splits option.splits; fail))+

lemma MPI_Ssend_init_traced:
  assumes "lib_ok L" "fresh_call s" "param_check L \<or> comm \<noteq> Comm_NULL" "dest \<noteq> MPI_PROC_NULL"
  shows "traced L (recorded L ''MPI_Ssend_Ini'' ''p2p'' comm)
    (\<not> (send_valid L buf count type dest tag comm \<and> (param_check L \<longrightarrow> req \<noteq> NULL)))
    (\<lambda>bs. bs = [send_call ''isend_init'' MCA_PML_BASE_SEND_SYNCHRONOUS buf count type dest tag comm])
    (MPI_Ssend_init L buf count type dest tag comm req s)"
  unfolding MPI_Ssend_init_def Let_def using assms
  by - (rule trace_rules | assumption
    | (auto simp: send_call_def send_valid_def type_usable_def type_null_def valid_simps split: if_splits option.splits; fail))+

lemma traced_message:
  assumes "lib_ok L" "running R [] zero_timespec s" "G" "param_check L \<or> msg \<noteq> NULL \<and> message s \<noteq> Message_NULL"
    "\<And>comm. comm \<noteq> Comm_NULL \<Longrightarrow> traced L R G B (k comm s)"
  shows "traced L R G B (with_message L msg rc k s)"
proof -
  have "traced L R G B ((if msg = NULL \<or> message s = Message_NULL
         then OMPI_ERRHANDLER_CHECK L MPI_ERR_REQUEST (Comm_Object MPI_COMM_NULL) (k MPI_COMM_NULL)
         else OMPI_ERRHANDLER_CHECK L rc (Comm_Object (the (message_comm (message s)))) (k (the (message_comm (message s))))) s)"
    by (rule trace_rules assms | simp add: assms(3))+
  then show ?thesis using assms by (auto simp: with_message_def intro: traced_INIT_FINALIZE)
qed

lemma traced_clear_message [trace_rules]:
  "running R bs t s \<Longrightarrow> may_return L G B bs t \<Longrightarrow> traced L R G B (Returned MPI_SUCCESS (s\<lparr>message := m\<rparr>))"
  by (rule traced_Returned) (simp_all add: running_def)

lemma MPI_Mrecv_traced:
  assumes "lib_ok L" "fresh_call s" "param_check L"
  shows "traced L (recorded L ''MPI_Mrecv'' ''p2p'' Comm_NULL) True
    (\<lambda>bs. bs = [(''mrecv'', [P buf, N count, T type, P msg, P status])]) (MPI_Mrecv L buf count type msg status s)"
  unfolding MPI_Mrecv_def using assms
  by - (rule trace_rules traced_message | assumption | (auto; fail))+

lemma MPI_Imrecv_traced:
  assumes "lib_ok L" "fresh_call s" "param_check L" "req \<noteq> NULL"
  shows "traced L (recorded L ''MPI_Imrecv'' ''p2p'' Comm_NULL) True
    (\<lambda>bs. bs = [(''imrecv'', [P buf, N count, T type, P msg])]) (MPI_Imrecv L buf count type msg req s)"
  unfolding MPI_Imrecv_def using assms
  by - (rule trace_rules traced_message | assumption | (auto; fail))+

lemma MPI_Wait_traced:
  assumes "lib_ok L" "fresh_call s" "param_check L \<or> req \<noteq> NULL"
  shows "traced L (recorded L ''MPI_Wait'' ''p2p'' Comm_NULL) (req = NULL)
    (\<lambda>bs. bs \<in> {[], [(''ompi_request_wait'', [P status])]}) (MPI_Wait L req status s)"
proof (cases "req = NULL")
  case False
  then show ?thesis
    unfolding MPI_Wait_def Let_def using assms
    by - (rule trace_rules | assumption | (auto simp: success_codes split: if_splits; fail))+
next
  case True
  then show ?thesis
    unfolding MPI_Wait_def Let_def using assms
    by - (rule trace_rules | assumption | (auto simp: success_codes split: if_splits; fail))+
qed

text \<open>\<open>MPI_Sendrecv\<close> when the receive can be posted and the send does not fail on its own.\<close>

lemma traced_component_ok:
  assumes "lib_ok L" "running (recorded L name ct comm) bs t s" "\<And>s. fst (component L b s) = rc0"
    "\<And>s'. running (recorded L name ct comm) (bs @ [b]) t s' \<Longrightarrow> traced L (recorded L name ct comm) G B (k rc0 s')"
  shows "traced L (recorded L name ct comm) G B (component_call L b k s)"
proof -
  have k: "component_call L b k s = component_call L b (\<lambda>_. k rc0) s"
    using assms(3) [of s] by (cases "component L b s") (simp add: component_call_def)
  show ?thesis unfolding k by (rule traced_component [OF assms(1,2)]) (rule assms(4))
qed

lemma traced_CHECK_success: "traced L R G B (k s) \<Longrightarrow> traced L R G B (OMPI_ERRHANDLER_CHECK L MPI_SUCCESS obj k s)"
  by (simp add: OMPI_ERRHANDLER_CHECK_def success_codes)

definition sendrecv_valid ::
  "mpi_lib \<Rightarrow> ptr \<Rightarrow> int \<Rightarrow> dtype \<Rightarrow> int \<Rightarrow> int \<Rightarrow> ptr \<Rightarrow> int \<Rightarrow> dtype \<Rightarrow> int \<Rightarrow> int \<Rightarrow> comm_handle \<Rightarrow> bool" where
  "sendrecv_valid L sendbuf scount sendtype dest sendtag recvbuf rcount recvtype source recvtag comm \<longleftrightarrow>
     \<not> ompi_comm_invalid L comm \<and> (dest = MPI_PROC_NULL \<or> peer_ok L comm dest) \<and> 0 \<le> sendtag \<and> sendtag \<le> pml_max_tag L \<and>
     (source = MPI_ANY_SOURCE \<or> source = MPI_PROC_NULL \<or> peer_ok L comm source) \<and>
     (recvtag = MPI_ANY_TAG \<or> 0 \<le> recvtag) \<and> recvtag \<le> pml_max_tag L \<and>
     type_usable sendtype \<and> 0 \<le> scount \<and> buffer_usable sendbuf sendtype scount \<and>
     type_usable recvtype \<and> 0 \<le> rcount \<and> buffer_usable recvbuf recvtype rcount"

lemma check_sendrecv_ok:
  "OMPI_CHECK_USER_BUFFER (OMPI_CHECK_USER_BUFFER
     (OMPI_CHECK_DATATYPE_FOR_RECV (OMPI_CHECK_DATATYPE_FOR_SEND OMPI_SUCCESS st sc) rt rc) sb st sc) rb rt rc = OMPI_SUCCESS \<longleftrightarrow>
   type_usable st \<and> 0 \<le> sc \<and> buffer_usable sb st sc \<and> type_usable rt \<and> 0 \<le> rc \<and> buffer_usable rb rt rc"
  by (auto simp: OMPI_CHECK_USER_BUFFER_def OMPI_CHECK_DATATYPE_FOR_RECV_def OMPI_CHECK_DATATYPE_FOR_SEND_def
      type_usable_def buffer_usable_def mpi_codes)

lemma MPI_Sendrecv_traced:
  fixes recvbuf rcount recvtype source recvtag comm
  defines "post \<equiv> (''irecv'', [P recvbuf, N rcount, T recvtype, N source, N recvtag, C comm])"
  assumes "lib_ok L" "fresh_call s" "param_check L \<or> comm \<noteq> Comm_NULL"
    "\<And>s. fst (component L post s) = MPI_SUCCESS" "source \<noteq> MPI_PROC_NULL"
  shows "traced L (recorded L ''MPI_Sendrecv'' ''p2p'' comm)
    (param_check L \<and> \<not> sendrecv_valid L sendbuf scount sendtype dest sendtag recvbuf rcount recvtype source recvtag comm)
    (\<lambda>bs. post \<in> set bs \<and> (''ompi_request_wait'', [P status]) \<in> set bs \<and> (dest \<noteq> MPI_PROC_NULL \<longrightarrow>
       (''send'', [P sendbuf, N scount, T sendtype, N dest, N sendtag, M MCA_PML_BASE_SEND_STANDARD, C comm]) \<in> set bs))
    (MPI_Sendrecv L sendbuf scount sendtype dest sendtag recvbuf rcount recvtype source recvtag comm status s)"
  unfolding MPI_Sendrecv_def Let_def post_def [symmetric] using assms(2-)
  by - (rule traced_component_ok [where b = post], assumption, assumption, assumption | rule traced_CHECK_success trace_rules | assumption
    | (auto simp: sendrecv_valid_def check_sendrecv_ok MPI_ANY_TAG_def MPI_ANY_SOURCE_def valid_simps split: if_splits; fail))+

lemma blocking_sends_contract:
  assumes "(name, mode, send) \<in> set blocking_sends" and "lib_ok L" "fresh_call s" "param_check L \<or> comm \<noteq> Comm_NULL"
  shows "traced L (recorded L name ''p2p'' comm) (\<not> send_valid L buf count type dest tag comm \<or> ft_blocks_p2p L comm dest)
    (\<lambda>bs. bs = [send_call ''send'' mode buf count type dest tag comm] \<and> send_valid L buf count type dest tag comm)
    (send L buf count type dest tag comm s)"
  using assms(1) MPI_Send_traced [OF assms(2-)] MPI_Bsend_traced [OF assms(2-)] MPI_Ssend_traced [OF assms(2-)]
    MPI_Rsend_traced [OF assms(2-)]
  by (auto simp: blocking_sends_def)

lemma nonblocking_sends_contract:
  assumes "(name, mode, send) \<in> set nonblocking_sends" and "lib_ok L" "fresh_call s" "param_check L \<or> comm \<noteq> Comm_NULL \<and> req \<noteq> NULL"
  shows "traced L (recorded L name ''p2p'' comm)
    (\<not> (send_valid L buf count type dest tag comm \<and> (param_check L \<longrightarrow> req \<noteq> NULL)))
    (\<lambda>bs. bs = [send_call ''isend'' mode buf count type dest tag comm] \<and>
      send_valid L buf count type dest tag comm \<and> (param_check L \<longrightarrow> req \<noteq> NULL))
    (send L buf count type dest tag comm req s)"
  using assms(1) MPI_Isend_traced [OF assms(2-)] MPI_Ibsend_traced [OF assms(2-)] MPI_Issend_traced [OF assms(2-)]
    MPI_Irsend_traced [OF assms(2-)]
  by (auto simp: nonblocking_sends_def)

section \<open>Properties\<close>

lemmas demo_valid_simps = peer_ok_def ompi_comm_invalid_def ompi_comm_peer_invalid_def type_usable_def buffer_usable_def
  type_null_def NULL_def demo_lib_def demo_env_def demo_type_def

lemma demo_send_valid: "send_valid demo_lib 64 1 demo_type 2 7 MPI_COMM_WORLD"
  by (simp add: send_valid_def demo_valid_simps MPI_PROC_NULL_def)

lemma demo_recv_valid: "recv_valid demo_lib 64 1 demo_type MPI_ANY_SOURCE 7 MPI_COMM_WORLD"
  by (simp add: recv_valid_def demo_valid_simps MPI_PROC_NULL_def MPI_ANY_SOURCE_def)



text \<open>C16: The four non-blocking sends satisfy the same contract with the isend of the PML, which is reached only with a
  request to return.\<close>

theorem nonblocking_sends_traced:
  assumes "(name, mode, send) \<in> set nonblocking_sends" and "lib_ok L" "fresh_call s" "param_check L \<or> comm \<noteq> Comm_NULL \<and> req \<noteq> NULL"
  shows "traced L (recorded L name ''p2p'' comm)
    (\<not> (send_valid L buf count type dest tag comm \<and> (param_check L \<longrightarrow> req \<noteq> NULL)))
    (\<lambda>bs. bs = [send_call ''isend'' mode buf count type dest tag comm] \<and>
      send_valid L buf count type dest tag comm \<and> (param_check L \<longrightarrow> req \<noteq> NULL))
    (send L buf count type dest tag comm req s)"
  by (rule nonblocking_sends_contract [OF assms])

theorem nonblocking_sends_traced_witness:
  "traced demo_lib (recorded demo_lib ''MPI_Isend'' ''p2p'' MPI_COMM_WORLD) False
     (\<lambda>bs. bs = [send_call ''isend'' MCA_PML_BASE_SEND_STANDARD 64 1 demo_type 2 7 MPI_COMM_WORLD])
     (MPI_Isend demo_lib 64 1 demo_type 2 7 MPI_COMM_WORLD 80 demo_call)"
proof -
  have m: "(''MPI_Isend'', MCA_PML_BASE_SEND_STANDARD, MPI_Isend) \<in> set nonblocking_sends" by (simp add: nonblocking_sends_def)
  have "param_check demo_lib \<or> MPI_COMM_WORLD \<noteq> Comm_NULL \<and> 80 \<noteq> NULL" by (simp add: NULL_def)
  from nonblocking_sends_traced [OF m demo_lib_ok(1) demo_fresh this, of 64 1 demo_type 2 7] show ?thesis
    using demo_send_valid by (simp add: NULL_def)
qed





text \<open>A send to \<^verbatim>\<open>MPI_PROC_NULL\<close> never ends its event: with parameter checks every blocking or non-blocking
  send that returns has made no call of the PML, and its entry still counts as unfinished, so that the monitor
  waits for it.\<close>

theorem proc_null_entry_unfinished:
  assumes "(name, mode, send) \<in> set blocking_sends" and "(name', mode', isend) \<in> set nonblocking_sends"
    and "lib_ok L" "fresh_call s" "param_check L"
  shows "(\<forall>rc s'. send L buf count type MPI_PROC_NULL tag comm s = Returned rc s' \<longrightarrow>
      backend s' = [] \<and> \<not> edumpi_amt_entry_complete (item s')) \<and>
    (\<forall>rc s'. isend L buf count type MPI_PROC_NULL tag comm req s = Returned rc s' \<longrightarrow>
      backend s' = [] \<and> \<not> edumpi_amt_entry_complete (item s'))"
proof -
  have p: "param_check L \<or> comm \<noteq> Comm_NULL" "param_check L \<or> comm \<noteq> Comm_NULL \<and> req \<noteq> NULL" using assms(5) by blast+
  have no: "\<not> send_valid L buf count type MPI_PROC_NULL tag comm" by (simp add: send_valid_def)
  note b = blocking_sends_contract [OF assms(1,3,4) p(1)] and nb = nonblocking_sends_contract [OF assms(2,3,4) p(2)]
  have "backend s' = [] \<and> \<not> edumpi_amt_entry_complete (item s')"
    if "send L buf count type MPI_PROC_NULL tag comm s = Returned rc s'" for rc s'
    using b [of buf count type MPI_PROC_NULL tag] traced_open no unfolding that by blast
  moreover have "backend s' = [] \<and> \<not> edumpi_amt_entry_complete (item s')"
    if "isend L buf count type MPI_PROC_NULL tag comm req s = Returned rc s'" for rc s'
    using nb [of buf count type MPI_PROC_NULL tag] traced_open no unfolding that by blast
  ultimately show ?thesis by blast
qed

theorem proc_null_entry_unfinished_witness:
  "\<exists>s'. MPI_Send demo_lib 64 1 demo_type MPI_PROC_NULL 7 MPI_COMM_WORLD demo_call = Returned 0 s' \<and>
     \<not> edumpi_amt_entry_complete (item s')"
proof -
  have m: "(''MPI_Send'', MCA_PML_BASE_SEND_STANDARD, MPI_Send) \<in> set blocking_sends"
    "(''MPI_Isend'', MCA_PML_BASE_SEND_STANDARD, MPI_Isend) \<in> set nonblocking_sends"
    by (simp_all add: blocking_sends_def nonblocking_sends_def)
  obtain e where "\<forall>k. begin_event demo_lib MPI_PROC_NULL ''MPI_Send'' 8 0 0 ''p2p'' 3 demo_type None MPI_COMM_WORLD 1 None k demo_call =
      k (demo_call\<lparr>item := e\<rparr>)"
    using begin_event_runs [OF demo_lib_ok(1) demo_fresh, of 8 "''MPI_Send''" "''p2p''" 3 MPI_PROC_NULL 0 0 demo_type None MPI_COMM_WORLD 1 None]
    by fastforce
  then have "MPI_Send demo_lib 64 1 demo_type MPI_PROC_NULL 7 MPI_COMM_WORLD demo_call = Returned 0 (demo_call\<lparr>item := e\<rparr>)"
    by (simp add: MPI_Send_def Let_def OMPI_ERR_INIT_FINALIZE_def OMPI_ERRHANDLER_CHECK_def ompi_comm_invalid_def with_comm_def
        OMPI_CHECK_DATATYPE_FOR_SEND_def OMPI_CHECK_USER_BUFFER_def demo_lib_def demo_env_def demo_type_def type_null_def NULL_def mpi_codes)
  moreover have "param_check demo_lib" by (simp add: demo_lib_def)
  ultimately show ?thesis using proc_null_entry_unfinished [OF m demo_lib_ok(1) demo_fresh] by blast
qed

text \<open>The names of the persistent requests are recorded wrongly: the length argument of \<open>initQentry\<close> is one less than
  the name has characters, so that the last one is lost, and \<open>MPI_Recv_init\<close> is recorded as another function.\<close>

theorem persistent_names_cut:
  assumes "lib_ok L" "fresh_call s" "param_check L \<or> comm \<noteq> Comm_NULL" and "peer \<noteq> MPI_PROC_NULL"
  shows "traced L (recorded L ''MPI_Send_ini'' ''p2p'' comm)
      (\<not> (send_valid L buf count type peer tag comm \<and> (param_check L \<longrightarrow> req \<noteq> NULL))) (\<lambda>bs. map fst bs = [''isend_init''])
      (MPI_Send_init L buf count type peer tag comm req s) \<and>
    traced L (recorded L ''MPI_Bsend_ini'' ''p2p'' comm)
      (\<not> (send_valid L buf count type peer tag comm \<and> (param_check L \<longrightarrow> req \<noteq> NULL))) (\<lambda>bs. map fst bs = [''isend_init''])
      (MPI_Bsend_init L buf count type peer tag comm req s) \<and>
    traced L (recorded L ''MPI_Ssend_Ini'' ''p2p'' comm)
      (\<not> (send_valid L buf count type peer tag comm \<and> (param_check L \<longrightarrow> req \<noteq> NULL))) (\<lambda>bs. map fst bs = [''isend_init''])
      (MPI_Ssend_init L buf count type peer tag comm req s) \<and>
    traced L (recorded L ''MPI_Rsend_Ini'' ''p2p'' comm)
      (\<not> (send_valid L buf count type peer tag comm \<and> (param_check L \<longrightarrow> req \<noteq> NULL))) (\<lambda>bs. map fst bs = [''isend_init''])
      (MPI_Rsend_init L buf count type peer tag comm req s) \<and>
    traced L (recorded L ''MPI_Irecv_Init'' ''p2p'' comm)
      (\<not> (recv_valid L buf count type peer tag comm \<and> (param_check L \<longrightarrow> req \<noteq> NULL))) (\<lambda>bs. map fst bs = [''irecv_init''])
      (MPI_Recv_init L buf count type peer tag comm req s)"
  by (intro conjI traced_mono [OF MPI_Send_init_traced [OF assms]] traced_mono [OF MPI_Bsend_init_traced [OF assms]]
      traced_mono [OF MPI_Ssend_init_traced [OF assms]] traced_mono [OF MPI_Rsend_init_traced [OF assms]]
      traced_mono [OF MPI_Recv_init_traced [OF assms]]) (auto simp: recv_call_def send_call_def)

theorem persistent_names_cut_witness:
  "traced demo_lib (recorded demo_lib ''MPI_Send_ini'' ''p2p'' MPI_COMM_WORLD) False (\<lambda>bs. map fst bs = [''isend_init''])
     (MPI_Send_init demo_lib 64 1 demo_type 2 7 MPI_COMM_WORLD 80 demo_call)"
proof -
  have "param_check demo_lib \<or> MPI_COMM_WORLD \<noteq> Comm_NULL" "(2 :: int) \<noteq> MPI_PROC_NULL" by (simp_all add: MPI_PROC_NULL_def)
  from persistent_names_cut [OF demo_lib_ok(1) demo_fresh this, of 64 1 demo_type 7 80]
  show ?thesis using demo_send_valid by (simp add: NULL_def)
qed





end
