(* ===== verification/BindColl.thy ===== *)
theory BindColl
  imports Bindings
begin

text \<open>
  The blocking collective bindings of \<^verbatim>\<open>src/ompi/mpi/c\<close>, one definition per file. The component is the function
  that the communicator selected for the operation.
\<close>

section \<open>Statements of the collectives\<close>

text \<open>A \<^verbatim>\<open>for\<close> loop whose body may return, and the read \<^verbatim>\<open>xs[i]\<close> of an array argument.\<close>

fun for_each :: "'a list \<Rightarrow> ('a \<Rightarrow> prog \<Rightarrow> prog) \<Rightarrow> prog \<Rightarrow> prog" where
  "for_each [] body k = k"
| "for_each (x # xs) body k = body x (for_each xs body k)"

definition read_at :: "'a list option \<Rightarrow> int \<Rightarrow> ('a \<Rightarrow> prog) \<Rightarrow> prog" where
  "read_at xs i k s =
     (case xs of None \<Rightarrow> Undefined | Some l \<Rightarrow> if 0 \<le> i \<and> i < int (length l) then k (l ! nat i) s else Undefined)"

text \<open>The indices \<^verbatim>\<open>0 .. size - 1\<close>.\<close>

definition upto_size :: "int \<Rightarrow> int list" where
  "upto_size n = map int [0..<nat n]"

text \<open>The test of the operation: \<open>invalid\<close> and \<open>valid\<close> are what follows.\<close>

definition check_op :: "op_handle option \<Rightarrow> dtype \<Rightarrow> prog \<Rightarrow> prog \<Rightarrow> prog" where
  "check_op op t invalid valid s =
     (case op of None \<Rightarrow> Undefined
      | Some h \<Rightarrow> (case ompi_op_is_valid h t of None \<Rightarrow> Undefined | Some b \<Rightarrow> if b then valid s else invalid s))"

definition op_null :: "op_handle option \<Rightarrow> bool" where
  "op_null op \<longleftrightarrow> (case op of None \<Rightarrow> False | Some h \<Rightarrow> op_is_null h)"

text \<open>\<^verbatim>\<open>err = component(...); clock_gettime(..., &item->end); OMPI_ERRHANDLER_RETURN(err, comm, ...)\<close>.\<close>

definition call_coll :: "mpi_lib \<Rightarrow> comm_handle \<Rightarrow> backend_call \<Rightarrow> prog" where
  "call_coll L comm b = with_comm L comm (\<lambda>_.
     component_call L b (\<lambda>err. end_event L (OMPI_ERRHANDLER_RETURN L err (Comm_Object comm))))"

text \<open>The same between \<^verbatim>\<open>OBJ_RETAIN(op)\<close> and \<^verbatim>\<open>OBJ_RELEASE(op)\<close>, which dereference the operation.\<close>

definition call_reduction :: "mpi_lib \<Rightarrow> comm_handle \<Rightarrow> op_handle option \<Rightarrow> backend_call \<Rightarrow> prog" where
  "call_reduction L comm op b s = (case op of None \<Rightarrow> Undefined | Some _ \<Rightarrow> call_coll L comm b s)"

text \<open>\<^verbatim>\<open>ompi_datatype_type_size\<close>, and the product of a size with a count, in \<^verbatim>\<open>size_t\<close>.\<close>

definition ompi_datatype_type_size :: "dtype \<Rightarrow> (int \<Rightarrow> prog) \<Rightarrow> prog" where
  "ompi_datatype_type_size t k s = (case t of None \<Rightarrow> Undefined | Some d \<Rightarrow> k (int (ddt_size d)) s)"

definition size_t_mult :: "int \<Rightarrow> int \<Rightarrow> int" where
  "size_t_mult a b = (a * b) mod 2 ^ 64"

text \<open>The number of peers of an all-to-all.\<close>

definition coll_peers :: "communicator \<Rightarrow> int" where
  "coll_peers c = (if c_inter c then ompi_comm_remote_size c else ompi_comm_size c)"

text \<open>\<^verbatim>\<open>for (count = i = 0; i < size; ++i) if (0 == recvcounts[i]) ++count;\<close>\<close>

fun zero_counts :: "int list option \<Rightarrow> int list \<Rightarrow> int \<Rightarrow> (int \<Rightarrow> prog) \<Rightarrow> prog" where
  "zero_counts xs [] count k = k count"
| "zero_counts xs (i # is) count k = read_at xs i (\<lambda>n. zero_counts xs is (if 0 = n then count + 1 else count) k)"

text \<open>The root of an operation on an intercommunicator.\<close>

definition inter_root :: "communicator \<Rightarrow> int \<Rightarrow> bool" where
  "inter_root c r \<longleftrightarrow> r \<ge> 0 \<and> r < ompi_comm_remote_size c \<or> MPI_ROOT = r \<or> MPI_PROC_NULL = r"

section \<open>Barrier and broadcast\<close>

definition MPI_Barrier :: "mpi_lib \<Rightarrow> comm_handle \<Rightarrow> prog" where
  "MPI_Barrier L comm =
     begin_event L (- 1) ''MPI_Barrier'' 11 0 0 ''collective'' 10 None None comm 1 None
     (let rest = ft_coll L comm (with_comm L comm (\<lambda>c.
        if \<not> c_inter c then
          (if ompi_comm_size c > 1 then call_coll L comm (''coll_barrier'', [C comm])
           else OMPI_ERRHANDLER_RETURN L MPI_SUCCESS (Comm_Object comm))
        else call_coll L comm (''coll_barrier'', [C comm]))) in
      if param_check L then OMPI_ERR_INIT_FINALIZE L
        (if ompi_comm_invalid L comm then OMPI_ERRHANDLER_NOHANDLE_INVOKE L MPI_ERR_COMM else rest)
      else rest)"

definition MPI_Bcast :: "mpi_lib \<Rightarrow> ptr \<Rightarrow> int \<Rightarrow> dtype \<Rightarrow> int \<Rightarrow> comm_handle \<Rightarrow> prog" where
  "MPI_Bcast L buffer count type root_rank comm =
     begin_event L (- 1) ''MPI_Bcast'' 9 0 0 ''collective'' 10 type None comm 1 None
     (let rest = ft_coll L comm (with_comm L comm (\<lambda>c.
        if \<not> c_inter c \<and> ompi_comm_size c \<le> 1 \<or> 0 = count then Returned MPI_SUCCESS
        else call_coll L comm (''coll_bcast'', [P buffer, N count, T type, N root_rank, C comm]))) in
      if param_check L then OMPI_ERR_INIT_FINALIZE L
        (if ompi_comm_invalid L comm then OMPI_ERRHANDLER_NOHANDLE_INVOKE L MPI_ERR_COMM
         else OMPI_ERRHANDLER_CHECK L (OMPI_CHECK_DATATYPE_FOR_SEND MPI_SUCCESS type count) (Comm_Object comm)
           (if buffer = MPI_IN_PLACE then OMPI_ERRHANDLER_INVOKE L (Comm_Object comm) MPI_ERR_ARG
            else with_comm L comm (\<lambda>c.
              if \<not> c_inter c then
                (if root_rank \<ge> ompi_comm_size c \<or> root_rank < 0 then OMPI_ERRHANDLER_INVOKE L (Comm_Object comm) MPI_ERR_ROOT
                 else rest)
              else if \<not> inter_root c root_rank
                then OMPI_ERRHANDLER_INVOKE L (Comm_Object comm) MPI_ERR_ROOT
              else rest)))
      else rest)"

section \<open>Gathering to all\<close>

text \<open>\<open>MPI_Allgather\<close> does not return when the communicator is invalid, but goes on after the error handler.\<close>

definition MPI_Allgather ::
  "mpi_lib \<Rightarrow> ptr \<Rightarrow> int \<Rightarrow> dtype \<Rightarrow> ptr \<Rightarrow> int \<Rightarrow> dtype \<Rightarrow> comm_handle \<Rightarrow> prog" where
  "MPI_Allgather L sendbuf scount sendtype recvbuf rcount recvtype comm =
     begin_event L (- 1) ''MPI_Allgather'' 13 0 0 ''collective'' 10 sendtype recvtype comm 1 None
     (let rest = ft_coll L comm (with_comm L comm (\<lambda>c.
        if \<not> c_inter c \<and> (sendbuf \<noteq> MPI_IN_PLACE \<and> 0 = scount \<or> 0 = rcount) then Returned MPI_SUCCESS
        else if c_inter c \<and> 0 = scount \<and> 0 = rcount then Returned MPI_SUCCESS
        else call_coll L comm (''coll_allgather'', [P sendbuf, N scount, T sendtype, P recvbuf, N rcount, T recvtype, C comm]))) in
      if param_check L then OMPI_ERR_INIT_FINALIZE L
        (if ompi_comm_invalid L comm
         then ompi_errhandler_invoke L No_Object (ompi_errcode_get_mpi_code L MPI_ERR_COMM)
           (\<lambda>_. OMPI_ERRHANDLER_CHECK L MPI_SUCCESS (Comm_Object comm) rest)
         else if type_null recvtype then OMPI_ERRHANDLER_CHECK L MPI_ERR_TYPE (Comm_Object comm) rest
         else if rcount < 0 then OMPI_ERRHANDLER_CHECK L MPI_ERR_COUNT (Comm_Object comm) rest
         else with_comm L comm (\<lambda>c.
           if sendbuf = MPI_IN_PLACE \<and> c_inter c \<or> recvbuf = MPI_IN_PLACE
           then OMPI_ERRHANDLER_INVOKE L (Comm_Object comm) MPI_ERR_ARG
           else OMPI_ERRHANDLER_CHECK L
             (if sendbuf \<noteq> MPI_IN_PLACE then OMPI_CHECK_DATATYPE_FOR_SEND MPI_SUCCESS sendtype scount else MPI_SUCCESS)
             (Comm_Object comm) rest))
      else rest)"

definition MPI_Allgatherv ::
  "mpi_lib \<Rightarrow> ptr \<Rightarrow> int \<Rightarrow> dtype \<Rightarrow> ptr \<Rightarrow> int list option \<Rightarrow> int list option \<Rightarrow> dtype \<Rightarrow> comm_handle \<Rightarrow> prog" where
  "MPI_Allgatherv L sendbuf scount sendtype recvbuf recvcounts displs recvtype comm =
     begin_event L (- 1) ''MPI_Allgatherv'' 14 0 0 ''collective'' 10 sendtype recvtype comm 1 None
     (let call = call_coll L comm
            (''coll_allgatherv'', [P sendbuf, N scount, T sendtype, P recvbuf, Ns recvcounts, Ns displs, T recvtype, C comm]);
          rest = ft_coll L comm (with_comm L comm (\<lambda>c.
            if \<not> c_inter c
            then for_each (upto_size (ompi_comm_size c))
              (\<lambda>i next. read_at recvcounts i (\<lambda>n. if 0 \<noteq> n then call else next)) (Returned MPI_SUCCESS)
            else call)) in
      if param_check L then OMPI_ERR_INIT_FINALIZE L
        (if ompi_comm_invalid L comm then OMPI_ERRHANDLER_NOHANDLE_INVOKE L MPI_ERR_COMM
         else with_comm L comm (\<lambda>c.
           if sendbuf = MPI_IN_PLACE \<and> c_inter c \<or> recvbuf = MPI_IN_PLACE
           then OMPI_ERRHANDLER_INVOKE L (Comm_Object comm) MPI_ERR_ARG
           else if (case recvtype of None \<Rightarrow> False | Some d \<Rightarrow> ddt_is_null d)
           then OMPI_ERRHANDLER_INVOKE L (Comm_Object comm) MPI_ERR_TYPE
           else OMPI_ERRHANDLER_CHECK L
             (if sendbuf \<noteq> MPI_IN_PLACE then OMPI_CHECK_DATATYPE_FOR_SEND MPI_SUCCESS sendtype scount else MPI_SUCCESS)
             (Comm_Object comm)
             (for_each (upto_size (ompi_comm_remote_size c))
               (\<lambda>i next. read_at recvcounts i
                 (\<lambda>n. if n < 0 then OMPI_ERRHANDLER_INVOKE L (Comm_Object comm) MPI_ERR_COUNT else next))
               (if displs = None then OMPI_ERRHANDLER_INVOKE L (Comm_Object comm) MPI_ERR_BUFFER else rest))))
      else rest)"

section \<open>All to all\<close>

definition MPI_Alltoall ::
  "mpi_lib \<Rightarrow> ptr \<Rightarrow> int \<Rightarrow> dtype \<Rightarrow> ptr \<Rightarrow> int \<Rightarrow> dtype \<Rightarrow> comm_handle \<Rightarrow> prog" where
  "MPI_Alltoall L sendbuf scount sendtype recvbuf rcount recvtype comm =
     begin_event L (- 1) ''MPI_Alltoall'' 12 0 0 ''collective'' 10 sendtype recvtype comm 1 None
     (let rest = ft_coll L comm (with_comm L comm (\<lambda>c.
        let call = call_coll L comm (''coll_alltoall'', [P sendbuf, N scount, T sendtype, P recvbuf, N rcount, T recvtype, C comm]) in
        if \<not> c_inter c
        then ompi_datatype_type_size recvtype (\<lambda>n. if 0 = rcount \<or> 0 = n then Returned MPI_SUCCESS else call)
        else call)) in
      if param_check L then OMPI_ERR_INIT_FINALIZE L
        (if ompi_comm_invalid L comm then OMPI_ERRHANDLER_NOHANDLE_INVOKE L MPI_ERR_COMM
         else with_comm L comm (\<lambda>c.
           if sendbuf = MPI_IN_PLACE \<and> c_inter c \<or> recvbuf = MPI_IN_PLACE then OMPI_ERRHANDLER_NOHANDLE_INVOKE L MPI_ERR_ARG
           else OMPI_ERRHANDLER_CHECK L
             (if sendbuf \<noteq> MPI_IN_PLACE then OMPI_CHECK_DATATYPE_FOR_SEND MPI_SUCCESS sendtype scount else MPI_SUCCESS)
             (Comm_Object comm)
             (OMPI_ERRHANDLER_CHECK L (OMPI_CHECK_DATATYPE_FOR_RECV MPI_SUCCESS recvtype rcount) (Comm_Object comm)
               (if sendbuf \<noteq> MPI_IN_PLACE \<and> \<not> c_inter c
                then ompi_datatype_type_size sendtype (\<lambda>ss. ompi_datatype_type_size recvtype (\<lambda>rs.
                  if size_t_mult ss scount \<noteq> size_t_mult rs rcount then OMPI_ERRHANDLER_INVOKE L (Comm_Object comm) MPI_ERR_TRUNCATE
                  else rest))
                else rest))))
      else rest)"

text \<open>
  With \<^verbatim>\<open>MPI_IN_PLACE\<close> the receive arguments replace those of the send, but only where the parameters are checked.
\<close>

definition MPI_Alltoallv ::
  "mpi_lib \<Rightarrow> ptr \<Rightarrow> int list option \<Rightarrow> int list option \<Rightarrow> dtype \<Rightarrow> ptr \<Rightarrow> int list option \<Rightarrow> int list option \<Rightarrow>
   dtype \<Rightarrow> comm_handle \<Rightarrow> prog" where
  "MPI_Alltoallv L sendbuf sendcounts sdispls sendtype recvbuf recvcounts rdispls recvtype comm =
     begin_event L (- 1) ''MPI_Alltoallv'' 13 0 0 ''collective'' 10 sendtype recvtype comm 1 None
     (let rest = (\<lambda>sendcounts sdispls sendtype. ft_coll L comm (call_coll L comm
        (''coll_alltoallv'', [P sendbuf, Ns sendcounts, Ns sdispls, T sendtype, P recvbuf, Ns recvcounts, Ns rdispls, T recvtype, C comm]))) in
      if param_check L then OMPI_ERR_INIT_FINALIZE L
        (if ompi_comm_invalid L comm then OMPI_ERRHANDLER_NOHANDLE_INVOKE L MPI_ERR_COMM
         else let (sendcounts, sdispls, sendtype) =
             (if sendbuf = MPI_IN_PLACE then (recvcounts, rdispls, recvtype) else (sendcounts, sdispls, sendtype)) in
         with_comm L comm (\<lambda>c.
           if sendcounts = None \<or> sdispls = None \<or> recvcounts = None \<or> rdispls = None \<or>
             sendbuf = MPI_IN_PLACE \<and> c_inter c \<or> recvbuf = MPI_IN_PLACE
           then OMPI_ERRHANDLER_INVOKE L (Comm_Object comm) MPI_ERR_ARG
           else for_each (upto_size (coll_peers c))
             (\<lambda>i next. read_at sendcounts i (\<lambda>sc. OMPI_ERRHANDLER_CHECK L (OMPI_CHECK_DATATYPE_FOR_SEND MPI_SUCCESS sendtype sc) (Comm_Object comm)
               (read_at recvcounts i (\<lambda>rc. OMPI_ERRHANDLER_CHECK L (OMPI_CHECK_DATATYPE_FOR_RECV MPI_SUCCESS recvtype rc) (Comm_Object comm)
                 next))))
             (if sendbuf \<noteq> MPI_IN_PLACE \<and> \<not> c_inter c
              then let me = ompi_comm_rank c in
                ompi_datatype_type_size sendtype (\<lambda>ss. ompi_datatype_type_size recvtype (\<lambda>rs.
                read_at sendcounts me (\<lambda>sc. read_at recvcounts me (\<lambda>rc.
                if size_t_mult ss sc \<noteq> size_t_mult rs rc then OMPI_ERRHANDLER_INVOKE L (Comm_Object comm) MPI_ERR_TRUNCATE
                else rest sendcounts sdispls sendtype))))
              else rest sendcounts sdispls sendtype)))
      else rest sendcounts sdispls sendtype)"

text \<open>\<open>MPI_Alltoallw\<close> reads \<^verbatim>\<open>sendtypes[0]\<close> and \<^verbatim>\<open>recvtypes[0]\<close> for its entry before anything is checked.\<close>

definition MPI_Alltoallw ::
  "mpi_lib \<Rightarrow> ptr \<Rightarrow> int list option \<Rightarrow> int list option \<Rightarrow> dtype list option \<Rightarrow> ptr \<Rightarrow> int list option \<Rightarrow> int list option \<Rightarrow>
   dtype list option \<Rightarrow> comm_handle \<Rightarrow> prog" where
  "MPI_Alltoallw L sendbuf sendcounts sdispls sendtypes recvbuf recvcounts rdispls recvtypes comm =
     read_at sendtypes 0 (\<lambda>st0. read_at recvtypes 0 (\<lambda>rt0.
     begin_event L (- 1) ''MPI_Alltoallw'' 13 0 0 ''collective'' 10 st0 rt0 comm 1 None
     (let rest = (\<lambda>sendcounts sdispls sendtypes. ft_coll L comm (call_coll L comm
        (''coll_alltoallw'', [P sendbuf, Ns sendcounts, Ns sdispls, Ts sendtypes, P recvbuf, Ns recvcounts, Ns rdispls, Ts recvtypes, C comm]))) in
      if param_check L then OMPI_ERR_INIT_FINALIZE L
        (if ompi_comm_invalid L comm then OMPI_ERRHANDLER_NOHANDLE_INVOKE L MPI_ERR_COMM
         else let (sendcounts, sdispls, sendtypes) =
             (if sendbuf = MPI_IN_PLACE then (recvcounts, rdispls, recvtypes) else (sendcounts, sdispls, sendtypes)) in
         with_comm L comm (\<lambda>c.
           if sendcounts = None \<or> sdispls = None \<or> sendtypes = None \<or> recvcounts = None \<or> rdispls = None \<or> recvtypes = None \<or>
             sendbuf = MPI_IN_PLACE \<and> c_inter c \<or> recvbuf = MPI_IN_PLACE
           then OMPI_ERRHANDLER_INVOKE L (Comm_Object comm) MPI_ERR_ARG
           else for_each (upto_size (coll_peers c))
             (\<lambda>i next. read_at sendtypes i (\<lambda>st. read_at sendcounts i (\<lambda>sc.
               OMPI_ERRHANDLER_CHECK L (OMPI_CHECK_DATATYPE_FOR_SEND MPI_SUCCESS st sc) (Comm_Object comm)
               (read_at recvtypes i (\<lambda>rt. read_at recvcounts i (\<lambda>rc.
                 OMPI_ERRHANDLER_CHECK L (OMPI_CHECK_DATATYPE_FOR_RECV MPI_SUCCESS rt rc) (Comm_Object comm) next))))))
             (if sendbuf \<noteq> MPI_IN_PLACE \<and> \<not> c_inter c
              then let me = ompi_comm_rank c in
                read_at sendtypes me (\<lambda>st. ompi_datatype_type_size st (\<lambda>ss.
                read_at recvtypes me (\<lambda>rt. ompi_datatype_type_size rt (\<lambda>rs.
                read_at sendcounts me (\<lambda>sc. read_at recvcounts me (\<lambda>rc.
                if size_t_mult ss sc \<noteq> size_t_mult rs rc then OMPI_ERRHANDLER_INVOKE L (Comm_Object comm) MPI_ERR_TRUNCATE
                else rest sendcounts sdispls sendtypes))))))
              else rest sendcounts sdispls sendtypes)))
      else rest sendcounts sdispls sendtypes)))"

section \<open>Reductions\<close>

definition MPI_Allreduce :: "mpi_lib \<Rightarrow> ptr \<Rightarrow> ptr \<Rightarrow> int \<Rightarrow> dtype \<Rightarrow> op_handle option \<Rightarrow> comm_handle \<Rightarrow> prog" where
  "MPI_Allreduce L sendbuf recvbuf count type op comm =
     begin_event L (- 1) ''MPI_Allreduce'' 13 0 0 ''collective'' 10 type type comm 1 op
     (let rest = ft_coll L comm
        (if 0 = count then Returned MPI_SUCCESS
         else call_reduction L comm op (''coll_allreduce'', [P sendbuf, P recvbuf, N count, T type, Op op, C comm])) in
      if param_check L then OMPI_ERR_INIT_FINALIZE L
        (if ompi_comm_invalid L comm then OMPI_ERRHANDLER_NOHANDLE_INVOKE L MPI_ERR_COMM
         else if op_null op then OMPI_ERRHANDLER_CHECK L MPI_ERR_OP (Comm_Object comm) rest
         else check_op op type (OMPI_ERRHANDLER_INVOKE L (Comm_Object comm) MPI_ERR_OP)
           (with_comm L comm (\<lambda>c.
             if sendbuf = MPI_IN_PLACE \<and> c_inter c \<or> recvbuf = MPI_IN_PLACE then OMPI_ERRHANDLER_NOHANDLE_INVOKE L MPI_ERR_BUFFER
             else if sendbuf = recvbuf \<and> sendbuf \<noteq> MPI_BOTTOM \<and> count > 1 then OMPI_ERRHANDLER_NOHANDLE_INVOKE L MPI_ERR_BUFFER
             else OMPI_ERRHANDLER_CHECK L (OMPI_CHECK_DATATYPE_FOR_SEND MPI_SUCCESS type count) (Comm_Object comm) rest)))
      else rest)"

definition MPI_Reduce :: "mpi_lib \<Rightarrow> ptr \<Rightarrow> ptr \<Rightarrow> int \<Rightarrow> dtype \<Rightarrow> op_handle option \<Rightarrow> int \<Rightarrow> comm_handle \<Rightarrow> prog" where
  "MPI_Reduce L sendbuf recvbuf count type op root_rank comm =
     begin_event L (- 1) ''MPI_Reduce'' 10 0 0 ''collective'' 10 type type comm 1 op
     (let rest = ft_coll L comm
            (if 0 = count then Returned MPI_SUCCESS
             else call_reduction L comm op (''coll_reduce'', [P sendbuf, P recvbuf, N count, T type, Op op, N root_rank, C comm]));
          roots = with_comm L comm (\<lambda>c.
            if c_inter c then
              (if \<not> inter_root c root_rank
               then OMPI_ERRHANDLER_INVOKE L (Comm_Object comm) MPI_ERR_ROOT else rest)
            else if root_rank < 0 \<or> root_rank \<ge> ompi_comm_size c then OMPI_ERRHANDLER_INVOKE L (Comm_Object comm) MPI_ERR_ROOT
            else rest) in
      if param_check L then OMPI_ERR_INIT_FINALIZE L
        (if ompi_comm_invalid L comm then OMPI_ERRHANDLER_NOHANDLE_INVOKE L MPI_ERR_COMM
         else if op_null op \<or> op = None then OMPI_ERRHANDLER_CHECK L MPI_ERR_OP (Comm_Object comm) roots
         else check_op op type (OMPI_ERRHANDLER_INVOKE L (Comm_Object comm) MPI_ERR_OP)
           (with_comm L comm (\<lambda>c. OMPI_ERRHANDLER_CHECK L
             (if ompi_comm_rank c \<noteq> root_rank \<and> sendbuf = MPI_IN_PLACE \<or>
                 ompi_comm_rank c = root_rank \<and> (recvbuf = MPI_IN_PLACE \<or> sendbuf = recvbuf \<and> 0 \<noteq> count)
              then MPI_ERR_ARG
              else OMPI_CHECK_DATATYPE_FOR_SEND MPI_SUCCESS type count)
             (Comm_Object comm) roots)))
      else rest)"

definition MPI_Scan :: "mpi_lib \<Rightarrow> ptr \<Rightarrow> ptr \<Rightarrow> int \<Rightarrow> dtype \<Rightarrow> op_handle option \<Rightarrow> comm_handle \<Rightarrow> prog" where
  "MPI_Scan L sendbuf recvbuf count type op comm =
     begin_event L (- 1) ''MPI_Scan'' 8 0 0 ''collective'' 10 type type comm 1 op
     (let rest = ft_coll L comm
        (if 0 = count then Returned MPI_SUCCESS
         else call_reduction L comm op (''coll_scan'', [P sendbuf, P recvbuf, N count, T type, Op op, C comm])) in
      if param_check L then OMPI_ERR_INIT_FINALIZE L
        (if ompi_comm_invalid L comm then OMPI_ERRHANDLER_NOHANDLE_INVOKE L MPI_ERR_COMM
         else with_comm L comm (\<lambda>c.
           if c_inter c then OMPI_ERRHANDLER_CHECK L MPI_ERR_COMM (Comm_Object comm) rest
           else if op_null op \<or> op = None then OMPI_ERRHANDLER_CHECK L MPI_ERR_OP (Comm_Object comm) rest
           else if recvbuf = MPI_IN_PLACE then OMPI_ERRHANDLER_CHECK L MPI_ERR_ARG (Comm_Object comm) rest
           else check_op op type (OMPI_ERRHANDLER_INVOKE L (Comm_Object comm) MPI_ERR_OP)
             (OMPI_ERRHANDLER_CHECK L (OMPI_CHECK_DATATYPE_FOR_SEND MPI_SUCCESS type count) (Comm_Object comm) rest)))
      else rest)"

definition MPI_Exscan :: "mpi_lib \<Rightarrow> ptr \<Rightarrow> ptr \<Rightarrow> int \<Rightarrow> dtype \<Rightarrow> op_handle option \<Rightarrow> comm_handle \<Rightarrow> prog" where
  "MPI_Exscan L sendbuf recvbuf count type op comm =
     begin_event L (- 1) ''MPI_Exscan'' 10 0 0 ''collective'' 10 type type comm 1 op
     (let rest = ft_coll L comm
        (if 0 = count then Returned MPI_SUCCESS
         else call_reduction L comm op (''coll_exscan'', [P sendbuf, P recvbuf, N count, T type, Op op, C comm])) in
      if param_check L then OMPI_ERR_INIT_FINALIZE L
        (if ompi_comm_invalid L comm then OMPI_ERRHANDLER_NOHANDLE_INVOKE L MPI_ERR_COMM
         else if op_null op then OMPI_ERRHANDLER_CHECK L MPI_ERR_OP (Comm_Object comm) rest
         else check_op op type (OMPI_ERRHANDLER_INVOKE L (Comm_Object comm) MPI_ERR_OP)
           (OMPI_ERRHANDLER_CHECK L (OMPI_CHECK_DATATYPE_FOR_SEND MPI_SUCCESS type count) (Comm_Object comm) rest))
      else rest)"

definition MPI_Reduce_scatter ::
  "mpi_lib \<Rightarrow> ptr \<Rightarrow> ptr \<Rightarrow> int list option \<Rightarrow> dtype \<Rightarrow> op_handle option \<Rightarrow> comm_handle \<Rightarrow> prog" where
  "MPI_Reduce_scatter L sendbuf recvbuf recvcounts type op comm =
     begin_event L (- 1) ''MPI_Reduce_scatter'' 18 0 0 ''collective'' 10 type type comm 1 op
     (let call = call_reduction L comm op (''coll_reduce_scatter'', [P sendbuf, P recvbuf, Ns recvcounts, T type, Op op, C comm]);
          rest = ft_coll L comm (with_comm L comm (\<lambda>c.
            zero_counts recvcounts (upto_size (ompi_comm_size c)) 0 (\<lambda>count.
              if ompi_comm_size c = count then Returned MPI_SUCCESS else call)));
          sizes = with_comm L comm (\<lambda>c. for_each (upto_size (ompi_comm_size c))
            (\<lambda>i next. read_at recvcounts i (\<lambda>n.
              OMPI_ERRHANDLER_CHECK L (OMPI_CHECK_DATATYPE_FOR_SEND MPI_SUCCESS type n) (Comm_Object comm) next)) rest) in
      if param_check L then OMPI_ERR_INIT_FINALIZE L
        (if ompi_comm_invalid L comm then OMPI_ERRHANDLER_NOHANDLE_INVOKE L MPI_ERR_COMM
         else if op_null op \<or> op = None then OMPI_ERRHANDLER_CHECK L MPI_ERR_OP (Comm_Object comm) sizes
         else check_op op type (OMPI_ERRHANDLER_INVOKE L (Comm_Object comm) MPI_ERR_OP)
           (OMPI_ERRHANDLER_CHECK L
             (if recvcounts = None then MPI_ERR_COUNT else if recvbuf = MPI_IN_PLACE then MPI_ERR_ARG else MPI_SUCCESS)
             (Comm_Object comm) sizes))
      else rest)"

definition MPI_Reduce_scatter_block ::
  "mpi_lib \<Rightarrow> ptr \<Rightarrow> ptr \<Rightarrow> int \<Rightarrow> dtype \<Rightarrow> op_handle option \<Rightarrow> comm_handle \<Rightarrow> prog" where
  "MPI_Reduce_scatter_block L sendbuf recvbuf rcount type op comm =
     begin_event L (- 1) ''MPI_Reduce_scatter_block'' 24 0 0 ''collective'' 10 type type comm 1 op
     (let rest =
            (if 0 = rcount then Returned MPI_SUCCESS
             else ft_coll L comm (call_reduction L comm op (''coll_reduce_scatter_block'', [P sendbuf, P recvbuf, N rcount, T type, Op op, C comm])));
          types = OMPI_ERRHANDLER_CHECK L (OMPI_CHECK_DATATYPE_FOR_SEND MPI_SUCCESS type rcount) (Comm_Object comm) rest in
      if param_check L then OMPI_ERR_INIT_FINALIZE L
        (if ompi_comm_invalid L comm then OMPI_ERRHANDLER_NOHANDLE_INVOKE L MPI_ERR_COMM
         else if op_null op \<or> op = None then OMPI_ERRHANDLER_CHECK L MPI_ERR_OP (Comm_Object comm) types
         else check_op op type (OMPI_ERRHANDLER_INVOKE L (Comm_Object comm) MPI_ERR_OP)
           (OMPI_ERRHANDLER_CHECK L (if recvbuf = MPI_IN_PLACE then MPI_ERR_ARG else MPI_SUCCESS) (Comm_Object comm) types))
      else rest)"

section \<open>Rooted operations\<close>

definition MPI_Gather ::
  "mpi_lib \<Rightarrow> ptr \<Rightarrow> int \<Rightarrow> dtype \<Rightarrow> ptr \<Rightarrow> int \<Rightarrow> dtype \<Rightarrow> int \<Rightarrow> comm_handle \<Rightarrow> prog" where
  "MPI_Gather L sendbuf scount sendtype recvbuf rcount recvtype root_rank comm =
     begin_event L (- 1) ''MPI_Gather'' 10 0 0 ''collective'' 10 sendtype recvtype comm 1 None
     (let rest = ft_coll L comm (with_comm L comm (\<lambda>c.
        if 0 = scount \<and> MPI_ROOT \<noteq> root_rank \<and>
             (ompi_comm_rank c \<noteq> root_rank \<or> ompi_comm_rank c = root_rank \<and> MPI_IN_PLACE \<noteq> sendbuf) \<or>
           ompi_comm_rank c = root_rank \<and> MPI_IN_PLACE = sendbuf \<and> 0 = rcount \<or>
           0 = rcount \<and> (MPI_ROOT = root_rank \<or> MPI_PROC_NULL = root_rank)
        then Returned MPI_SUCCESS
        else call_coll L comm (''coll_gather'',
          [P sendbuf, N scount, T sendtype, P recvbuf, N rcount, T recvtype, N root_rank, C comm]))) in
      if param_check L then OMPI_ERR_INIT_FINALIZE L
        (if ompi_comm_invalid L comm then OMPI_ERRHANDLER_NOHANDLE_INVOKE L MPI_ERR_COMM
         else with_comm L comm (\<lambda>c.
           if ompi_comm_rank c \<noteq> root_rank \<and> MPI_IN_PLACE = sendbuf \<or> ompi_comm_rank c = root_rank \<and> MPI_IN_PLACE = recvbuf
           then OMPI_ERRHANDLER_INVOKE L (Comm_Object comm) MPI_ERR_ARG
           else if \<not> c_inter c then
             (if root_rank \<ge> ompi_comm_size c \<or> root_rank < 0 then OMPI_ERRHANDLER_INVOKE L (Comm_Object comm) MPI_ERR_ROOT
              else OMPI_ERRHANDLER_CHECK L
                (if MPI_IN_PLACE \<noteq> sendbuf then OMPI_CHECK_DATATYPE_FOR_SEND MPI_SUCCESS sendtype scount else MPI_SUCCESS)
                (Comm_Object comm)
                (if ompi_comm_rank c = root_rank then
                   (if type_null recvtype then OMPI_ERRHANDLER_INVOKE L (Comm_Object comm) MPI_ERR_TYPE
                    else if rcount < 0 then OMPI_ERRHANDLER_INVOKE L (Comm_Object comm) MPI_ERR_COUNT
                    else rest)
                 else rest))
           else if \<not> inter_root c root_rank then OMPI_ERRHANDLER_INVOKE L (Comm_Object comm) MPI_ERR_ROOT
           else if MPI_ROOT \<noteq> root_rank \<and> MPI_PROC_NULL \<noteq> root_rank
           then OMPI_ERRHANDLER_CHECK L (OMPI_CHECK_DATATYPE_FOR_SEND MPI_SUCCESS sendtype scount) (Comm_Object comm) rest
           else if MPI_ROOT = root_rank then
             (if rcount < 0 then OMPI_ERRHANDLER_INVOKE L (Comm_Object comm) MPI_ERR_COUNT
              else if type_null recvtype then OMPI_ERRHANDLER_INVOKE L (Comm_Object comm) MPI_ERR_TYPE
              else rest)
           else rest))
      else rest)"

text \<open>The checks of the root of \<open>MPI_Gatherv\<close> on \<open>size\<close> peers: the same for both kinds of communicators.\<close>

definition gatherv_root_checks :: "mpi_lib \<Rightarrow> comm_handle \<Rightarrow> int \<Rightarrow> int list option \<Rightarrow> int list option \<Rightarrow> dtype \<Rightarrow> prog \<Rightarrow> prog" where
  "gatherv_root_checks L comm peers recvcounts displs recvtype k =
     (if displs = None then OMPI_ERRHANDLER_INVOKE L (Comm_Object comm) MPI_ERR_ARG
      else if recvcounts = None then OMPI_ERRHANDLER_INVOKE L (Comm_Object comm) MPI_ERR_COUNT
      else for_each (upto_size peers) (\<lambda>i next. read_at recvcounts i (\<lambda>n.
        if n < 0 then OMPI_ERRHANDLER_INVOKE L (Comm_Object comm) MPI_ERR_COUNT
        else if type_null recvtype then OMPI_ERRHANDLER_INVOKE L (Comm_Object comm) MPI_ERR_TYPE
        else next)) k)"

definition MPI_Gatherv ::
  "mpi_lib \<Rightarrow> ptr \<Rightarrow> int \<Rightarrow> dtype \<Rightarrow> ptr \<Rightarrow> int list option \<Rightarrow> int list option \<Rightarrow> dtype \<Rightarrow> int \<Rightarrow> comm_handle \<Rightarrow> prog" where
  "MPI_Gatherv L sendbuf scount sendtype recvbuf recvcounts displs recvtype root_rank comm =
     begin_event L (- 1) ''MPI_Gatherv'' 11 0 0 ''collective'' 10 sendtype recvtype comm 1 None
     (let rest = ft_coll L comm (call_coll L comm (''coll_gatherv'',
        [P sendbuf, N scount, T sendtype, P recvbuf, Ns recvcounts, Ns displs, T recvtype, N root_rank, C comm])) in
      if param_check L then OMPI_ERR_INIT_FINALIZE L
        (if ompi_comm_invalid L comm then OMPI_ERRHANDLER_NOHANDLE_INVOKE L MPI_ERR_COMM
         else with_comm L comm (\<lambda>c.
           if ompi_comm_rank c \<noteq> root_rank \<and> MPI_IN_PLACE = sendbuf \<or> ompi_comm_rank c = root_rank \<and> MPI_IN_PLACE = recvbuf
           then OMPI_ERRHANDLER_INVOKE L (Comm_Object comm) MPI_ERR_ARG
           else if \<not> c_inter c then
             OMPI_ERRHANDLER_CHECK L
               (if root_rank \<ge> ompi_comm_size c \<or> root_rank < 0 then MPI_ERR_ROOT
                else if MPI_IN_PLACE \<noteq> sendbuf then OMPI_CHECK_DATATYPE_FOR_SEND MPI_SUCCESS sendtype scount else MPI_SUCCESS)
               (Comm_Object comm)
               (if ompi_comm_rank c = root_rank then gatherv_root_checks L comm (ompi_comm_size c) recvcounts displs recvtype rest
                else rest)
           else if \<not> inter_root c root_rank then OMPI_ERRHANDLER_INVOKE L (Comm_Object comm) MPI_ERR_ROOT
           else if MPI_ROOT \<noteq> root_rank \<and> MPI_PROC_NULL \<noteq> root_rank
           then OMPI_ERRHANDLER_CHECK L (OMPI_CHECK_DATATYPE_FOR_SEND MPI_SUCCESS sendtype scount) (Comm_Object comm) rest
           else if MPI_ROOT = root_rank then gatherv_root_checks L comm (ompi_comm_remote_size c) recvcounts displs recvtype rest
           else rest))
      else rest)"

definition MPI_Scatter ::
  "mpi_lib \<Rightarrow> ptr \<Rightarrow> int \<Rightarrow> dtype \<Rightarrow> ptr \<Rightarrow> int \<Rightarrow> dtype \<Rightarrow> int \<Rightarrow> comm_handle \<Rightarrow> prog" where
  "MPI_Scatter L sendbuf scount sendtype recvbuf rcount recvtype root_rank comm =
     begin_event L (- 1) ''MPI_Scatter'' 11 0 0 ''collective'' 10 sendtype recvtype comm 1 None
     (let rest = ft_coll L comm (with_comm L comm (\<lambda>c.
        if 0 = rcount \<and> MPI_ROOT \<noteq> root_rank \<and>
             (ompi_comm_rank c \<noteq> root_rank \<or> ompi_comm_rank c = root_rank \<and> MPI_IN_PLACE \<noteq> recvbuf) \<or>
           ompi_comm_rank c = root_rank \<and> MPI_IN_PLACE = recvbuf \<and> 0 = scount \<or>
           0 = scount \<and> (MPI_ROOT = root_rank \<or> MPI_PROC_NULL = root_rank)
        then Returned MPI_SUCCESS
        else call_coll L comm (''coll_scatter'',
          [P sendbuf, N scount, T sendtype, P recvbuf, N rcount, T recvtype, N root_rank, C comm]))) in
      if param_check L then OMPI_ERR_INIT_FINALIZE L
        (if ompi_comm_invalid L comm then OMPI_ERRHANDLER_NOHANDLE_INVOKE L MPI_ERR_COMM
         else with_comm L comm (\<lambda>c.
           if ompi_comm_rank c \<noteq> root_rank \<and> MPI_IN_PLACE = recvbuf \<or> ompi_comm_rank c = root_rank \<and> MPI_IN_PLACE = sendbuf
           then OMPI_ERRHANDLER_INVOKE L (Comm_Object comm) MPI_ERR_ARG
           else if \<not> c_inter c then OMPI_ERRHANDLER_CHECK L
             (if root_rank \<ge> ompi_comm_size c \<or> root_rank < 0 then MPI_ERR_ROOT
              else if MPI_IN_PLACE \<noteq> recvbuf then
                (if rcount < 0 then MPI_ERR_COUNT else if type_null recvtype then MPI_ERR_TYPE else MPI_SUCCESS)
              else if ompi_comm_rank c = root_rank then OMPI_CHECK_DATATYPE_FOR_SEND MPI_SUCCESS sendtype scount
              else MPI_SUCCESS)
             (Comm_Object comm) rest
           else OMPI_ERRHANDLER_CHECK L
             (if \<not> inter_root c root_rank then MPI_ERR_ROOT
              else if MPI_ROOT \<noteq> root_rank \<and> MPI_PROC_NULL \<noteq> root_rank then
                (if rcount < 0 then MPI_ERR_COUNT
                 else if (case recvtype of None \<Rightarrow> False | Some d \<Rightarrow> ddt_is_null d) then MPI_ERR_TYPE else MPI_SUCCESS)
              else if MPI_ROOT = root_rank then OMPI_CHECK_DATATYPE_FOR_SEND MPI_SUCCESS sendtype scount
              else MPI_SUCCESS)
             (Comm_Object comm) rest))
      else rest)"

text \<open>The checks of the root and of the receivers of \<open>MPI_Scatterv\<close>.\<close>

definition scatterv_root_checks :: "mpi_lib \<Rightarrow> comm_handle \<Rightarrow> int \<Rightarrow> int list option \<Rightarrow> int list option \<Rightarrow> dtype \<Rightarrow> prog \<Rightarrow> prog" where
  "scatterv_root_checks L comm peers sendcounts displs sendtype k =
     (if displs = None then OMPI_ERRHANDLER_INVOKE L (Comm_Object comm) MPI_ERR_ARG
      else if sendcounts = None then OMPI_ERRHANDLER_INVOKE L (Comm_Object comm) MPI_ERR_COUNT
      else for_each (upto_size peers) (\<lambda>i next. read_at sendcounts i (\<lambda>n.
        OMPI_ERRHANDLER_CHECK L (OMPI_CHECK_DATATYPE_FOR_SEND MPI_SUCCESS sendtype n) (Comm_Object comm) next)) k)"

definition MPI_Scatterv ::
  "mpi_lib \<Rightarrow> ptr \<Rightarrow> int list option \<Rightarrow> int list option \<Rightarrow> dtype \<Rightarrow> ptr \<Rightarrow> int \<Rightarrow> dtype \<Rightarrow> int \<Rightarrow> comm_handle \<Rightarrow> prog" where
  "MPI_Scatterv L sendbuf sendcounts displs sendtype recvbuf rcount recvtype root_rank comm =
     begin_event L (- 1) ''MPI_Scatterv'' 12 0 0 ''collective'' 10 sendtype recvtype comm 1 None
     (let rest = ft_coll L comm (call_coll L comm (''coll_scatterv'',
        [P sendbuf, Ns sendcounts, Ns displs, T sendtype, P recvbuf, N rcount, T recvtype, N root_rank, C comm])) in
      if param_check L then OMPI_ERR_INIT_FINALIZE L
        (if ompi_comm_invalid L comm then OMPI_ERRHANDLER_NOHANDLE_INVOKE L MPI_ERR_COMM
         else with_comm L comm (\<lambda>c.
           if ompi_comm_rank c \<noteq> root_rank \<and> MPI_IN_PLACE = recvbuf \<or> ompi_comm_rank c = root_rank \<and> MPI_IN_PLACE = sendbuf
           then OMPI_ERRHANDLER_INVOKE L (Comm_Object comm) MPI_ERR_ARG
           else if \<not> c_inter c then
             (if root_rank \<ge> ompi_comm_size c \<or> root_rank < 0 then OMPI_ERRHANDLER_INVOKE L (Comm_Object comm) MPI_ERR_ROOT
              else if MPI_IN_PLACE \<noteq> recvbuf \<and> rcount < 0 then OMPI_ERRHANDLER_INVOKE L (Comm_Object comm) MPI_ERR_COUNT
              else if MPI_IN_PLACE \<noteq> recvbuf \<and> type_null recvtype then OMPI_ERRHANDLER_INVOKE L (Comm_Object comm) MPI_ERR_TYPE
              else if ompi_comm_rank c = root_rank then scatterv_root_checks L comm (ompi_comm_size c) sendcounts displs sendtype rest
              else rest)
           else if \<not> inter_root c root_rank then OMPI_ERRHANDLER_INVOKE L (Comm_Object comm) MPI_ERR_ROOT
           else if MPI_ROOT \<noteq> root_rank \<and> MPI_PROC_NULL \<noteq> root_rank then
             (if rcount < 0 then OMPI_ERRHANDLER_INVOKE L (Comm_Object comm) MPI_ERR_COUNT
              else if type_null recvtype then OMPI_ERRHANDLER_INVOKE L (Comm_Object comm) MPI_ERR_TYPE
              else rest)
           else if MPI_ROOT = root_rank then scatterv_root_checks L comm (ompi_comm_remote_size c) sendcounts displs sendtype rest
           else rest))
      else rest)"

section \<open>Nonblocking barrier and broadcast\<close>

definition MPI_Ibarrier :: "mpi_lib \<Rightarrow> comm_handle \<Rightarrow> ptr \<Rightarrow> prog" where
  "MPI_Ibarrier L comm req =
     begin_event L (- 1) ''MPI_Ibarrier'' 11 0 0 ''collective'' 10 None None comm 0 None
     (let rest = call_coll L comm (''coll_ibarrier'', [C comm, P req]) in
      if param_check L then OMPI_ERR_INIT_FINALIZE L
        (if ompi_comm_invalid L comm then OMPI_ERRHANDLER_NOHANDLE_INVOKE L MPI_ERR_COMM else rest)
      else rest)"

definition MPI_Ibcast :: "mpi_lib \<Rightarrow> ptr \<Rightarrow> int \<Rightarrow> dtype \<Rightarrow> int \<Rightarrow> comm_handle \<Rightarrow> ptr \<Rightarrow> prog" where
  "MPI_Ibcast L buffer count type root_rank comm req =
     begin_event L (- 1) ''MPI_Ibcast'' 10 0 0 ''collective'' 10 type None comm 0 None
     (let rest = with_comm L comm (\<lambda>c.
        if \<not> c_inter c \<and> ompi_comm_size c \<le> 1 \<or> 0 = count then set_request req Request_empty (Returned MPI_SUCCESS)
        else call_coll L comm (''coll_ibcast'', [P buffer, N count, T type, N root_rank, C comm, P req])) in
      if param_check L then OMPI_ERR_INIT_FINALIZE L
        (if ompi_comm_invalid L comm then OMPI_ERRHANDLER_NOHANDLE_INVOKE L MPI_ERR_COMM
         else OMPI_ERRHANDLER_CHECK L (OMPI_CHECK_DATATYPE_FOR_SEND MPI_SUCCESS type count) (Comm_Object comm)
           (if buffer = MPI_IN_PLACE then OMPI_ERRHANDLER_INVOKE L (Comm_Object comm) MPI_ERR_ARG
            else with_comm L comm (\<lambda>c.
              if \<not> c_inter c then
                (if root_rank \<ge> ompi_comm_size c \<or> root_rank < 0 then OMPI_ERRHANDLER_INVOKE L (Comm_Object comm) MPI_ERR_ROOT
                 else rest)
              else if \<not> inter_root c root_rank then OMPI_ERRHANDLER_INVOKE L (Comm_Object comm) MPI_ERR_ROOT
              else rest)))
      else rest)"

section \<open>Rules of the contract\<close>

text \<open>In the body of a loop, the rest of the loop satisfies the contract once the element satisfies \<open>Q\<close>.\<close>

definition follows :: "bool \<Rightarrow> bool \<Rightarrow> bool" where
  "follows p q \<longleftrightarrow> (p \<longrightarrow> q)"

lemma traced_follows: "follows p (traced L R G B (k s)) \<Longrightarrow> p \<Longrightarrow> traced L R G B (k s)"
  by (simp add: follows_def)

lemma traced_for_each:
  assumes "\<And>x k. x \<in> set xs \<Longrightarrow> follows (Q x) (traced L R G B (k s)) \<Longrightarrow> traced L R G B (f x k s)"
    and "(\<forall>x \<in> set xs. Q x) \<Longrightarrow> traced L R G B (k s)"
  shows "traced L R G B (for_each xs f k s)"
  using assms by (induction xs) (auto simp: follows_def)

text \<open>An array of at least \<open>n\<close> elements, and its elements.\<close>

definition has_elems :: "'a list option \<Rightarrow> int \<Rightarrow> bool" where
  "has_elems xs n \<longleftrightarrow> (case xs of None \<Rightarrow> False | Some l \<Rightarrow> n \<le> int (length l))"

definition elem_at :: "'a list option \<Rightarrow> int \<Rightarrow> 'a" where
  "elem_at xs i = the xs ! nat i"

lemma traced_read_at [trace_rules]:
  "has_elems xs n \<Longrightarrow> 0 \<le> i \<Longrightarrow> i < n \<Longrightarrow> traced L R G B (k (elem_at xs i) s) \<Longrightarrow> traced L R G B (read_at xs i k s)"
  by (auto simp: has_elems_def elem_at_def read_at_def split: option.splits)

lemma set_upto_size [simp]: "set (upto_size n) = {0..<n}"
proof -
  have "int ` {0..<nat n} = {0..<n}" using image_int_atLeastLessThan [of 0 "nat n"] by (cases "0 \<le> n") auto
  then show ?thesis by (simp add: upto_size_def)
qed

lemma traced_type_size [trace_rules]:
  "t \<noteq> None \<Longrightarrow> traced L R G B (k (int (ddt_size (the t))) s) \<Longrightarrow> traced L R G B (ompi_datatype_type_size t k s)"
  by (auto simp: ompi_datatype_type_size_def)

text \<open>An operation that is defined for the type.\<close>

definition op_defined_for :: "op_handle option \<Rightarrow> dtype \<Rightarrow> bool" where
  "op_defined_for op t \<longleftrightarrow> ompi_op_is_valid (the op) t = Some True"

lemma traced_check_op [trace_rules]:
  assumes "op \<noteq> None" "t \<noteq> None" "\<not> op_defined_for op t \<Longrightarrow> traced L R G B (p s)" "op_defined_for op t \<Longrightarrow> traced L R G B (q s)"
  shows "traced L R G B (check_op op t p q s)"
  using assms by (auto simp: check_op_def op_defined_for_def ompi_op_is_valid_def split: option.splits if_splits)

lemma traced_call_coll [trace_rules]:
  assumes "lib_ok L" "comm' \<noteq> Comm_NULL" "running (recorded L name ct comm) [] zero_timespec s" "B [b]"
  shows "traced L (recorded L name ct comm) G B (call_coll L comm' b s)"
  unfolding call_coll_def using assms by - (rule trace_rules | assumption | simp)+

lemma traced_call_reduction [trace_rules]:
  assumes "op \<noteq> None" "lib_ok L" "comm' \<noteq> Comm_NULL" "running (recorded L name ct comm) [] zero_timespec s" "B [b]"
  shows "traced L (recorded L name ct comm) G B (call_reduction L comm' op b s)"
  unfolding call_reduction_def using assms traced_call_coll by (auto split: option.splits)

lemma traced_zero_counts:
  assumes "has_elems xs n" "set is \<subseteq> {0..<n}"
    "traced L R G B (k (c + int (length (filter (\<lambda>i. elem_at xs i = 0) is))) s)"
  shows "traced L R G B (zero_counts xs is c k s)"
  using assms
proof (induction "is" arbitrary: c)
  case (Cons i "is")
  then show ?case by (auto intro!: traced_read_at [where n = n] simp: algebra_simps)
qed simp

section \<open>Contracts\<close>

abbreviation comm_of :: "mpi_lib \<Rightarrow> comm_handle \<Rightarrow> communicator" where
  "comm_of L comm \<equiv> the (comm_object L comm)"

text \<open>A collective reaches its component when there is something to do and every checked argument is valid.\<close>

definition ready :: "mpi_lib \<Rightarrow> comm_handle \<Rightarrow> (communicator \<Rightarrow> bool) \<Rightarrow> (communicator \<Rightarrow> bool) \<Rightarrow> bool" where
  "ready L comm todo valid \<longleftrightarrow> todo (comm_of L comm) \<and>
     (param_check L \<longrightarrow> \<not> ompi_comm_invalid L comm \<and> valid (comm_of L comm))"

definition root_ok :: "communicator \<Rightarrow> int \<Rightarrow> bool" where
  "root_ok c r \<longleftrightarrow> (if c_inter c then inter_root c r else 0 \<le> r \<and> r < ompi_comm_size c)"

lemmas coll_simps = ready_def root_ok_def success_codes check_types_ok

text \<open>
  The contract of a collective: it satisfies the contract of a traced call, and calls its component with \<open>b\<close> if it is
  ready and the fault-tolerance check passes, and only if it is ready.
\<close>

definition coll_contract ::
  "mpi_lib \<Rightarrow> comm_handle \<Rightarrow> string \<Rightarrow> backend_call \<Rightarrow> (communicator \<Rightarrow> bool) \<Rightarrow> (communicator \<Rightarrow> bool) \<Rightarrow> outcome \<Rightarrow> bool" where
  "coll_contract L comm name b todo valid out \<longleftrightarrow>
     traced L (recorded L name ''collective'' comm) (\<not> ready L comm todo valid \<or> ft_blocks_coll L comm)
       (\<lambda>bs. bs = [b] \<and> ready L comm todo valid) out"

text \<open>The checked arguments of the operations with counts per peer.\<close>

definition gatherv_valid ::
  "ptr \<Rightarrow> int \<Rightarrow> dtype \<Rightarrow> ptr \<Rightarrow> int list option \<Rightarrow> int list option \<Rightarrow> dtype \<Rightarrow> int \<Rightarrow> communicator \<Rightarrow> bool" where
  "gatherv_valid sendbuf scount sendtype recvbuf recvcounts displs recvtype root_rank c \<longleftrightarrow>
     root_ok c root_rank \<and> (if ompi_comm_rank c = root_rank then recvbuf \<noteq> MPI_IN_PLACE else sendbuf \<noteq> MPI_IN_PLACE) \<and>
     ((if c_inter c then root_rank \<noteq> MPI_ROOT \<and> root_rank \<noteq> MPI_PROC_NULL else sendbuf \<noteq> MPI_IN_PLACE) \<longrightarrow>
        type_usable sendtype \<and> 0 \<le> scount) \<and>
     ((if c_inter c then root_rank = MPI_ROOT else ompi_comm_rank c = root_rank) \<longrightarrow>
        displs \<noteq> None \<and> (\<forall>i. 0 \<le> i \<and> i < coll_peers c \<longrightarrow> 0 \<le> elem_at recvcounts i \<and> \<not> type_null recvtype))"

definition scatterv_valid ::
  "ptr \<Rightarrow> int list option \<Rightarrow> int list option \<Rightarrow> dtype \<Rightarrow> ptr \<Rightarrow> int \<Rightarrow> dtype \<Rightarrow> int \<Rightarrow> communicator \<Rightarrow> bool" where
  "scatterv_valid sendbuf sendcounts displs sendtype recvbuf rcount recvtype root_rank c \<longleftrightarrow>
     root_ok c root_rank \<and> (if ompi_comm_rank c = root_rank then sendbuf \<noteq> MPI_IN_PLACE else recvbuf \<noteq> MPI_IN_PLACE) \<and>
     ((if c_inter c then root_rank \<noteq> MPI_ROOT \<and> root_rank \<noteq> MPI_PROC_NULL else recvbuf \<noteq> MPI_IN_PLACE) \<longrightarrow>
        \<not> type_null recvtype \<and> 0 \<le> rcount) \<and>
     ((if c_inter c then root_rank = MPI_ROOT else ompi_comm_rank c = root_rank) \<longrightarrow>
        displs \<noteq> None \<and> (\<forall>i. 0 \<le> i \<and> i < coll_peers c \<longrightarrow> type_usable sendtype \<and> 0 \<le> elem_at sendcounts i))"

lemma comm_size_nonneg [simp]: "0 \<le> ompi_comm_size c"
  by (simp add: ompi_comm_size_def)

lemma all_zero_counts:
  "n = int (length (filter p (upto_size n))) \<longleftrightarrow> n \<ge> 0 \<and> (\<forall>i \<in> {0..<n}. p i)"
proof (cases "0 \<le> n")
  case True
  then have "n = int (length (upto_size n))" by (simp add: upto_size_def)
  then have "n = int (length (filter p (upto_size n))) \<longleftrightarrow> length (filter p (upto_size n)) = length (upto_size n)" by linarith
  also have "\<dots> \<longleftrightarrow> (\<forall>i \<in> set (upto_size n). p i)"
    using length_filter_less [of _ "upto_size n" p] by (metis filter_True less_irrefl)
  finally show ?thesis using True by simp
next
  case False
  then have "n \<noteq> int (length (filter p (upto_size n)))" by linarith
  then show ?thesis using False by blast
qed

text \<open>The checked arguments of \<open>MPI_Alltoallv\<close> and \<open>MPI_Alltoallw\<close>, where \<open>st i\<close> and \<open>rt i\<close> are the types for peer \<open>i\<close>.\<close>

definition alltoall_valid ::
  "ptr \<Rightarrow> int list option \<Rightarrow> int list option \<Rightarrow> (int \<Rightarrow> dtype) \<Rightarrow> ptr \<Rightarrow> int list option \<Rightarrow> int list option \<Rightarrow> (int \<Rightarrow> dtype) \<Rightarrow>
   communicator \<Rightarrow> bool" where
  "alltoall_valid sendbuf sendcounts sdispls st recvbuf recvcounts rdispls rt c \<longleftrightarrow>
     rdispls \<noteq> None \<and> recvbuf \<noteq> MPI_IN_PLACE \<and> (if sendbuf = MPI_IN_PLACE then \<not> c_inter c else sdispls \<noteq> None) \<and>
     (\<forall>i. 0 \<le> i \<and> i < coll_peers c \<longrightarrow> type_usable (rt i) \<and> 0 \<le> elem_at recvcounts i \<and>
       (sendbuf \<noteq> MPI_IN_PLACE \<longrightarrow> type_usable (st i) \<and> 0 \<le> elem_at sendcounts i)) \<and>
     (sendbuf \<noteq> MPI_IN_PLACE \<and> \<not> c_inter c \<longrightarrow>
       size_t_mult (int (ddt_size (the (st (ompi_comm_rank c))))) (elem_at sendcounts (ompi_comm_rank c)) =
       size_t_mult (int (ddt_size (the (rt (ompi_comm_rank c))))) (elem_at recvcounts (ompi_comm_rank c)))"

lemma MPI_Barrier_traced:
  assumes "lib_ok L" "fresh_call s" "comm \<noteq> Comm_NULL"
  shows "coll_contract L comm ''MPI_Barrier''
    (''coll_barrier'', [C comm])
    (\<lambda>c. c_inter c \<or> ompi_comm_size c > 1)
    (\<lambda>_. True)
    (MPI_Barrier L comm s)"
  unfolding coll_contract_def MPI_Barrier_def Let_def using assms
  by - (rule trace_rules | assumption | (auto simp: coll_simps split: if_splits; fail))+

lemma MPI_Bcast_traced:
  assumes "lib_ok L" "fresh_call s" "comm \<noteq> Comm_NULL"
  shows "coll_contract L comm ''MPI_Bcast''
    (''coll_bcast'', [P buffer, N count, T type, N root_rank, C comm])
    (\<lambda>c. (c_inter c \<or> ompi_comm_size c > 1) \<and> count \<noteq> 0)
    (\<lambda>c. type_usable type \<and> 0 \<le> count \<and> buffer \<noteq> MPI_IN_PLACE \<and> root_ok c root_rank)
    (MPI_Bcast L buffer count type root_rank comm s)"
  unfolding coll_contract_def MPI_Bcast_def Let_def using assms
  by - (rule trace_rules | assumption | (auto simp: coll_simps split: if_splits; fail))+

lemma MPI_Allgather_traced:
  assumes "lib_ok L" "fresh_call s" "comm \<noteq> Comm_NULL" "\<not> ompi_comm_invalid L comm"
  shows "coll_contract L comm ''MPI_Allgather''
    (''coll_allgather'', [P sendbuf, N scount, T sendtype, P recvbuf, N rcount, T recvtype, C comm])
    (\<lambda>c. if c_inter c then scount \<noteq> 0 \<or> rcount \<noteq> 0 else rcount \<noteq> 0 \<and> (sendbuf = MPI_IN_PLACE \<or> scount \<noteq> 0))
    (\<lambda>c. \<not> type_null recvtype \<and> 0 \<le> rcount \<and> recvbuf \<noteq> MPI_IN_PLACE \<and>
      (if sendbuf = MPI_IN_PLACE then \<not> c_inter c else type_usable sendtype \<and> 0 \<le> scount))
    (MPI_Allgather L sendbuf scount sendtype recvbuf rcount recvtype comm s)"
  unfolding coll_contract_def MPI_Allgather_def Let_def using assms
  by - (rule trace_rules | assumption | (auto simp: coll_simps split: if_splits; fail))+

lemma MPI_Allreduce_traced:
  assumes "lib_ok L" "fresh_call s" "comm \<noteq> Comm_NULL" "op \<noteq> None" "type \<noteq> None"
  shows "coll_contract L comm ''MPI_Allreduce''
    (''coll_allreduce'', [P sendbuf, P recvbuf, N count, T type, Op op, C comm])
    (\<lambda>c. count \<noteq> 0)
    (\<lambda>c. \<not> op_null op \<and> op_defined_for op type \<and> recvbuf \<noteq> MPI_IN_PLACE \<and> (sendbuf = MPI_IN_PLACE \<longrightarrow> \<not> c_inter c) \<and>
      (sendbuf = recvbuf \<and> sendbuf \<noteq> MPI_BOTTOM \<longrightarrow> count \<le> 1) \<and> type_usable type \<and> 0 \<le> count)
    (MPI_Allreduce L sendbuf recvbuf count type op comm s)"
  unfolding coll_contract_def MPI_Allreduce_def Let_def using assms
  by - (rule trace_rules | assumption | (auto simp: coll_simps split: if_splits; fail))+

lemma MPI_Reduce_traced:
  assumes "lib_ok L" "fresh_call s" "comm \<noteq> Comm_NULL" "op \<noteq> None" "type \<noteq> None"
  shows "coll_contract L comm ''MPI_Reduce''
    (''coll_reduce'', [P sendbuf, P recvbuf, N count, T type, Op op, N root_rank, C comm])
    (\<lambda>c. count \<noteq> 0)
    (\<lambda>c. \<not> op_null op \<and> op_defined_for op type \<and> root_ok c root_rank \<and> type_usable type \<and> 0 \<le> count \<and>
      (if ompi_comm_rank c = root_rank then recvbuf \<noteq> MPI_IN_PLACE \<and> (sendbuf = recvbuf \<longrightarrow> count = 0) else sendbuf \<noteq> MPI_IN_PLACE))
    (MPI_Reduce L sendbuf recvbuf count type op root_rank comm s)"
  unfolding coll_contract_def MPI_Reduce_def Let_def using assms
  by - (rule trace_rules | assumption | (auto simp: coll_simps split: if_splits; fail))+

lemma MPI_Scan_traced:
  assumes "lib_ok L" "fresh_call s" "comm \<noteq> Comm_NULL" "op \<noteq> None" "type \<noteq> None"
  shows "coll_contract L comm ''MPI_Scan''
    (''coll_scan'', [P sendbuf, P recvbuf, N count, T type, Op op, C comm])
    (\<lambda>c. count \<noteq> 0)
    (\<lambda>c. \<not> c_inter c \<and> \<not> op_null op \<and> op_defined_for op type \<and> recvbuf \<noteq> MPI_IN_PLACE \<and> type_usable type \<and> 0 \<le> count)
    (MPI_Scan L sendbuf recvbuf count type op comm s)"
  unfolding coll_contract_def MPI_Scan_def Let_def using assms
  by - (rule trace_rules | assumption | (auto simp: coll_simps split: if_splits; fail))+

lemma MPI_Exscan_traced:
  assumes "lib_ok L" "fresh_call s" "comm \<noteq> Comm_NULL" "op \<noteq> None" "type \<noteq> None"
  shows "coll_contract L comm ''MPI_Exscan''
    (''coll_exscan'', [P sendbuf, P recvbuf, N count, T type, Op op, C comm])
    (\<lambda>c. count \<noteq> 0)
    (\<lambda>c. \<not> op_null op \<and> op_defined_for op type \<and> type_usable type \<and> 0 \<le> count)
    (MPI_Exscan L sendbuf recvbuf count type op comm s)"
  unfolding coll_contract_def MPI_Exscan_def Let_def using assms
  by - (rule trace_rules | assumption | (auto simp: coll_simps split: if_splits; fail))+

lemma MPI_Reduce_scatter_block_traced:
  assumes "lib_ok L" "fresh_call s" "comm \<noteq> Comm_NULL" "op \<noteq> None" "type \<noteq> None"
  shows "coll_contract L comm ''MPI_Reduce_scatter_block''
    (''coll_reduce_scatter_block'', [P sendbuf, P recvbuf, N rcount, T type, Op op, C comm])
    (\<lambda>c. rcount \<noteq> 0)
    (\<lambda>c. \<not> op_null op \<and> op_defined_for op type \<and> recvbuf \<noteq> MPI_IN_PLACE \<and> type_usable type \<and> 0 \<le> rcount)
    (MPI_Reduce_scatter_block L sendbuf recvbuf rcount type op comm s)"
  unfolding coll_contract_def MPI_Reduce_scatter_block_def Let_def using assms
  by - (rule trace_rules | assumption | (auto simp: coll_simps split: if_splits; fail))+

lemma MPI_Alltoall_traced:
  assumes "lib_ok L" "fresh_call s" "comm \<noteq> Comm_NULL" "sendtype \<noteq> None" "recvtype \<noteq> None"
  shows "coll_contract L comm ''MPI_Alltoall''
    (''coll_alltoall'', [P sendbuf, N scount, T sendtype, P recvbuf, N rcount, T recvtype, C comm])
    (\<lambda>c. c_inter c \<or> rcount \<noteq> 0 \<and> ddt_size (the recvtype) \<noteq> 0)
    (\<lambda>c. recvbuf \<noteq> MPI_IN_PLACE \<and> type_usable recvtype \<and> 0 \<le> rcount \<and>
      (if sendbuf = MPI_IN_PLACE then \<not> c_inter c else type_usable sendtype \<and> 0 \<le> scount \<and>
        (c_inter c \<or> size_t_mult (int (ddt_size (the sendtype))) scount = size_t_mult (int (ddt_size (the recvtype))) rcount)))
    (MPI_Alltoall L sendbuf scount sendtype recvbuf rcount recvtype comm s)"
  unfolding coll_contract_def MPI_Alltoall_def Let_def using assms
  by - (rule trace_rules | assumption | (auto simp: coll_simps split: if_splits; fail))+

lemma MPI_Gather_traced:
  assumes "lib_ok L" "fresh_call s" "comm \<noteq> Comm_NULL" "0 \<le> c_my_rank (comm_of L comm)"
  shows "coll_contract L comm ''MPI_Gather''
    (''coll_gather'', [P sendbuf, N scount, T sendtype, P recvbuf, N rcount, T recvtype, N root_rank, C comm])
    (\<lambda>c. if root_rank = MPI_ROOT \<or> root_rank = MPI_PROC_NULL then rcount \<noteq> 0 \<and> (root_rank = MPI_PROC_NULL \<longrightarrow> scount \<noteq> 0)
      else if ompi_comm_rank c = root_rank \<and> sendbuf = MPI_IN_PLACE then rcount \<noteq> 0 else scount \<noteq> 0)
    (\<lambda>c. root_ok c root_rank \<and> (if ompi_comm_rank c = root_rank then recvbuf \<noteq> MPI_IN_PLACE else sendbuf \<noteq> MPI_IN_PLACE) \<and>
      (if c_inter c then (root_rank = MPI_ROOT \<longrightarrow> \<not> type_null recvtype \<and> 0 \<le> rcount) \<and>
         (root_rank \<noteq> MPI_ROOT \<and> root_rank \<noteq> MPI_PROC_NULL \<longrightarrow> type_usable sendtype \<and> 0 \<le> scount)
       else (sendbuf \<noteq> MPI_IN_PLACE \<longrightarrow> type_usable sendtype \<and> 0 \<le> scount) \<and> (ompi_comm_rank c = root_rank \<longrightarrow> \<not> type_null recvtype \<and> 0 \<le> rcount)))
    (MPI_Gather L sendbuf scount sendtype recvbuf rcount recvtype root_rank comm s)"
  unfolding coll_contract_def MPI_Gather_def Let_def using assms
  by - (rule trace_rules | assumption | (auto simp: coll_simps ompi_comm_rank_def MPI_ROOT_def MPI_PROC_NULL_def split: if_splits; fail))+

lemma MPI_Scatter_traced:
  assumes "lib_ok L" "fresh_call s" "comm \<noteq> Comm_NULL" "0 \<le> c_my_rank (comm_of L comm)" "recvtype \<noteq> None"
  shows "coll_contract L comm ''MPI_Scatter''
    (''coll_scatter'', [P sendbuf, N scount, T sendtype, P recvbuf, N rcount, T recvtype, N root_rank, C comm])
    (\<lambda>c. if root_rank = MPI_ROOT \<or> root_rank = MPI_PROC_NULL then scount \<noteq> 0 \<and> (root_rank = MPI_PROC_NULL \<longrightarrow> rcount \<noteq> 0)
      else if ompi_comm_rank c = root_rank \<and> recvbuf = MPI_IN_PLACE then scount \<noteq> 0 else rcount \<noteq> 0)
    (\<lambda>c. root_ok c root_rank \<and> (if ompi_comm_rank c = root_rank then sendbuf \<noteq> MPI_IN_PLACE else recvbuf \<noteq> MPI_IN_PLACE) \<and>
      (if c_inter c then (root_rank = MPI_ROOT \<longrightarrow> type_usable sendtype \<and> 0 \<le> scount) \<and>
         (root_rank \<noteq> MPI_ROOT \<and> root_rank \<noteq> MPI_PROC_NULL \<longrightarrow> \<not> type_null recvtype \<and> 0 \<le> rcount)
       else if recvbuf \<noteq> MPI_IN_PLACE then \<not> type_null recvtype \<and> 0 \<le> rcount else type_usable sendtype \<and> 0 \<le> scount))
    (MPI_Scatter L sendbuf scount sendtype recvbuf rcount recvtype root_rank comm s)"
  unfolding coll_contract_def MPI_Scatter_def Let_def using assms
  by - (rule trace_rules | assumption | (auto simp: coll_simps ompi_comm_rank_def MPI_ROOT_def MPI_PROC_NULL_def type_null_def split: if_splits; fail))+

lemma MPI_Ibarrier_traced:
  assumes "lib_ok L" "fresh_call s" "comm \<noteq> Comm_NULL"
  shows "coll_contract L comm ''MPI_Ibarrie''
    (''coll_ibarrier'', [C comm, P req])
    (\<lambda>c. True)
    (\<lambda>_. True)
    (MPI_Ibarrier L comm req s)"
  unfolding coll_contract_def MPI_Ibarrier_def Let_def using assms
  by - (rule trace_rules | assumption | (auto simp: coll_simps split: if_splits; fail))+

lemma MPI_Ibcast_traced:
  assumes "lib_ok L" "fresh_call s" "comm \<noteq> Comm_NULL" "req \<noteq> NULL"
  shows "coll_contract L comm ''MPI_Ibcast''
    (''coll_ibcast'', [P buffer, N count, T type, N root_rank, C comm, P req])
    (\<lambda>c. (c_inter c \<or> ompi_comm_size c > 1) \<and> count \<noteq> 0)
    (\<lambda>c. type_usable type \<and> 0 \<le> count \<and> buffer \<noteq> MPI_IN_PLACE \<and> root_ok c root_rank)
    (MPI_Ibcast L buffer count type root_rank comm req s)"
  unfolding coll_contract_def MPI_Ibcast_def Let_def using assms
  by - (rule trace_rules | assumption | (auto simp: coll_simps split: if_splits; fail))+

text \<open>The operations with an array of counts loop over it, once to check and once to look for something to do.\<close>

lemma MPI_Allgatherv_traced:
  assumes "lib_ok L" "fresh_call s" "comm \<noteq> Comm_NULL" "has_elems recvcounts (coll_peers (comm_of L comm))"
  shows "coll_contract L comm ''MPI_Allgatherv''
    (''coll_allgatherv'', [P sendbuf, N scount, T sendtype, P recvbuf, Ns recvcounts, Ns displs, T recvtype, C comm])
    (\<lambda>c. c_inter c \<or> (\<exists>i. 0 \<le> i \<and> i < ompi_comm_size c \<and> elem_at recvcounts i \<noteq> 0))
    (\<lambda>c. recvbuf \<noteq> MPI_IN_PLACE \<and> (recvtype = None \<or> \<not> type_null recvtype) \<and> displs \<noteq> None \<and>
      (if sendbuf = MPI_IN_PLACE then \<not> c_inter c else type_usable sendtype \<and> 0 \<le> scount) \<and>
      (\<forall>i. 0 \<le> i \<and> i < ompi_comm_remote_size c \<longrightarrow> 0 \<le> elem_at recvcounts i))
    (MPI_Allgatherv L sendbuf scount sendtype recvbuf recvcounts displs recvtype comm s)"
  unfolding coll_contract_def MPI_Allgatherv_def Let_def using assms
  by - (rule traced_for_each [where Q = "\<lambda>i. elem_at recvcounts i = 0" and k = "Returned MPI_SUCCESS"]
    traced_for_each [where Q = "\<lambda>i. 0 \<le> elem_at recvcounts i"] trace_rules
    | assumption | erule traced_follows
    | (auto simp: coll_simps Ball_def coll_peers_def type_null_def ompi_comm_remote_size_def split: if_splits option.splits dest: leD intro!: may_return_open; fail))+

lemma MPI_Reduce_scatter_traced:
  assumes "lib_ok L" "fresh_call s" "comm \<noteq> Comm_NULL" "op \<noteq> None" "type \<noteq> None"
    "has_elems recvcounts (ompi_comm_size (comm_of L comm))"
  shows "coll_contract L comm ''MPI_Reduce_scatter''
    (''coll_reduce_scatter'', [P sendbuf, P recvbuf, Ns recvcounts, T type, Op op, C comm])
    (\<lambda>c. \<exists>i. 0 \<le> i \<and> i < ompi_comm_size c \<and> elem_at recvcounts i \<noteq> 0)
    (\<lambda>c. \<not> op_null op \<and> op_defined_for op type \<and> recvbuf \<noteq> MPI_IN_PLACE \<and>
      (\<forall>i. 0 \<le> i \<and> i < ompi_comm_size c \<longrightarrow> type_usable type \<and> 0 \<le> elem_at recvcounts i))
    (MPI_Reduce_scatter L sendbuf recvbuf recvcounts type op comm s)"
  unfolding coll_contract_def MPI_Reduce_scatter_def Let_def using assms
  by - (rule traced_zero_counts traced_for_each [where Q = "\<lambda>i. type_usable type \<and> 0 \<le> elem_at recvcounts i"] trace_rules
    | assumption | erule traced_follows
    | (auto simp: coll_simps Ball_def all_zero_counts has_elems_def split: if_splits option.splits dest: leD intro!: may_return_open; fail))+

lemma MPI_Gatherv_traced:
  assumes "lib_ok L" "fresh_call s" "comm \<noteq> Comm_NULL" "has_elems recvcounts (coll_peers (comm_of L comm))"
  shows "coll_contract L comm ''MPI_Gatherv''
    (''coll_gatherv'', [P sendbuf, N scount, T sendtype, P recvbuf, Ns recvcounts, Ns displs, T recvtype, N root_rank, C comm])
    (\<lambda>_. True) (gatherv_valid sendbuf scount sendtype recvbuf recvcounts displs recvtype root_rank)
    (MPI_Gatherv L sendbuf scount sendtype recvbuf recvcounts displs recvtype root_rank comm s)"
  unfolding coll_contract_def MPI_Gatherv_def gatherv_root_checks_def Let_def using assms
  by - (rule traced_for_each [where Q = "\<lambda>i. 0 \<le> elem_at recvcounts i \<and> \<not> type_null recvtype"] trace_rules
    | assumption | erule traced_follows
    | (auto simp: coll_simps Ball_def gatherv_valid_def coll_peers_def has_elems_def split: if_splits option.splits dest: leD intro!: may_return_open; fail))+

lemma MPI_Scatterv_traced:
  assumes "lib_ok L" "fresh_call s" "comm \<noteq> Comm_NULL" "has_elems sendcounts (coll_peers (comm_of L comm))"
  shows "coll_contract L comm ''MPI_Scatterv''
    (''coll_scatterv'', [P sendbuf, Ns sendcounts, Ns displs, T sendtype, P recvbuf, N rcount, T recvtype, N root_rank, C comm])
    (\<lambda>_. True) (scatterv_valid sendbuf sendcounts displs sendtype recvbuf rcount recvtype root_rank)
    (MPI_Scatterv L sendbuf sendcounts displs sendtype recvbuf rcount recvtype root_rank comm s)"
  unfolding coll_contract_def MPI_Scatterv_def scatterv_root_checks_def Let_def using assms
  by - (rule traced_for_each [where Q = "\<lambda>i. type_usable sendtype \<and> 0 \<le> elem_at sendcounts i"] trace_rules
    | assumption | erule traced_follows
    | (auto simp: coll_simps Ball_def scatterv_valid_def coll_peers_def has_elems_def split: if_splits option.splits dest: leD intro!: may_return_open; fail))+

lemma traced_swap [trace_rules]:
  "(b \<Longrightarrow> traced L R G B (f x1 y1 z1 s)) \<Longrightarrow> (\<not> b \<Longrightarrow> traced L R G B (f x2 y2 z2 s)) \<Longrightarrow>
    traced L R G B ((case if b then (x1, y1, z1) else (x2, y2, z2) of (x, y, z) \<Rightarrow> f x y z) s)"
  by simp

lemma MPI_Alltoallv_traced:
  assumes "lib_ok L" "fresh_call s" "comm \<noteq> Comm_NULL" "sendtype \<noteq> None" "recvtype \<noteq> None"
    "has_elems sendcounts (coll_peers (comm_of L comm))" "has_elems recvcounts (coll_peers (comm_of L comm))"
    "0 \<le> c_my_rank (comm_of L comm)" "c_my_rank (comm_of L comm) < ompi_comm_size (comm_of L comm)"
  shows "coll_contract L comm ''MPI_Alltoallv''
    (if param_check L \<and> sendbuf = MPI_IN_PLACE
        then (''coll_alltoallv'', [P sendbuf, Ns recvcounts, Ns rdispls, T recvtype, P recvbuf, Ns recvcounts, Ns rdispls, T recvtype, C comm])
        else (''coll_alltoallv'', [P sendbuf, Ns sendcounts, Ns sdispls, T sendtype, P recvbuf, Ns recvcounts, Ns rdispls, T recvtype, C comm]))
    (\<lambda>_. True)
    (alltoall_valid sendbuf sendcounts sdispls (\<lambda>_. sendtype) recvbuf recvcounts rdispls (\<lambda>_. recvtype))
    (MPI_Alltoallv L sendbuf sendcounts sdispls sendtype recvbuf recvcounts rdispls recvtype comm s)"
proof (cases "sendbuf = MPI_IN_PLACE")
  case True
  then show ?thesis
    unfolding coll_contract_def MPI_Alltoallv_def Let_def using assms
    by - (rule traced_for_each [where Q = "\<lambda>i. type_usable recvtype \<and> 0 \<le> elem_at recvcounts i"] trace_rules
    | assumption | erule traced_follows
      | (auto simp: coll_simps Ball_def alltoall_valid_def coll_peers_def has_elems_def ompi_comm_rank_def split: if_splits option.splits dest: leD intro!: may_return_open; fail))+
next
  case False
  then show ?thesis
    unfolding coll_contract_def MPI_Alltoallv_def Let_def using assms
    by - (rule traced_for_each [where Q = "\<lambda>i. type_usable recvtype \<and> 0 \<le> elem_at recvcounts i \<and> type_usable sendtype \<and> 0 \<le> elem_at sendcounts i"] trace_rules
    | assumption | erule traced_follows
      | (auto simp: coll_simps Ball_def alltoall_valid_def coll_peers_def has_elems_def ompi_comm_rank_def split: if_splits option.splits dest: leD intro!: may_return_open; fail))+
qed

lemma MPI_Alltoallw_traced:
  assumes "lib_ok L" "fresh_call s" "comm \<noteq> Comm_NULL"
    "has_elems sendcounts (coll_peers (comm_of L comm))" "has_elems recvcounts (coll_peers (comm_of L comm))"
    "has_elems sendtypes (coll_peers (comm_of L comm))" "has_elems recvtypes (coll_peers (comm_of L comm))"
    "\<And>i. 0 \<le> i \<Longrightarrow> i < coll_peers (comm_of L comm) \<Longrightarrow> elem_at sendtypes i \<noteq> None \<and> elem_at recvtypes i \<noteq> None"
    "0 < coll_peers (comm_of L comm)"
    "0 \<le> c_my_rank (comm_of L comm)" "c_my_rank (comm_of L comm) < ompi_comm_size (comm_of L comm)"
  shows "coll_contract L comm ''MPI_Alltoallw''
    (if param_check L \<and> sendbuf = MPI_IN_PLACE
        then (''coll_alltoallw'', [P sendbuf, Ns recvcounts, Ns rdispls, Ts recvtypes, P recvbuf, Ns recvcounts, Ns rdispls, Ts recvtypes, C comm])
        else (''coll_alltoallw'', [P sendbuf, Ns sendcounts, Ns sdispls, Ts sendtypes, P recvbuf, Ns recvcounts, Ns rdispls, Ts recvtypes, C comm]))
    (\<lambda>_. True)
    (alltoall_valid sendbuf sendcounts sdispls (elem_at sendtypes) recvbuf recvcounts rdispls (elem_at recvtypes))
    (MPI_Alltoallw L sendbuf sendcounts sdispls sendtypes recvbuf recvcounts rdispls recvtypes comm s)"
proof (cases "sendbuf = MPI_IN_PLACE")
  case True
  then show ?thesis
    unfolding coll_contract_def MPI_Alltoallw_def Let_def using assms
    by - (rule traced_for_each [where Q = "\<lambda>i. type_usable (elem_at recvtypes i) \<and> 0 \<le> elem_at recvcounts i"] trace_rules
    | assumption | erule traced_follows
      | (auto simp: coll_simps Ball_def alltoall_valid_def coll_peers_def has_elems_def ompi_comm_rank_def split: if_splits option.splits dest: leD intro!: may_return_open; fail))+
next
  case False
  then show ?thesis
    unfolding coll_contract_def MPI_Alltoallw_def Let_def using assms
    by - (rule traced_for_each [where Q = "\<lambda>i. type_usable (elem_at recvtypes i) \<and> 0 \<le> elem_at recvcounts i \<and> type_usable (elem_at sendtypes i) \<and> 0 \<le> elem_at sendcounts i"] trace_rules
    | assumption | erule traced_follows
      | (auto simp: coll_simps Ball_def alltoall_valid_def coll_peers_def has_elems_def ompi_comm_rank_def split: if_splits option.splits dest: leD intro!: may_return_open; fail))+
qed

section \<open>Properties\<close>

lemma contract_idle:
  assumes "coll_contract L comm name b todo valid (Returned rc s)" and "\<not> todo (comm_of L comm)"
  shows "backend s = [] \<and> \<not> edumpi_amt_entry_complete (item s)"
proof -
  have "\<not> ready L comm todo valid" using assms(2) by (simp add: ready_def)
  with assms(1) traced_open show ?thesis unfolding coll_contract_def by blast
qed

text \<open>A communicator in which the process has a rank.\<close>

definition member_of :: "communicator \<Rightarrow> bool" where
  "member_of c \<longleftrightarrow> 0 \<le> c_my_rank c \<and> c_my_rank c < ompi_comm_size c"







text \<open>The non-blocking barrier and broadcast satisfy the contract too, and end their entry when the operation has been
  started; the barrier is recorded under a name that lost its last character.\<close>

theorem nonblocking_collectives_traced:
  assumes "lib_ok L" "fresh_call s" "comm \<noteq> Comm_NULL" and "req \<noteq> NULL"
  shows "coll_contract L comm ''MPI_Ibarrie''
      (''coll_ibarrier'', [C comm, P req])
      (\<lambda>c. True)
      (\<lambda>_. True)
      (MPI_Ibarrier L comm req s) \<and>
    coll_contract L comm ''MPI_Ibcast''
      (''coll_ibcast'', [P buffer, N count, T type, N root_rank, C comm, P req])
      (\<lambda>c. (c_inter c \<or> ompi_comm_size c > 1) \<and> count \<noteq> 0)
      (\<lambda>c. type_usable type \<and> 0 \<le> count \<and> buffer \<noteq> MPI_IN_PLACE \<and> root_ok c root_rank)
      (MPI_Ibcast L buffer count type root_rank comm req s)"
  by (intro conjI MPI_Ibarrier_traced MPI_Ibcast_traced assms)

theorem nonblocking_collectives_traced_witness:
  "coll_contract demo_lib MPI_COMM_WORLD ''MPI_Ibarrie'' (''coll_ibarrier'', [C MPI_COMM_WORLD, P 80]) (\<lambda>c. True) (\<lambda>_. True)
     (MPI_Ibarrier demo_lib MPI_COMM_WORLD 80 demo_call)"
proof -
  have "MPI_COMM_WORLD \<noteq> Comm_NULL" "(80 :: ptr) \<noteq> NULL" by (simp_all add: NULL_def)
  from nonblocking_collectives_traced [OF demo_lib_ok(1) demo_fresh this] show ?thesis by blast
qed

text \<open>A collective with nothing to do never ends its event: a barrier or broadcast of one process, and a broadcast or
  reduction of no elements, return without a call of the component, and the entry still counts as unfinished.\<close>

theorem idle_collectives_unfinished:
  assumes "lib_ok L" "fresh_call s" "comm \<noteq> Comm_NULL" "op \<noteq> None" "type \<noteq> None"
    and "\<not> c_inter (comm_of L comm)"
  shows "(ompi_comm_size (comm_of L comm) \<le> 1 \<longrightarrow> MPI_Barrier L comm s = Returned rc s' \<longrightarrow>
      backend s' = [] \<and> \<not> edumpi_amt_entry_complete (item s')) \<and>
    (ompi_comm_size (comm_of L comm) \<le> 1 \<or> count = 0 \<longrightarrow> MPI_Bcast L buffer count type root_rank comm s = Returned rc s' \<longrightarrow>
      backend s' = [] \<and> \<not> edumpi_amt_entry_complete (item s')) \<and>
    (MPI_Allreduce L sendbuf recvbuf 0 type op comm s = Returned rc s' \<longrightarrow>
      backend s' = [] \<and> \<not> edumpi_amt_entry_complete (item s')) \<and>
    (MPI_Reduce L sendbuf recvbuf 0 type op root_rank comm s = Returned rc s' \<longrightarrow>
      backend s' = [] \<and> \<not> edumpi_amt_entry_complete (item s'))"
proof -
  note b = MPI_Barrier_traced [OF assms(1-3)] and bc = MPI_Bcast_traced [OF assms(1-3), of buffer count type root_rank]
    and ar = MPI_Allreduce_traced [OF assms(1-5), of sendbuf recvbuf 0]
    and r = MPI_Reduce_traced [OF assms(1-5), of sendbuf recvbuf 0 root_rank]
  have "backend s' = [] \<and> \<not> edumpi_amt_entry_complete (item s')"
    if "MPI_Barrier L comm s = Returned rc s'" "ompi_comm_size (comm_of L comm) \<le> 1"
    using contract_idle [OF b [unfolded that(1)]] that(2) assms(6) by simp
  moreover have "backend s' = [] \<and> \<not> edumpi_amt_entry_complete (item s')"
    if "MPI_Bcast L buffer count type root_rank comm s = Returned rc s'" "ompi_comm_size (comm_of L comm) \<le> 1 \<or> count = 0"
    using contract_idle [OF bc [unfolded that(1)]] that(2) assms(6) by auto
  moreover have "backend s' = [] \<and> \<not> edumpi_amt_entry_complete (item s')"
    if "MPI_Allreduce L sendbuf recvbuf 0 type op comm s = Returned rc s'"
    using contract_idle [OF ar [unfolded that]] by simp
  moreover have "backend s' = [] \<and> \<not> edumpi_amt_entry_complete (item s')"
    if "MPI_Reduce L sendbuf recvbuf 0 type op root_rank comm s = Returned rc s'"
    using contract_idle [OF r [unfolded that]] by simp
  ultimately show ?thesis by blast
qed

theorem idle_collectives_unfinished_witness:
  "\<exists>s'. MPI_Bcast demo_lib 64 0 demo_type 1 MPI_COMM_WORLD demo_call = Returned 0 s' \<and> \<not> edumpi_amt_entry_complete (item s')"
proof -
  obtain e where e: "\<forall>k. begin_event demo_lib (- 1) ''MPI_Bcast'' 9 0 0 ''collective'' 10 demo_type None MPI_COMM_WORLD 1 None k demo_call =
      k (demo_call\<lparr>item := e\<rparr>)"
    using begin_event_runs [OF demo_lib_ok(1) demo_fresh, of 9 "''MPI_Bcast''" "''collective''" 10 "- 1" 0 0 demo_type None MPI_COMM_WORLD 1 None]
    by fastforce
  have r: "MPI_Bcast demo_lib 64 0 demo_type 1 MPI_COMM_WORLD demo_call = Returned 0 (demo_call\<lparr>item := e\<rparr>)"
    unfolding MPI_Bcast_def
    by (simp only: e) (simp add: Let_def OMPI_ERR_INIT_FINALIZE_def OMPI_ERRHANDLER_CHECK_def ompi_comm_invalid_def with_comm_def
        OMPI_CHECK_DATATYPE_FOR_SEND_def demo_lib_def demo_env_def demo_type_def type_null_def MPI_IN_PLACE_def ompi_comm_size_def
        ft_coll_def mpi_codes)
  have c: "MPI_COMM_WORLD \<noteq> Comm_NULL" "demo_op \<noteq> None" "demo_type \<noteq> None" "\<not> c_inter (comm_of demo_lib MPI_COMM_WORLD)"
    by (simp_all add: demo_op_def demo_type_def demo_lib_def demo_env_def)
  from idle_collectives_unfinished [OF demo_lib_ok(1) demo_fresh c, where count = 0] r show ?thesis by blast
qed

text \<open>Two collectives dereference a null handle before, or in spite of, the checks. \<open>MPI_Allgather\<close> reports an invalid
  communicator to the error handler and goes on with it; and \<open>MPI_Alltoallw\<close> reads the first send type for its entry,
  although the send types may be a null pointer with \<^verbatim>\<open>MPI_IN_PLACE\<close>.\<close>

theorem null_handles_undefined:
  assumes "lib_ok L" "fresh_call s" and "\<And>obj code. errhandler L obj code \<noteq> None"
  shows "MPI_Allgather L sendbuf scount sendtype recvbuf rcount recvtype Comm_NULL s = Undefined \<and>
    MPI_Alltoallw L MPI_IN_PLACE sendcounts sdispls None recvbuf recvcounts rdispls recvtypes comm s = Undefined"
proof -
  obtain e where "\<forall>k. begin_event L (- 1) ''MPI_Allgather'' 13 0 0 ''collective'' 10 sendtype recvtype Comm_NULL 1 None k s =
      k (s\<lparr>item := e\<rparr>)"
    using begin_event_runs [OF assms(1,2), of 13 "''MPI_Allgather''" "''collective''" 10 "- 1" 0 0 sendtype recvtype Comm_NULL 1 None]
    by fastforce
  then have "MPI_Allgather L sendbuf scount sendtype recvbuf rcount recvtype Comm_NULL s = Undefined"
    using assms(1) assms(3) [of No_Object "ompi_errcode_get_mpi_code L MPI_ERR_COMM"]
    by (auto simp: MPI_Allgather_def Let_def OMPI_ERR_INIT_FINALIZE_def lib_ok_def ompi_errhandler_invoke_def OMPI_ERRHANDLER_CHECK_def
        ft_coll_def with_comm_def success_codes)
  moreover have "MPI_Alltoallw L MPI_IN_PLACE sendcounts sdispls None recvbuf recvcounts rdispls recvtypes comm s = Undefined"
    by (simp add: MPI_Alltoallw_def read_at_def)
  ultimately show ?thesis by blast
qed

theorem null_handles_undefined_witness:
  "MPI_Allgather demo_lib 64 1 demo_type 72 1 demo_type Comm_NULL demo_call = Undefined"
proof -
  have "errhandler demo_lib obj code \<noteq> None" for obj code by (simp add: demo_lib_def)
  from null_handles_undefined [OF demo_lib_ok(1) demo_fresh this] show ?thesis by blast
qed

end
