(* ===== verification/TopoBase.thy ===== *)
theory TopoBase
  imports Bindings
begin

text \<open>
  The topology functions of \<^verbatim>\<open>src/ompi/mca/topo/base\<close>: the numbering of a Cartesian grid in row-major
  order, shifts along a dimension, sub-grids, and the neighbour lists of a graph. A communicator without the topology
  a function reads, a read outside an array and a division by zero are undefined behaviour (\<open>UB\<close>). Memory allocation
  is assumed to succeed.
\<close>

section \<open>Results of the functions\<close>

datatype 'a c_result = Ok 'a | Err int | UB

fun bind_result :: "'a c_result \<Rightarrow> ('a \<Rightarrow> 'b c_result) \<Rightarrow> 'b c_result" where
  "bind_result (Ok x) f = f x"
| "bind_result (Err e) f = Err e"
| "bind_result UB f = UB"

lemma bind_result_Ok: "bind_result m f = Ok y \<longleftrightarrow> (\<exists>x. m = Ok x \<and> f x = Ok y)"
  by (cases m) auto

definition MPI_UNDEFINED :: int where "MPI_UNDEFINED = - 32766"
definition MPI_ERR_DIMS :: int where "MPI_ERR_DIMS = 12"
definition OMPI_ERROR :: int where "OMPI_ERROR = - 1"
definition OMPI_ERR_BAD_PARAM :: int where "OMPI_ERR_BAD_PARAM = - 5"
definition OMPI_ERR_NOT_FOUND :: int where "OMPI_ERR_NOT_FOUND = - 13"
definition INT_MAX :: int where "INT_MAX = 2147483647"

text \<open>
  What a binding without an entry does: the error handlers it invokes, and its result. \<open>Failed\<close> is the return after an
  error handler, and \<open>Crash\<close> is undefined behaviour.
\<close>

datatype 'a reply = Failed | Value 'a | Crash

type_synonym 'a answer = "(mpi_object \<times> int) list \<times> 'a reply"

definition report :: "mpi_object \<Rightarrow> int \<Rightarrow> 'a answer" where
  "report obj err = ([(obj, err)], Failed)"

text \<open>\<^verbatim>\<open>OMPI_ERR_INIT_FINALIZE\<close> reports and goes on.\<close>

definition init_finalize :: "mpi_lib \<Rightarrow> 'a answer \<Rightarrow> 'a answer" where
  "init_finalize L a = (if ompi_instance_count L = 0 then ((No_Object, MPI_ERR_ARG) # fst a, snd a) else a)"

text \<open>\<^verbatim>\<open>OMPI_ERRHANDLER_RETURN(err, comm, err, ...)\<close> on the result of a topology function.\<close>

definition reply_with :: "mpi_lib \<Rightarrow> mpi_object \<Rightarrow> 'a c_result \<Rightarrow> 'a answer" where
  "reply_with L obj res =
     (case res of Ok x \<Rightarrow> ([], Value x) | Err e \<Rightarrow> report obj (ompi_errcode_get_mpi_code L e) | UB \<Rightarrow> ([], Crash))"

definition with_cart :: "communicator \<Rightarrow> (cart_topo \<Rightarrow> 'a c_result) \<Rightarrow> 'a c_result" where
  "with_cart comm f = (case c_topo comm of Some (Cart t) \<Rightarrow> f t | _ \<Rightarrow> UB)"

definition with_graph :: "communicator \<Rightarrow> (graph_topo \<Rightarrow> 'a c_result) \<Rightarrow> 'a c_result" where
  "with_graph comm f = (case c_topo comm of Some (Graph t) \<Rightarrow> f t | _ \<Rightarrow> UB)"

text \<open>\<^verbatim>\<open>xs[i]\<close>.\<close>

definition fetch :: "'a list \<Rightarrow> int \<Rightarrow> 'a c_result" where
  "fetch xs i = (if 0 \<le> i \<and> i < int (length xs) then Ok (xs ! nat i) else UB)"

section \<open>Cartesian grids\<close>

text \<open>The loop of \<open>mca_topo_base_cart_coords\<close> over the dimensions.\<close>

fun coords_loop :: "int list \<Rightarrow> int \<Rightarrow> int \<Rightarrow> int list c_result" where
  "coords_loop [] remprocs rank = Ok []"
| "coords_loop (dm # ds) remprocs rank =
     (if dm = 0 then UB
      else let remprocs = c_div remprocs dm in
        if remprocs = 0 then UB
        else bind_result (coords_loop ds remprocs (c_mod rank remprocs)) (\<lambda>cs. Ok (c_div rank remprocs # cs)))"

definition mca_topo_base_cart_coords :: "communicator \<Rightarrow> int \<Rightarrow> int \<Rightarrow> int list c_result" where
  "mca_topo_base_cart_coords comm rank maxdims =
     with_cart comm (\<lambda>t. coords_loop (take (nat (min (cart_ndims t) maxdims)) (cart_dims t)) (ompi_comm_size comm) rank)"

text \<open>The loop of \<open>mca_topo_base_cart_rank\<close> from the last dimension to the first, with \<^verbatim>\<open>prank\<close> and \<^verbatim>\<open>factor\<close>.\<close>

fun rank_loop :: "int list \<Rightarrow> int list \<Rightarrow> (int \<times> int) c_result" where
  "rank_loop [] cs = Ok (0, 1)"
| "rank_loop (dm # ds) [] = UB"
| "rank_loop (dm # ds) (ord # cs) = bind_result (rank_loop ds cs) (\<lambda>(prank, factor).
     if (ord < 0 \<or> ord \<ge> dm) \<and> dm = 0 then UB
     else let ord = (if ord < 0 \<or> ord \<ge> dm
           then let ord = c_mod ord dm in if ord < 0 then ord + dm else ord else ord) in
       Ok (prank + factor * ord, factor * dm))"

definition mca_topo_base_cart_rank :: "communicator \<Rightarrow> int list \<Rightarrow> int c_result" where
  "mca_topo_base_cart_rank comm coords =
     with_cart comm (\<lambda>t. bind_result (rank_loop (cart_dims t) coords) (\<lambda>(prank, _). Ok prank))"

text \<open>The loop of \<open>mca_topo_base_cart_shift\<close>: \<^verbatim>\<open>(thisdirection, thisperiod, ord, factor)\<close>.\<close>

fun shift_loop :: "(int \<times> int) list \<Rightarrow> int \<times> int \<times> int \<times> int \<Rightarrow> (int \<times> int \<times> int \<times> int) c_result" where
  "shift_loop [] st = Ok st"
| "shift_loop ((dm, period) # ds) (d, q, ord, factor) =
     (if factor = 0 \<or> dm = 0 then UB else shift_loop ds (dm, period, c_mod ord factor, c_div factor dm))"

text \<open>The target of a shift to the coordinate \<open>to\<close>: the same code for the source and the destination.\<close>

definition shift_target :: "int \<Rightarrow> int \<Rightarrow> int \<Rightarrow> int \<Rightarrow> int \<Rightarrow> int \<Rightarrow> int c_result" where
  "shift_target rank thisdirection thisperiod ord factor to =
     (if (to < 0 \<or> to \<ge> thisdirection) \<and> thisperiod = 0 then Ok MPI_PROC_NULL
      else if thisdirection = 0 then UB
      else let to = c_mod to thisdirection; to = (if to < 0 then to + thisdirection else to) in
        Ok (rank + (to - ord) * factor))"

definition mca_topo_base_cart_shift :: "communicator \<Rightarrow> int \<Rightarrow> int \<Rightarrow> (int \<times> int) c_result" where
  "mca_topo_base_cart_shift comm direction disp =
     (let ord = ompi_comm_rank comm in
      if disp = 0 then Ok (ord, ord)
      else with_cart comm (\<lambda>t.
        bind_result (shift_loop (take (nat (min (cart_ndims t) (direction + 1))) (zip (cart_dims t) (cart_periods t)))
            (0, 0, ord, ompi_comm_size comm))
          (\<lambda>(thisdirection, thisperiod, ord, factor).
            if factor = 0 then UB
            else let ord = c_div ord factor; rank = ompi_comm_rank comm in
              bind_result (shift_target rank thisdirection thisperiod ord factor (ord + disp)) (\<lambda>rank_dest.
              bind_result (shift_target rank thisdirection thisperiod ord factor (ord - disp)) (\<lambda>rank_source.
                Ok (rank_source, rank_dest))))))"

text \<open>
  \<open>mca_topo_base_cart_sub\<close>: the colour and the key of this process, and the grid of the new communicator, in which
  \<^verbatim>\<open>ompi_comm_split\<close> has put \<open>procs\<close> processes and given this one the rank \<open>newrank\<close>.
\<close>

fun colour_loop :: "int list \<Rightarrow> int list \<Rightarrow> int list \<Rightarrow> (int \<times> int \<times> int \<times> int \<times> int) c_result" where
  "colour_loop [] cs rs = Ok (0, 1, 0, 1, 0)"
| "colour_loop (dm # ds) (c # cs) (r # rs) = bind_result (colour_loop ds cs rs) (\<lambda>(colour, colfactor, key, keyfactor, ndim).
     if r = 0 then Ok (colour + colfactor * c, colfactor * dm, key, keyfactor, ndim)
     else Ok (colour, colfactor, key + keyfactor * c, keyfactor * dm, ndim + 1))"
| "colour_loop (dm # ds) _ _ = UB"

definition cart_sub_split :: "communicator \<Rightarrow> int list \<Rightarrow> (int \<times> int) c_result" where
  "cart_sub_split comm remain_dims = with_cart comm (\<lambda>t.
     bind_result (colour_loop (cart_dims t) (cart_coords t) remain_dims) (\<lambda>(colour, _, key, _, ndim).
       Ok (if 0 = ndim then ompi_comm_rank comm else colour, key)))"

fun remaining :: "int list \<Rightarrow> 'a list \<Rightarrow> 'a list" where
  "remaining (r # rs) (x # xs) = (if r \<noteq> 0 then x # remaining rs xs else remaining rs xs)"
| "remaining _ _ = []"

definition mca_topo_base_cart_sub :: "communicator \<Rightarrow> int list \<Rightarrow> int \<Rightarrow> int \<Rightarrow> cart_topo c_result" where
  "mca_topo_base_cart_sub comm remain_dims procs newrank = with_cart comm (\<lambda>t.
     let dims = remaining remain_dims (cart_dims t); periods = remaining remain_dims (cart_periods t) in
     bind_result (coords_loop dims procs newrank) (\<lambda>coords.
       Ok \<lparr>cart_ndims = int (length dims), cart_dims = dims, cart_periods = periods, cart_coords = coords\<rparr>))"

text \<open>The number of processes in a grid, and \<open>mca_topo_base_cart_allocate\<close> for a group of \<open>count\<close> processes.\<close>

fun grid_procs :: "int \<Rightarrow> int \<Rightarrow> int list \<Rightarrow> int c_result" where
  "grid_procs err nprocs [] = Ok nprocs"
| "grid_procs err nprocs (d # ds) =
     (if d \<le> 0 then Err err else if nprocs * d > INT_MAX then UB else grid_procs err (nprocs * d) ds)"

definition mca_topo_base_cart_allocate :: "int \<Rightarrow> int \<Rightarrow> int list \<Rightarrow> int list \<Rightarrow> (int \<times> int \<times> cart_topo option) c_result" where
  "mca_topo_base_cart_allocate count rank dims periods =
     bind_result (grid_procs OMPI_ERROR 1 dims) (\<lambda>nprocs.
       if count < nprocs then Err MPI_ERR_DIMS
       else let num_procs = (if nprocs < count then nprocs else count);
                my_rank = (if rank > nprocs - 1 then MPI_UNDEFINED else rank) in
         if MPI_UNDEFINED = my_rank then Ok (my_rank, num_procs, None)
         else bind_result (coords_loop dims num_procs my_rank) (\<lambda>coords.
           Ok (my_rank, num_procs, Some \<lparr>cart_ndims = int (length dims), cart_dims = dims, cart_periods = periods, cart_coords = coords\<rparr>)))"

definition mca_topo_base_cart_map :: "communicator \<Rightarrow> int list \<Rightarrow> int c_result" where
  "mca_topo_base_cart_map comm dims =
     bind_result (grid_procs MPI_ERR_DIMS 1 dims) (\<lambda>nprocs.
       if nprocs > ompi_comm_size comm then Err MPI_ERR_DIMS
       else let rank = ompi_comm_rank comm in Ok (if rank < 0 \<or> rank \<ge> nprocs then MPI_UNDEFINED else rank))"

definition mca_topo_base_cart_get :: "communicator \<Rightarrow> int \<Rightarrow> (int list \<times> int list \<times> int list) c_result" where
  "mca_topo_base_cart_get comm maxdims = with_cart comm (\<lambda>t.
     let m = nat (if maxdims \<le> cart_ndims t then maxdims else cart_ndims t) in
     Ok (take m (cart_dims t), take m (cart_periods t), take m (cart_coords t)))"

definition mca_topo_base_cartdim_get :: "communicator \<Rightarrow> int c_result" where
  "mca_topo_base_cartdim_get comm = with_cart comm (\<lambda>t. Ok (cart_ndims t))"

section \<open>Graphs\<close>

text \<open>\<^verbatim>\<open>index[i]\<close> is the end of the neighbours of process \<open>i\<close> in \<^verbatim>\<open>edges\<close>.\<close>

definition mca_topo_base_graph_neighbors_count :: "communicator \<Rightarrow> int \<Rightarrow> int c_result" where
  "mca_topo_base_graph_neighbors_count comm rank = with_graph comm (\<lambda>t.
     bind_result (fetch (graph_index t) rank) (\<lambda>n.
       if rank > 0 then bind_result (fetch (graph_index t) (rank - 1)) (\<lambda>i. Ok (n - i)) else Ok n))"

text \<open>\<^verbatim>\<open>n\<close> elements of \<^verbatim>\<open>p\<close> from position \<open>i\<close> on.\<close>

definition copy_run :: "'a list \<Rightarrow> int \<Rightarrow> int \<Rightarrow> 'a list c_result" where
  "copy_run p i n =
     (if n \<le> 0 then Ok [] else if 0 \<le> i \<and> i + n \<le> int (length p) then Ok (take (nat n) (drop (nat i) p)) else UB)"

definition mca_topo_base_graph_neighbors :: "communicator \<Rightarrow> int \<Rightarrow> int \<Rightarrow> int list c_result" where
  "mca_topo_base_graph_neighbors comm rank maxneighbors = with_graph comm (\<lambda>t.
     bind_result (fetch (graph_index t) rank) (\<lambda>nnbrs.
       if rank > 0
       then bind_result (fetch (graph_index t) (rank - 1)) (\<lambda>i. copy_run (graph_edges t) i (min maxneighbors (nnbrs - i)))
       else copy_run (graph_edges t) 0 (min maxneighbors nnbrs)))"

definition mca_topo_base_graph_get :: "communicator \<Rightarrow> int \<Rightarrow> int \<Rightarrow> (int list \<times> int list) c_result" where
  "mca_topo_base_graph_get comm maxindex maxedges = with_graph comm (\<lambda>t.
     let nprocs = ompi_comm_size comm in
     bind_result (copy_run (graph_index t) 0 (min nprocs maxindex)) (\<lambda>index.
     bind_result (fetch (graph_index t) (nprocs - 1)) (\<lambda>n.
     bind_result (copy_run (graph_edges t) 0 (min n maxedges)) (\<lambda>edges. Ok (index, edges)))))"

definition mca_topo_base_graphdims_get :: "communicator \<Rightarrow> (int \<times> int) c_result" where
  "mca_topo_base_graphdims_get comm = with_graph comm (\<lambda>t.
     let nodes = ompi_comm_size comm in
     bind_result (fetch (graph_index t) (nodes - 1)) (\<lambda>nedges. Ok (nodes, nedges)))"

definition mca_topo_base_graph_map :: "communicator \<Rightarrow> int \<Rightarrow> int" where
  "mca_topo_base_graph_map comm nnodes =
     (let myrank = ompi_comm_rank comm in if 0 > myrank \<or> myrank \<ge> nnodes then MPI_UNDEFINED else myrank)"

definition mca_topo_base_graph_allocate :: "int \<Rightarrow> int \<Rightarrow> int \<Rightarrow> int list \<Rightarrow> int list \<Rightarrow> (int \<times> graph_topo option) c_result" where
  "mca_topo_base_graph_allocate count rank nnodes index edges =
     (if count < nnodes then Err MPI_ERR_DIMS
      else let num_procs = (if count > nnodes then nnodes else count) in
        if rank > nnodes - 1 \<or> MPI_UNDEFINED = rank then Ok (num_procs, None)
        else bind_result (fetch index (nnodes - 1)) (\<lambda>n.
          bind_result (copy_run index 0 nnodes) (\<lambda>index'. bind_result (copy_run edges 0 n) (\<lambda>edges'.
            Ok (num_procs, Some \<lparr>graph_nnodes = nnodes, graph_index = index', graph_edges = edges'\<rparr>)))))"

text \<open>The number of sources and destinations of this process in any topology.\<close>

definition mca_topo_base_neighbor_count :: "communicator \<Rightarrow> (int \<times> int) c_result" where
  "mca_topo_base_neighbor_count comm =
     (case c_topo comm of
        None \<Rightarrow> Err OMPI_ERR_BAD_PARAM
      | Some (Cart t) \<Rightarrow> Ok (2 * cart_ndims t, 2 * cart_ndims t)
      | Some (Graph t) \<Rightarrow> bind_result (mca_topo_base_graph_neighbors_count comm (ompi_comm_rank comm)) (\<lambda>n. Ok (n, n))
      | Some (Dist_graph t) \<Rightarrow> Ok (dg_indegree t, dg_outdegree t))"

definition mca_topo_base_dist_graph_neighbors_count :: "communicator \<Rightarrow> (int \<times> int \<times> bool) c_result" where
  "mca_topo_base_dist_graph_neighbors_count comm =
     (case c_topo comm of
        None \<Rightarrow> UB
      | Some (Dist_graph t) \<Rightarrow> Ok (dg_indegree t, dg_outdegree t, dg_weighted t)
      | Some _ \<Rightarrow> Err OMPI_ERR_NOT_FOUND)"

text \<open>The sources and destinations with their weights, where \<open>wanted\<close> says that the caller did not pass
  \<^verbatim>\<open>MPI_UNWEIGHTED\<close>; \<open>None\<close> is a weight array that is not written.\<close>

definition weights_run :: "bool \<Rightarrow> int list option \<Rightarrow> int \<Rightarrow> int list option c_result" where
  "weights_run wanted ws n =
     (case ws of Some w \<Rightarrow> if wanted then bind_result (copy_run w 0 n) (\<lambda>x. Ok (Some x)) else Ok None | None \<Rightarrow> Ok None)"

definition mca_topo_base_dist_graph_neighbors ::
  "communicator \<Rightarrow> int \<Rightarrow> bool \<Rightarrow> int \<Rightarrow> bool \<Rightarrow> (int list \<times> int list option \<times> int list \<times> int list option) c_result" where
  "mca_topo_base_dist_graph_neighbors comm maxindegree sourceweights maxoutdegree destweights =
     (case c_topo comm of
        None \<Rightarrow> UB
      | Some (Dist_graph dg) \<Rightarrow>
          (let maxindegree = (if maxindegree > dg_indegree dg then dg_indegree dg else maxindegree);
               maxoutdegree = (if maxoutdegree > dg_outdegree dg then dg_outdegree dg else maxoutdegree) in
           bind_result (copy_run (dg_in dg) 0 maxindegree) (\<lambda>sources.
           bind_result (weights_run sourceweights (dg_inw dg) maxindegree) (\<lambda>sw.
           bind_result (copy_run (dg_out dg) 0 maxoutdegree) (\<lambda>destinations.
           bind_result (weights_run destweights (dg_outw dg) maxoutdegree) (\<lambda>dw.
             Ok (sources, sw, destinations, dw))))))
      | Some _ \<Rightarrow> Err OMPI_ERR_NOT_FOUND)"

section \<open>Row-major numbering\<close>

text \<open>The coordinates of a grid, and the number of a point in row-major order.\<close>

definition in_grid :: "int list \<Rightarrow> int list \<Rightarrow> bool" where
  "in_grid ds cs \<longleftrightarrow> list_all2 (\<lambda>d c. 0 \<le> c \<and> c < d) ds cs"

fun point_number :: "int list \<Rightarrow> int list \<Rightarrow> int" where
  "point_number (d # ds) (c # cs) = c * prod_list ds + point_number ds cs"
| "point_number _ _ = 0"

lemma in_grid_simps [simp]:
  "in_grid [] cs \<longleftrightarrow> cs = []" "in_grid ds [] \<longleftrightarrow> ds = []"
  "in_grid (d # ds) (c # cs) \<longleftrightarrow> 0 \<le> c \<and> c < d \<and> in_grid ds cs"
  by (auto simp: in_grid_def)

lemma in_grid_length: "in_grid ds cs \<Longrightarrow> length cs = length ds"
  by (simp add: in_grid_def list_all2_lengthD)

abbreviation positive :: "int list \<Rightarrow> bool" where
  "positive ds \<equiv> \<forall>d \<in> set ds. 0 < d"

lemma prod_list_pos [simp]: "positive ds \<Longrightarrow> 0 < prod_list (ds :: int list)"
  by (induction ds) auto

lemma in_grid_positive: "in_grid ds cs \<Longrightarrow> positive ds"
  by (induction ds cs rule: list_induct2') auto

lemma point_number_range:
  "in_grid ds cs \<Longrightarrow> 0 \<le> point_number ds cs \<and> point_number ds cs < prod_list ds"
proof (induction ds cs rule: list_induct2')
  case (4 d ds c cs)
  then have IH: "0 \<le> point_number ds cs" "point_number ds cs < prod_list ds" and c: "0 \<le> c" "c \<le> d - 1" by auto
  have "c * prod_list ds \<le> (d - 1) * prod_list ds" using c IH by (intro mult_right_mono) auto
  then show ?case using IH c by (auto simp: algebra_simps intro: add_nonneg_nonneg mult_nonneg_nonneg)
qed auto

lemma euclid:
  fixes c n p :: int
  assumes "0 \<le> p" "p < n"
  shows "(c * n + p) div n = c" "(c * n + p) mod n = p"
  using assms by (simp_all add: div_pos_pos_trivial mod_pos_pos_trivial)

text \<open>The loop that computes coordinates inverts the numbering.\<close>

lemma coords_loop_number:
  assumes "in_grid ds cs" "0 < k" "0 \<le> r" "r < k"
  shows "coords_loop ds (prod_list ds * k) (point_number ds cs * k + r) = Ok cs"
  using assms
proof (induction ds cs arbitrary: rule: list_induct2')
  case (4 d ds c cs)
  let ?n = "prod_list ds * k" and ?p = "point_number ds cs * k + r"
  have d: "0 < d" and g: "in_grid ds cs" and c: "0 \<le> c" using 4 by auto
  have n: "0 < ?n" using in_grid_positive [OF g] 4 by simp
  have p: "0 \<le> ?p" "?p < ?n"
  proof -
    note pr = point_number_range [OF g]
    show "0 \<le> ?p" using pr 4 by simp
    have "point_number ds cs * k \<le> (prod_list ds - 1) * k" using pr 4 by (intro mult_right_mono) auto
    then show "?p < ?n" using 4 by (simp add: algebra_simps)
  qed
  have e: "point_number (d # ds) (c # cs) * k + r = c * ?n + ?p" by (simp add: algebra_simps)
  have "c_div (prod_list (d # ds) * k) d = ?n" using d n by (simp add: mult.assoc)
  moreover have "c_div (c * ?n + ?p) ?n = c" "c_mod (c * ?n + ?p) ?n = ?p"
    using n p c euclid [OF p, of c] by simp_all
  moreover have "prod_list ds \<noteq> 0" using n by auto
  ultimately show ?case using d n 4 unfolding e by (simp add: Let_def)
qed auto

lemma coords_of_number: "in_grid ds cs \<Longrightarrow> coords_loop ds (prod_list ds) (point_number ds cs) = Ok cs"
  using coords_loop_number [of ds cs 1 0] by simp

lemma grid_point_exists:
  assumes "positive ds" "0 \<le> r" "r < prod_list ds"
  shows "\<exists>cs. in_grid ds cs \<and> point_number ds cs = r"
  using assms
proof (induction ds arbitrary: r)
  case (Cons d ds)
  let ?n = "prod_list ds"
  have n: "0 < ?n" using Cons by simp
  have "positive ds" "0 \<le> r mod ?n" "r mod ?n < ?n" using Cons n by simp_all
  then obtain cs where cs: "in_grid ds cs" "point_number ds cs = r mod ?n" using Cons.IH by blast
  have "r div ?n < d"
  proof (rule ccontr)
    assume "\<not> r div ?n < d"
    then have "d * ?n \<le> r div ?n * ?n" using n by (intro mult_right_mono) auto
    also have "\<dots> \<le> r" using n pos_mod_sign [OF n, of r] minus_mod_eq_div_mult [of r ?n] by linarith
    finally show False using Cons.prems(3) by simp
  qed
  then have "in_grid (d # ds) (r div ?n # cs)" using cs Cons n by (simp add: pos_imp_zdiv_nonneg_iff)
  moreover have "point_number (d # ds) (r div ?n # cs) = r" using cs by simp
  ultimately show ?case by blast
qed auto

text \<open>The loop that computes a rank normalises the coordinates and numbers the point.\<close>

lemma c_mod_wrap:
  assumes "0 < d"
  shows "(let x = c_mod to d in if x < 0 then x + d else x) = to mod d"
proof (cases "to < 0")
  case True
  have "c_mod to d = - (- to mod d)" using True assms by (simp add: c_mod_def c_div_def sgn_if minus_div_mult_eq_mod [symmetric])
  then show ?thesis using True assms by (auto simp: Let_def zmod_zminus1_eq_if)
next
  case False
  have "\<not> to mod d < 0" using pos_mod_sign [OF assms, of to] by linarith
  then show ?thesis using False assms by (auto simp: Let_def)
qed

lemma wrap_coordinate:
  "0 < d \<Longrightarrow> (if ord < 0 \<or> ord \<ge> d then let x = c_mod ord d in if x < 0 then x + d else x else ord) = ord mod d"
  by (simp only: c_mod_wrap) simp

lemma rank_loop_number:
  "positive ds \<Longrightarrow> length cs = length ds \<Longrightarrow>
     rank_loop ds cs = Ok (point_number ds (map2 (mod) cs ds), prod_list ds)"
proof (induction ds cs rule: rank_loop.induct)
  case (3 dm ds ord cs)
  then show ?case using wrap_coordinate [of dm ord] by (auto simp: Let_def algebra_simps)
qed auto

section \<open>Properties of grids\<close>

text \<open>A communicator with a Cartesian topology: as many processes as points.\<close>

definition wf_cart :: "communicator \<Rightarrow> cart_topo \<Rightarrow> bool" where
  "wf_cart comm t \<longleftrightarrow> c_topo comm = Some (Cart t) \<and> cart_ndims t = int (length (cart_dims t)) \<and>
     length (cart_periods t) = length (cart_dims t) \<and> positive (cart_dims t) \<and>
     prod_list (cart_dims t) = ompi_comm_size comm"

lemma wf_cart_simps:
  assumes "wf_cart comm t"
  shows "with_cart comm f = f t" "mca_topo_base_cart_rank comm cs = bind_result (rank_loop (cart_dims t) cs) (\<lambda>(p, _). Ok p)"
  using assms by (auto simp: wf_cart_def with_cart_def mca_topo_base_cart_rank_def)

lemma cart_coords_number:
  assumes "wf_cart comm t" "in_grid (cart_dims t) cs"
  shows "mca_topo_base_cart_coords comm (point_number (cart_dims t) cs) (cart_ndims t) = Ok cs"
  using assms coords_of_number [OF assms(2)]
  by (simp add: mca_topo_base_cart_coords_def wf_cart_simps [OF assms(1)] wf_cart_def)

lemma cart_rank_number:
  assumes "wf_cart comm t" "length cs = length (cart_dims t)"
  shows "mca_topo_base_cart_rank comm cs = Ok (point_number (cart_dims t) (map2 (mod) cs (cart_dims t)))"
  using assms rank_loop_number [OF _ assms(2)] by (simp add: wf_cart_simps [OF assms(1)] wf_cart_def)

lemma in_grid_wrap: "positive ds \<Longrightarrow> length cs = length ds \<Longrightarrow> in_grid ds (map2 (mod) cs ds)"
  by (induction ds cs rule: list_induct2') auto

lemma wrap_in_grid: "in_grid ds cs \<Longrightarrow> map2 (mod) cs ds = cs"
  by (induction ds cs rule: list_induct2') auto


text \<open>Shifts. The loop leaves the number of the point within the slice of the dimension, and the size of a step.\<close>

lemma shift_loop_number:
  assumes "in_grid ds cs" "length qs = length ds" "j < length ds" "0 \<le> ord0" "ord0 mod prod_list ds = point_number ds cs"
  shows "shift_loop (take (Suc j) (zip ds qs)) (d0, q0, ord0, prod_list ds) =
    Ok (ds ! j, qs ! j, point_number (drop j ds) (drop j cs), prod_list (drop (Suc j) ds))"
  using assms
proof (induction ds arbitrary: cs qs j ord0 d0 q0)
  case (Cons d ds)
  obtain c cs' q qs' where cs: "cs = c # cs'" "qs = q # qs'" using Cons.prems by (cases cs; cases qs) auto
  have g: "in_grid ds cs'" "0 < d" using Cons.prems cs by auto
  have P: "0 < prod_list ds" using in_grid_positive [OF g(1)] by simp
  note pr = point_number_range [OF g(1)]
  have f: "c_mod ord0 (prod_list (d # ds)) = point_number (d # ds) cs" "c_div (prod_list (d # ds)) d = prod_list ds"
    using Cons.prems P g by simp_all
  have m: "point_number (d # ds) cs mod prod_list ds = point_number ds cs'" using pr euclid(2) cs by simp
  show ?case
  proof (cases j)
    case 0
    then show ?thesis using f g P cs by simp
  next
    case (Suc i)
    have "0 \<le> point_number (d # ds) cs" using point_number_range [OF Cons.prems(1)] by simp
    then show ?thesis using Cons.IH [OF g(1) _ _ _ m, of qs' i d q] Cons.prems f g P cs Suc by simp
  qed
qed simp

lemma point_number_drop:
  "in_grid ds cs \<Longrightarrow> j < length ds \<Longrightarrow>
     point_number (drop j ds) (drop j cs) = cs ! j * prod_list (drop (Suc j) ds) + point_number (drop (Suc j) ds) (drop (Suc j) cs)"
  by (metis Cons_nth_drop_Suc in_grid_length point_number.simps(1))

lemma in_grid_drop: "in_grid ds cs \<Longrightarrow> in_grid (drop j ds) (drop j cs)"
  by (simp add: in_grid_def)

lemma point_number_update:
  "in_grid ds cs \<Longrightarrow> j < length ds \<Longrightarrow>
     point_number ds (cs[j := x]) = point_number ds cs + (x - cs ! j) * prod_list (drop (Suc j) ds)"
proof (induction ds cs arbitrary: j rule: list_induct2')
  case (4 d ds c cs)
  then show ?case by (cases j) (auto simp: algebra_simps)
qed auto

lemma in_grid_nth: "in_grid ds cs \<Longrightarrow> j < length ds \<Longrightarrow> 0 \<le> cs ! j \<and> cs ! j < ds ! j"
  by (simp add: in_grid_def list_all2_conv_all_nth)

lemma in_grid_update: "in_grid ds cs \<Longrightarrow> 0 \<le> x \<Longrightarrow> x < ds ! j \<Longrightarrow> in_grid ds (cs[j := x])"
  by (simp add: in_grid_def list_all2_conv_all_nth) (metis nth_list_update_eq nth_list_update_neq)

text \<open>What a shift of the coordinate \<open>j\<close> by \<open>disp\<close> leads to.\<close>

definition shifted :: "cart_topo \<Rightarrow> int list \<Rightarrow> nat \<Rightarrow> int \<Rightarrow> int" where
  "shifted t cs j disp =
     (let to = cs ! j + disp; d = cart_dims t ! j in
      if cart_periods t ! j = 0 \<and> \<not> (0 \<le> to \<and> to < d) then MPI_PROC_NULL
      else point_number (cart_dims t) (cs[j := to mod d]))"

lemma shift_target_shifted:
  assumes "in_grid (cart_dims t) cs" "j < length (cart_dims t)"
  shows "shift_target (point_number (cart_dims t) cs) (cart_dims t ! j) (cart_periods t ! j) (cs ! j)
      (prod_list (drop (Suc j) (cart_dims t))) (cs ! j + disp) = Ok (shifted t cs j disp)"
proof -
  have d: "0 < cart_dims t ! j" using in_grid_nth [OF assms] by linarith
  show ?thesis using d c_mod_wrap [OF d, of "cs ! j + disp"] point_number_update [OF assms]
    by (auto simp: shift_target_def shifted_def Let_def)
qed

lemma cart_shift_number:
  assumes "wf_cart comm t" "in_grid (cart_dims t) cs" "ompi_comm_rank comm = point_number (cart_dims t) cs" "j < length (cart_dims t)"
  shows "mca_topo_base_cart_shift comm (int j) disp = Ok (shifted t cs j (- disp), shifted t cs j disp)"
proof (cases "disp = 0")
  case True
  have "shifted t cs j 0 = point_number (cart_dims t) cs"
    using in_grid_nth [OF assms(2,4)] by (simp add: shifted_def Let_def)
  then show ?thesis using True assms(3) by (simp add: mca_topo_base_cart_shift_def Let_def)
next
  case False
  let ?ds = "cart_dims t" and ?F = "prod_list (drop (Suc j) (cart_dims t))"
  have wf: "length (cart_periods t) = length ?ds" "prod_list ?ds = ompi_comm_size comm" "cart_ndims t = int (length ?ds)"
    using assms(1) by (simp_all add: wf_cart_def)
  note r = point_number_range [OF assms(2)]
  have m: "nat (min (int (length ?ds)) (int j + 1)) = Suc j" "nat (int j + 1) = Suc j" using assms(4) by simp_all
  have l: "shift_loop (take (Suc j) (zip ?ds (cart_periods t))) (0, 0, point_number ?ds cs, ompi_comm_size comm) =
      Ok (?ds ! j, cart_periods t ! j, point_number (drop j ?ds) (drop j cs), ?F)"
    using shift_loop_number [OF assms(2) wf(1) assms(4)] r wf by simp
  have g: "in_grid (drop (Suc j) ?ds) (drop (Suc j) cs)" using in_grid_drop assms(2) by blast
  have F: "0 < ?F" using in_grid_positive [OF g] by simp
  note p = point_number_range [OF g]
  have c: "0 \<le> cs ! j" using in_grid_nth [OF assms(2,4)] by simp
  have o: "c_div (point_number (drop j ?ds) (drop j cs)) ?F = cs ! j"
    using euclid(1) [of "point_number (drop (Suc j) ?ds) (drop (Suc j) cs)" ?F "cs ! j"] p F c
    by (simp add: point_number_drop [OF assms(2,4)])
  show ?thesis
    using False assms(3) l m F o shift_target_shifted [OF assms(2,4)]
    by (simp add: mca_topo_base_cart_shift_def wf_cart_simps [OF assms(1)] wf(3) Let_def diff_conv_add_uminus del: add_uminus_conv_diff)
qed


definition demo_cart :: cart_topo where
  "demo_cart = \<lparr>cart_ndims = 2, cart_dims = [2, 3], cart_periods = [0, 1], cart_coords = [1, 2]\<rparr>"

definition demo_grid :: communicator where
  "demo_grid = \<lparr>c_name = None, c_index = 4, c_my_rank = 5, c_inter = False, c_freed = False, c_invalid = False,
     c_topo = Some (Cart demo_cart), c_revoked = False, c_coll_revoked = False,
     c_local_group = map Some [0, 1, 2, 3, 4, 5], c_remote_group = []\<rparr>"

lemma demo_grid_wf: "wf_cart demo_grid demo_cart" "ompi_comm_rank demo_grid = 5" "ompi_comm_size demo_grid = 6"
  by (simp_all add: wf_cart_def demo_grid_def demo_cart_def ompi_comm_size_def ompi_comm_rank_def)



text \<open>Sub-grids. The dimensions that are dropped give the colour, those that remain the key.\<close>

definition dropped :: "int list \<Rightarrow> 'a list \<Rightarrow> 'a list" where
  "dropped rs = remaining (map (\<lambda>r. if r = 0 then 1 else 0) rs)"

lemma dropped_simps [simp]:
  "dropped [] xs = []" "dropped rs [] = []"
  "dropped (r # rs) (x # xs) = (if r = 0 then x # dropped rs xs else dropped rs xs)"
  by (simp_all add: dropped_def)

lemma remaining_Nil [simp]: "remaining rs [] = []"
  by (cases rs) simp_all

lemma colour_loop_numbers:
  "in_grid ds cs \<Longrightarrow> length rs = length ds \<Longrightarrow>
     colour_loop ds cs rs = Ok (point_number (dropped rs ds) (dropped rs cs), prod_list (dropped rs ds),
       point_number (remaining rs ds) (remaining rs cs), prod_list (remaining rs ds), int (length (remaining rs ds)))"
  by (induction ds cs rs rule: colour_loop.induct) (auto simp: algebra_simps)

lemma in_grid_remaining: "in_grid ds cs \<Longrightarrow> in_grid (remaining rs ds) (remaining rs cs)"
proof (induction ds cs arbitrary: rs rule: list_induct2')
  case (4 d ds c cs)
  then show ?case by (cases rs) auto
qed auto

lemma in_grid_dropped: "in_grid ds cs \<Longrightarrow> in_grid (dropped rs ds) (dropped rs cs)"
  by (simp add: dropped_def in_grid_remaining)

lemma split_coordinates:
  "length xs = length rs \<Longrightarrow> length ys = length rs \<Longrightarrow> dropped rs xs = dropped rs ys \<Longrightarrow> remaining rs xs = remaining rs ys \<Longrightarrow> xs = ys"
proof (induction rs arbitrary: xs ys)
  case (Cons r rs)
  then show ?case by (cases xs; cases ys) (auto split: if_splits)
qed auto

lemma point_number_inj: "in_grid ds cs \<Longrightarrow> in_grid ds cs' \<Longrightarrow> point_number ds cs = point_number ds cs' \<longleftrightarrow> cs = cs'"
  by (metis c_result.inject(1) coords_of_number)

lemma remaining_length: "length xs = length ys \<Longrightarrow> length (remaining rs xs) = length (remaining rs ys)"
proof (induction xs ys arbitrary: rs rule: list_induct2)
  case (Cons x xs y ys)
  then show ?case by (cases rs) auto
qed simp

lemma no_dimension_left: "length ds = length rs \<Longrightarrow> remaining rs ds = [] \<longleftrightarrow> (\<forall>r \<in> set rs. r = 0)"
  by (induction ds rs rule: list_induct2) auto

text \<open>The communicator as the process with the coordinates \<open>cs\<close> sees it.\<close>

definition seen_at :: "communicator \<Rightarrow> cart_topo \<Rightarrow> int list \<Rightarrow> communicator" where
  "seen_at comm t cs = comm\<lparr>c_my_rank := point_number (cart_dims t) cs, c_topo := Some (Cart (t\<lparr>cart_coords := cs\<rparr>))\<rparr>"

text \<open>C28: \<open>MPI_Cart_sub\<close> slices the grid. Two processes get the same colour exactly if they agree on every dropped
  coordinate; the keys of one colour are distinct numbers below the number of points of the sub-grid, so that the key is the
  rank in the new communicator; and the process that has its key as its new rank computes just the coordinates that remain.
  Without a remaining dimension, every process gets a colour of its own.\<close>

theorem cart_sub_slices_grid:
  assumes "wf_cart comm t" "in_grid (cart_dims t) cs" "in_grid (cart_dims t) cs'" "length rs = length (cart_dims t)"
  shows "\<exists>colour key colour' key'.
    cart_sub_split (seen_at comm t cs) rs = Ok (colour, key) \<and> cart_sub_split (seen_at comm t cs') rs = Ok (colour', key') \<and>
    (colour = colour' \<longleftrightarrow> dropped rs cs = dropped rs cs') \<and> (colour = colour' \<and> key = key' \<longrightarrow> cs = cs') \<and>
    0 \<le> key \<and> key < prod_list (remaining rs (cart_dims t)) \<and>
    mca_topo_base_cart_sub (seen_at comm t cs) rs (prod_list (remaining rs (cart_dims t))) key =
      Ok \<lparr>cart_ndims = int (length (remaining rs (cart_dims t))), cart_dims = remaining rs (cart_dims t),
          cart_periods = remaining rs (cart_periods t), cart_coords = remaining rs cs\<rparr>"
proof -
  let ?ds = "cart_dims t"
  let ?key = "\<lambda>cs. point_number (remaining rs ?ds) (remaining rs cs)"
  let ?colour = "\<lambda>cs. if remaining rs ?ds = [] then point_number ?ds cs else point_number (dropped rs ?ds) (dropped rs cs)"
  have split: "cart_sub_split (seen_at comm t cs) rs = Ok (?colour cs, ?key cs)" if "in_grid ?ds cs" for cs
    using colour_loop_numbers [OF that assms(4)] by (auto simp: cart_sub_split_def with_cart_def seen_at_def ompi_comm_rank_def)
  have l: "length cs = length rs" "length cs' = length rs" using assms in_grid_length by metis+
  have all: "dropped rs cs = dropped rs cs' \<longleftrightarrow> cs = cs'" if "remaining rs ?ds = []"
  proof -
    have "remaining rs cs = []" "remaining rs cs' = []"
      using that remaining_length [of cs ?ds rs] remaining_length [of cs' ?ds rs] assms(4) l by auto
    then show ?thesis using split_coordinates [OF l] by metis
  qed
  have col: "?colour cs = ?colour cs' \<longleftrightarrow> dropped rs cs = dropped rs cs'"
    using all point_number_inj [OF assms(2,3)] point_number_inj [OF in_grid_dropped in_grid_dropped, OF assms(2,3)] by auto
  have key: "?key cs = ?key cs' \<longleftrightarrow> remaining rs cs = remaining rs cs'"
    using point_number_inj [OF in_grid_remaining in_grid_remaining, OF assms(2,3)] by blast
  have "mca_topo_base_cart_sub (seen_at comm t cs) rs (prod_list (remaining rs ?ds)) (?key cs) =
      Ok \<lparr>cart_ndims = int (length (remaining rs ?ds)), cart_dims = remaining rs ?ds,
          cart_periods = remaining rs (cart_periods t), cart_coords = remaining rs cs\<rparr>"
    using coords_of_number [OF in_grid_remaining [OF assms(2)]] by (simp add: mca_topo_base_cart_sub_def with_cart_def seen_at_def Let_def)
  then show ?thesis
    using split [OF assms(2)] split [OF assms(3)] col key split_coordinates [OF l] point_number_range [OF in_grid_remaining [OF assms(2)]]
    by (intro exI conjI) (assumption | blast)+
qed

theorem cart_sub_slices_grid_witness:
  "\<exists>colour key colour' key'. cart_sub_split (seen_at demo_grid demo_cart [1, 2]) [0, 1] = Ok (colour, key) \<and>
     cart_sub_split (seen_at demo_grid demo_cart [1, 0]) [0, 1] = Ok (colour', key') \<and> colour = colour' \<and> key < 3"
  using cart_sub_slices_grid [OF demo_grid_wf(1), of "[1, 2]" "[1, 0]" "[0, 1]"] by (auto simp: demo_cart_def)

text \<open>Creation of a grid.\<close>

lemma factor_bound:
  assumes "positive ds" "0 < m" "m * prod_list ds \<le> b"
  shows "\<not> b < m"
proof -
  have "1 \<le> prod_list ds" using prod_list_pos [OF assms(1)] by linarith
  then have "m * 1 \<le> m * prod_list ds" using assms(2) by (intro mult_left_mono) auto
  then show ?thesis using assms(3) by linarith
qed

lemma grid_procs_Ok: "positive ds \<Longrightarrow> 0 < n \<Longrightarrow> n * prod_list ds \<le> INT_MAX \<Longrightarrow> grid_procs e n ds = Ok (n * prod_list ds)"
proof (induction ds arbitrary: n)
  case (Cons d ds)
  have "0 < n * d" using Cons.prems by simp
  moreover have "\<not> INT_MAX < n * d" using factor_bound [OF _ calculation, of ds INT_MAX] Cons.prems by (simp add: mult.assoc)
  ultimately show ?case using Cons by (simp add: mult.assoc)
qed simp

lemma grid_procs_overflow:
  "positive ds \<Longrightarrow> 0 < n \<Longrightarrow> n \<le> INT_MAX \<Longrightarrow> INT_MAX < n * prod_list ds \<Longrightarrow> grid_procs e n ds = UB"
proof (induction ds arbitrary: n)
  case (Cons d ds)
  have "0 < n * d" using Cons.prems by simp
  then show ?case using Cons by (simp add: mult.assoc)
qed simp

lemma grid_procs_Err:
  "positive ds \<Longrightarrow> 0 < n \<Longrightarrow> n * prod_list ds \<le> INT_MAX \<Longrightarrow> d \<le> 0 \<Longrightarrow> grid_procs e n (ds @ d # ds') = Err e"
proof (induction ds arbitrary: n)
  case (Cons d' ds)
  have "0 < n * d'" using Cons.prems by simp
  moreover have "\<not> INT_MAX < n * d'" using factor_bound [OF _ calculation, of ds INT_MAX] Cons.prems by (simp add: mult.assoc)
  ultimately show ?case using Cons by (simp add: mult.assoc)
qed simp

text \<open>Creating a grid. With positive dimensions whose product the group can fill, a process below the product gets a
  well-formed topology with its own point of the grid as coordinates, and the other processes get none; more points than
  processes and a dimension that is not positive are errors. A product beyond the range of \<^verbatim>\<open>int\<close> is not detected: the
  multiplication overflows before the comparison.\<close>

theorem cart_allocate_wellformed:
  assumes "length periods = length dims" "0 \<le> r" "r < count" "count \<le> INT_MAX"
  shows "(positive dims \<and> prod_list dims \<le> count \<and> r < prod_list dims \<longrightarrow>
      (\<exists>t. mca_topo_base_cart_allocate count r dims periods = Ok (r, prod_list dims, Some t) \<and>
        (\<forall>comm. ompi_comm_size comm = prod_list dims \<longrightarrow> wf_cart (comm\<lparr>c_topo := Some (Cart t)\<rparr>) t) \<and>
        cart_dims t = dims \<and> cart_periods t = periods \<and> in_grid dims (cart_coords t) \<and> point_number dims (cart_coords t) = r)) \<and>
    (positive dims \<and> prod_list dims \<le> r \<longrightarrow>
      mca_topo_base_cart_allocate count r dims periods = Ok (MPI_UNDEFINED, prod_list dims, None)) \<and>
    (positive dims \<and> count < prod_list dims \<and> prod_list dims \<le> INT_MAX \<longrightarrow>
      mca_topo_base_cart_allocate count r dims periods = Err MPI_ERR_DIMS) \<and>
    (positive dims \<and> INT_MAX < prod_list dims \<longrightarrow> mca_topo_base_cart_allocate count r dims periods = UB) \<and>
    (positive ds \<and> prod_list ds \<le> INT_MAX \<and> dims = ds @ d # ds' \<and> d \<le> 0 \<longrightarrow>
      mca_topo_base_cart_allocate count r dims periods = Err OMPI_ERROR)"
proof -
  have ok: "grid_procs OMPI_ERROR 1 dims = Ok (prod_list dims)" if "positive dims" "prod_list dims \<le> INT_MAX"
    using grid_procs_Ok [of dims 1] that by simp
  have u: "MPI_UNDEFINED \<noteq> r" using assms(2) by (simp add: MPI_UNDEFINED_def)
  have "\<exists>t. mca_topo_base_cart_allocate count r dims periods = Ok (r, prod_list dims, Some t) \<and>
        (\<forall>comm. ompi_comm_size comm = prod_list dims \<longrightarrow> wf_cart (comm\<lparr>c_topo := Some (Cart t)\<rparr>) t) \<and>
        cart_dims t = dims \<and> cart_periods t = periods \<and> in_grid dims (cart_coords t) \<and> point_number dims (cart_coords t) = r"
    if p: "positive dims" "prod_list dims \<le> count" "r < prod_list dims"
  proof -
    obtain cs where cs: "in_grid dims cs" "point_number dims cs = r" using grid_point_exists [OF p(1) assms(2) p(3)] by blast
    then have "coords_loop dims (prod_list dims) r = Ok cs" using coords_of_number by blast
    moreover have "(if prod_list dims < count then prod_list dims else count) = prod_list dims" using p by simp
    ultimately show ?thesis
      using ok p assms u cs
      by (intro exI [of _ "\<lparr>cart_ndims = int (length dims), cart_dims = dims, cart_periods = periods, cart_coords = cs\<rparr>"])
        (simp add: mca_topo_base_cart_allocate_def Let_def wf_cart_def ompi_comm_size_def)
  qed
  moreover have "mca_topo_base_cart_allocate count r dims periods = Ok (MPI_UNDEFINED, prod_list dims, None)"
    if "positive dims" "prod_list dims \<le> r"
    using that ok assms by (simp add: mca_topo_base_cart_allocate_def Let_def)
  moreover have "mca_topo_base_cart_allocate count r dims periods = Err MPI_ERR_DIMS"
    if "positive dims" "count < prod_list dims" "prod_list dims \<le> INT_MAX"
    using that ok by (simp add: mca_topo_base_cart_allocate_def)
  moreover have "mca_topo_base_cart_allocate count r dims periods = UB" if "positive dims" "INT_MAX < prod_list dims"
    using that grid_procs_overflow [of dims 1 OMPI_ERROR] by (simp add: mca_topo_base_cart_allocate_def INT_MAX_def)
  moreover have "mca_topo_base_cart_allocate count r (ds @ d # ds') periods = Err OMPI_ERROR"
    if "positive ds" "prod_list ds \<le> INT_MAX" "d \<le> 0"
    using that grid_procs_Err [of ds 1 d OMPI_ERROR ds'] by (simp add: mca_topo_base_cart_allocate_def)
  ultimately show ?thesis by blast
qed

theorem cart_allocate_wellformed_witness:
  "\<exists>t. mca_topo_base_cart_allocate 8 5 [2, 3] [0, 1] = Ok (5, 6, Some t) \<and> point_number [2, 3] (cart_coords t) = 5"
  using cart_allocate_wellformed [of "[0, 1]" "[2, 3]" 5 8] by (fastforce simp: INT_MAX_def)

section \<open>Properties of graphs\<close>

definition wf_graph :: "communicator \<Rightarrow> graph_topo \<Rightarrow> bool" where
  "wf_graph comm t \<longleftrightarrow> c_topo comm = Some (Graph t) \<and> graph_index t \<noteq> [] \<and> int (length (graph_index t)) = ompi_comm_size comm \<and>
     sorted (0 # graph_index t) \<and> last (graph_index t) = int (length (graph_edges t))"

text \<open>Where the neighbours of a process begin.\<close>

definition row_start :: "graph_topo \<Rightarrow> nat \<Rightarrow> nat" where
  "row_start t i = (if i = 0 then 0 else nat (graph_index t ! (i - 1)))"

definition row :: "graph_topo \<Rightarrow> nat \<Rightarrow> int list" where
  "row t i = take (nat (graph_index t ! i) - row_start t i) (drop (row_start t i) (graph_edges t))"

lemma wf_graph_index:
  assumes "wf_graph comm t" "i < length (graph_index t)"
  shows "0 \<le> graph_index t ! i" "row_start t i \<le> nat (graph_index t ! i)" "nat (graph_index t ! i) \<le> length (graph_edges t)"
proof -
  let ?ix = "graph_index t"
  have s: "sorted ?ix" "\<forall>x \<in> set ?ix. 0 \<le> x" "last ?ix = int (length (graph_edges t))" "?ix \<noteq> []"
    using assms(1) by (auto simp: wf_graph_def)
  show "0 \<le> ?ix ! i" using s(2) assms(2) by simp
  have "?ix ! (i - 1) \<le> ?ix ! i" using s(1) assms(2) by (simp add: sorted_nth_mono)
  then show "row_start t i \<le> nat (?ix ! i)" by (auto simp: row_start_def nat_mono)
  have "?ix ! i \<le> ?ix ! (length ?ix - 1)" using s(1) assms(2) by (intro sorted_nth_mono) auto
  then show "nat (?ix ! i) \<le> length (graph_edges t)" using s(3,4) by (simp add: last_conv_nth nat_le_iff)
qed

lemma rows_concat:
  assumes "wf_graph comm t" "k \<le> length (graph_index t)"
  shows "concat (map (row t) [0..<k]) = take (row_start t k) (graph_edges t)"
  using assms(2)
proof (induction k)
  case (Suc k)
  have w: "row_start t k \<le> nat (graph_index t ! k)" "nat (graph_index t ! k) \<le> length (graph_edges t)"
    using wf_graph_index [OF assms(1)] Suc.prems by auto
  have "take (row_start t k) (graph_edges t) @ row t k = take (row_start t k + (nat (graph_index t ! k) - row_start t k)) (graph_edges t)"
    unfolding row_def by (rule take_add [symmetric])
  also have "\<dots> = take (row_start t (Suc k)) (graph_edges t)" using w by (simp add: row_start_def)
  finally show ?case using Suc by simp
qed (simp add: row_start_def)

lemma graph_row:
  assumes "wf_graph comm t" "i < length (graph_index t)"
  shows "mca_topo_base_graph_neighbors_count comm (int i) = Ok (int (length (row t i)))"
    "int (length (row t i)) \<le> m \<Longrightarrow> mca_topo_base_graph_neighbors comm (int i) m = Ok (row t i)"
proof -
  note w = wf_graph_index [OF assms]
  have t: "c_topo comm = Some (Graph t)" using assms(1) by (simp add: wf_graph_def)
  have p: "0 \<le> graph_index t ! (i - 1)" using wf_graph_index(1) [OF assms(1), of "i - 1"] assms(2) by simp
  have l: "length (row t i) = nat (graph_index t ! i) - row_start t i" using w by (simp add: row_def)
  have f: "fetch (graph_index t) (int i) = Ok (graph_index t ! i)"
    "i > 0 \<Longrightarrow> fetch (graph_index t) (int i - 1) = Ok (graph_index t ! (i - 1))"
    using assms(2) by (simp_all add: fetch_def nat_diff_distrib)
  show "mca_topo_base_graph_neighbors_count comm (int i) = Ok (int (length (row t i)))"
    using f w p t l by (auto simp: mca_topo_base_graph_neighbors_count_def with_graph_def row_start_def)
  have run: "copy_run (graph_edges t) (int (row_start t i)) (min m (graph_index t ! i - int (row_start t i))) = Ok (row t i)"
    if "int (length (row t i)) \<le> m"
  proof -
    have e: "min m (graph_index t ! i - int (row_start t i)) = int (length (row t i))" using that l w by simp
    have "nat (int (length (row t i))) = nat (graph_index t ! i) - row_start t i" using l by simp
    then show ?thesis unfolding e using l w by (auto simp: copy_run_def row_def)
  qed
  show "mca_topo_base_graph_neighbors comm (int i) m = Ok (row t i)" if "int (length (row t i)) \<le> m"
    using run [OF that] f p t by (auto simp: mca_topo_base_graph_neighbors_def with_graph_def row_start_def)
qed

text \<open>C30: The neighbour lists of a graph topology partition its edge array: every process gets a list as long as its neighbour
  count says, nothing outside the arrays is read, and the lists of all processes in the order of their ranks are the edges,
  each exactly once.\<close>

theorem graph_neighbors_partition:
  assumes "wf_graph comm t"
  shows "\<exists>rows. length rows = nat (ompi_comm_size comm) \<and> concat rows = graph_edges t \<and>
    (\<forall>i < length rows. mca_topo_base_graph_neighbors_count comm (int i) = Ok (int (length (rows ! i))) \<and>
      mca_topo_base_graph_neighbors comm (int i) (int (length (rows ! i))) = Ok (rows ! i))"
proof -
  let ?n = "length (graph_index t)"
  have n: "int ?n = ompi_comm_size comm" "graph_index t \<noteq> []" "last (graph_index t) = int (length (graph_edges t))"
    using assms by (auto simp: wf_graph_def)
  have "row_start t ?n = length (graph_edges t)" using n by (simp add: row_start_def last_conv_nth)
  then have "concat (map (row t) [0..<?n]) = graph_edges t" using rows_concat [OF assms order_refl] by simp
  then show ?thesis
    using graph_row [OF assms] n(1) by (intro exI [of _ "map (row t) [0..<?n]"]) auto
qed

definition demo_graph :: communicator where
  "demo_graph = demo_grid\<lparr>c_my_rank := 1, c_local_group := map Some [0, 1, 2],
     c_topo := Some (Graph \<lparr>graph_nnodes = 3, graph_index = [2, 3, 4], graph_edges = [1, 2, 0, 0]\<rparr>)\<rparr>"

theorem graph_neighbors_partition_witness:
  "\<exists>rows. length rows = 3 \<and> concat rows = [1, 2, 0, 0 :: int] \<and>
     mca_topo_base_graph_neighbors_count demo_graph 1 = Ok (int (length (rows ! 1)))"
proof -
  have "wf_graph demo_graph \<lparr>graph_nnodes = 3, graph_index = [2, 3, 4], graph_edges = [1, 2, 0, 0]\<rparr>" "ompi_comm_size demo_graph = 3"
    by (simp_all add: wf_graph_def demo_graph_def demo_grid_def ompi_comm_size_def)
  with graph_neighbors_partition [OF this(1)] obtain rows where
    "length rows = 3" "concat rows = [1, 2, 0, 0 :: int]"
    "\<forall>i < length rows. mca_topo_base_graph_neighbors_count demo_graph (int i) = Ok (int (length (rows ! i)))"
    by auto
  then show ?thesis by (intro exI [of _ rows]) (auto dest: spec [of _ 1])
qed

end
