(* ===== verification/TopoBind.thy ===== *)
theory TopoBind
  imports TopoBase
begin

text \<open>
  The MPI functions on topologies in \<^verbatim>\<open>src/ompi/mpi/c\<close>: the checks of their arguments, and the call of the topology
  functions of \<open>TopoBase\<close>, which the component \<^verbatim>\<open>basic\<close> installs in the module of the communicator. These functions are
  not traced. Their output arguments are addresses, of which only \<^verbatim>\<open>NULL\<close> matters.
\<close>

section \<open>Checks\<close>

definition fail_if :: "bool \<Rightarrow> mpi_object \<Rightarrow> int \<Rightarrow> 'a answer \<Rightarrow> 'a answer" where
  "fail_if bad obj err a = (if bad then report obj err else a)"

text \<open>\<^verbatim>\<open>comm->...\<close>.\<close>

definition the_comm :: "mpi_lib \<Rightarrow> comm_handle \<Rightarrow> (communicator \<Rightarrow> 'a answer) \<Rightarrow> 'a answer" where
  "the_comm L comm k = (case comm_object L comm of None \<Rightarrow> ([], Crash) | Some c \<Rightarrow> k c)"

text \<open>A valid intracommunicator, the first two checks of most functions.\<close>

definition intra_comm :: "mpi_lib \<Rightarrow> comm_handle \<Rightarrow> (communicator \<Rightarrow> 'a answer) \<Rightarrow> 'a answer" where
  "intra_comm L comm k =
     fail_if (ompi_comm_invalid L comm) (Comm_Object MPI_COMM_WORLD) MPI_ERR_COMM (the_comm L comm (\<lambda>c.
     fail_if (c_inter c) (Comm_Object comm) MPI_ERR_COMM (k c)))"

text \<open>A result that is stored through a pointer, and one that is stored in an array.\<close>

definition deliver :: "ptr \<Rightarrow> 'a answer \<Rightarrow> 'a answer" where
  "deliver p a = (case snd a of Value x \<Rightarrow> if p = NULL then (fst a, Crash) else a | _ \<Rightarrow> a)"

definition deliver_list :: "ptr \<Rightarrow> ('a \<Rightarrow> 'b list) \<Rightarrow> 'a answer \<Rightarrow> 'a answer" where
  "deliver_list p part a = (case snd a of Value x \<Rightarrow> if p = NULL \<and> part x \<noteq> [] then (fst a, Crash) else a | _ \<Rightarrow> a)"

definition OMPI_COMM_IS_CART :: "communicator \<Rightarrow> bool" where
  "OMPI_COMM_IS_CART c \<longleftrightarrow> (case c_topo c of Some (Cart _) \<Rightarrow> True | _ \<Rightarrow> False)"

definition OMPI_COMM_IS_GRAPH :: "communicator \<Rightarrow> bool" where
  "OMPI_COMM_IS_GRAPH c \<longleftrightarrow> (case c_topo c of Some (Graph _) \<Rightarrow> True | _ \<Rightarrow> False)"

definition OMPI_COMM_IS_DIST_GRAPH :: "communicator \<Rightarrow> bool" where
  "OMPI_COMM_IS_DIST_GRAPH c \<longleftrightarrow> (case c_topo c of Some (Dist_graph _) \<Rightarrow> True | _ \<Rightarrow> False)"

section \<open>Queries of a grid\<close>

definition MPI_Cart_coords :: "mpi_lib \<Rightarrow> comm_handle \<Rightarrow> int \<Rightarrow> int \<Rightarrow> ptr \<Rightarrow> int list answer" where
  "MPI_Cart_coords L comm rank maxdims coords =
     (let obj = Comm_Object comm;
          rest = the_comm L comm (\<lambda>c. fail_if (\<not> OMPI_COMM_IS_CART c) obj MPI_ERR_TOPOLOGY
            (deliver_list coords id (reply_with L obj (mca_topo_base_cart_coords c rank maxdims)))) in
      if param_check L then init_finalize L (intra_comm L comm (\<lambda>c.
        fail_if (0 > maxdims \<or> 0 < maxdims \<and> coords = NULL) obj MPI_ERR_ARG (
        fail_if (0 > rank \<or> rank > ompi_comm_size c) obj MPI_ERR_RANK rest)))
      else rest)"

text \<open>The coordinates are an array of as many elements as the grid has dimensions, or \<^verbatim>\<open>NULL\<close>.\<close>

definition outside_fixed_dimension :: "cart_topo \<Rightarrow> int list \<Rightarrow> bool" where
  "outside_fixed_dimension cart coords \<longleftrightarrow>
     list_ex (\<lambda>(period, d, x). period = 0 \<and> (x < 0 \<or> x \<ge> d)) (zip (cart_periods cart) (zip (cart_dims cart) coords))"

definition MPI_Cart_rank :: "mpi_lib \<Rightarrow> comm_handle \<Rightarrow> int list option \<Rightarrow> ptr \<Rightarrow> int answer" where
  "MPI_Cart_rank L comm coords rank =
     (let obj = Comm_Object comm;
          xs = (case coords of None \<Rightarrow> [] | Some xs \<Rightarrow> xs);
          call = (\<lambda>c. deliver rank (reply_with L obj (mca_topo_base_cart_rank c xs))) in
      if param_check L then init_finalize L (intra_comm L comm (\<lambda>c.
        case c_topo c of Some (Cart cart) \<Rightarrow>
          fail_if (coords = None \<and> cart_ndims cart \<ge> 1 \<or> rank = NULL) obj MPI_ERR_ARG (
          fail_if (outside_fixed_dimension cart xs) obj MPI_ERR_ARG (call c))
        | _ \<Rightarrow> report obj MPI_ERR_TOPOLOGY))
      else the_comm L comm (\<lambda>c. fail_if (\<not> OMPI_COMM_IS_CART c) obj MPI_ERR_TOPOLOGY (call c)))"

definition MPI_Cart_shift :: "mpi_lib \<Rightarrow> comm_handle \<Rightarrow> int \<Rightarrow> int \<Rightarrow> ptr \<Rightarrow> ptr \<Rightarrow> (int \<times> int) answer" where
  "MPI_Cart_shift L comm direction disp rank_source rank_dest =
     (let obj = Comm_Object comm;
          rest = the_comm L comm (\<lambda>c. fail_if (\<not> OMPI_COMM_IS_CART c) obj MPI_ERR_TOPOLOGY
            (deliver rank_source (deliver rank_dest (reply_with L obj (mca_topo_base_cart_shift c direction disp))))) in
      if param_check L then init_finalize L (intra_comm L comm (\<lambda>c.
        fail_if (0 > direction) obj MPI_ERR_DIMS (
        fail_if (rank_source = NULL \<or> rank_dest = NULL) obj MPI_ERR_ARG rest)))
      else rest)"

definition MPI_Cart_map :: "mpi_lib \<Rightarrow> comm_handle \<Rightarrow> int \<Rightarrow> int list option \<Rightarrow> ptr \<Rightarrow> ptr \<Rightarrow> int answer" where
  "MPI_Cart_map L comm ndims dims periods newrank =
     (let obj = Comm_Object comm;
          rest = the_comm L comm (\<lambda>c. deliver newrank (
            if \<not> OMPI_COMM_IS_CART c then ([], Value (ompi_comm_rank c))
            else case dims of None \<Rightarrow> if ndims > 0 then ([], Crash) else reply_with L obj (mca_topo_base_cart_map c [])
              | Some ds \<Rightarrow> if int (length ds) < ndims then ([], Crash)
                  else reply_with L obj (mca_topo_base_cart_map c (take (nat ndims) ds)))) in
      if param_check L then init_finalize L (intra_comm L comm (\<lambda>c.
        fail_if (dims = None \<or> periods = NULL \<or> newrank = NULL) obj MPI_ERR_ARG rest))
      else rest)"

definition MPI_Cart_get ::
  "mpi_lib \<Rightarrow> comm_handle \<Rightarrow> int \<Rightarrow> ptr \<Rightarrow> ptr \<Rightarrow> ptr \<Rightarrow> (int list \<times> int list \<times> int list) answer" where
  "MPI_Cart_get L comm maxdims dims periods coords =
     (let obj = Comm_Object comm;
          rest = the_comm L comm (\<lambda>c. fail_if (\<not> OMPI_COMM_IS_CART c) obj MPI_ERR_TOPOLOGY
            (deliver_list dims fst (deliver_list periods (fst \<circ> snd) (deliver_list coords (snd \<circ> snd)
              (reply_with L obj (mca_topo_base_cart_get c maxdims)))))) in
      if param_check L then init_finalize L (
        fail_if (ompi_comm_invalid L comm) (Comm_Object MPI_COMM_WORLD) MPI_ERR_COMM (the_comm L comm (\<lambda>c.
        fail_if (c_inter c) (Comm_Object MPI_COMM_WORLD) MPI_ERR_COMM (
        fail_if (0 > maxdims \<or> 0 < maxdims \<and> (dims = NULL \<or> periods = NULL \<or> coords = NULL)) obj MPI_ERR_ARG rest))))
      else rest)"

definition MPI_Cartdim_get :: "mpi_lib \<Rightarrow> comm_handle \<Rightarrow> ptr \<Rightarrow> int answer" where
  "MPI_Cartdim_get L comm ndims =
     (let obj = Comm_Object comm;
          rest = the_comm L comm (\<lambda>c. fail_if (\<not> OMPI_COMM_IS_CART c) obj MPI_ERR_TOPOLOGY
            (deliver ndims (reply_with L obj (mca_topo_base_cartdim_get c)))) in
      if param_check L then init_finalize L (intra_comm L comm (\<lambda>c. fail_if (ndims = NULL) obj MPI_ERR_ARG rest))
      else rest)"

text \<open>
  \<open>MPI_Cart_sub\<close>, with the number of processes and the rank that \<^verbatim>\<open>ompi_comm_split\<close> gives for a colour and a key. The check
  of the arguments reads \<^verbatim>\<open>comm->c_topo->mtc.cart\<close> before it is known to be a grid.
\<close>

definition MPI_Cart_sub ::
  "mpi_lib \<Rightarrow> (int \<Rightarrow> int \<Rightarrow> (int \<times> int) c_result) \<Rightarrow> comm_handle \<Rightarrow> int list option \<Rightarrow> ptr \<Rightarrow> cart_topo answer" where
  "MPI_Cart_sub L ompi_comm_split comm remain_dims new_comm =
     (let obj = Comm_Object comm;
          rest = the_comm L comm (\<lambda>c. case c_topo c of
            Some (Cart cart) \<Rightarrow>
              (case if cart_ndims cart \<ge> 1 then remain_dims else Some [] of
                 None \<Rightarrow> ([], Crash)
               | Some rs \<Rightarrow> deliver new_comm (reply_with L obj
                   (bind_result (cart_sub_split c rs) (\<lambda>(colour, key).
                    bind_result (ompi_comm_split colour key) (\<lambda>(procs, newrank).
                      mca_topo_base_cart_sub c rs procs newrank)))))
          | _ \<Rightarrow> report obj MPI_ERR_TOPOLOGY) in
      if param_check L then init_finalize L (intra_comm L comm (\<lambda>c.
        if remain_dims \<noteq> None then rest
        else case c_topo c of Some (Cart cart) \<Rightarrow> fail_if (0 \<noteq> cart_ndims cart \<and> new_comm = NULL) obj MPI_ERR_ARG rest
          | _ \<Rightarrow> ([], Crash)))
      else rest)"

section \<open>Queries of a graph\<close>

definition MPI_Graph_neighbors_count :: "mpi_lib \<Rightarrow> comm_handle \<Rightarrow> int \<Rightarrow> ptr \<Rightarrow> int answer" where
  "MPI_Graph_neighbors_count L comm rank nneighbors =
     (let obj = Comm_Object comm;
          rest = the_comm L comm (\<lambda>c. fail_if (\<not> OMPI_COMM_IS_GRAPH c) obj MPI_ERR_TOPOLOGY
            (deliver nneighbors (reply_with L obj (mca_topo_base_graph_neighbors_count c rank)))) in
      if param_check L then init_finalize L (intra_comm L comm (\<lambda>c.
        fail_if (0 > rank \<or> rank > ompi_comm_size c) obj MPI_ERR_RANK (
        fail_if (nneighbors = NULL) obj MPI_ERR_ARG rest)))
      else rest)"

definition MPI_Graph_neighbors :: "mpi_lib \<Rightarrow> comm_handle \<Rightarrow> int \<Rightarrow> int \<Rightarrow> ptr \<Rightarrow> int list answer" where
  "MPI_Graph_neighbors L comm rank maxneighbors neighbors =
     (let obj = Comm_Object comm;
          rest = the_comm L comm (\<lambda>c. fail_if (\<not> OMPI_COMM_IS_GRAPH c) obj MPI_ERR_TOPOLOGY
            (deliver_list neighbors id (reply_with L obj (mca_topo_base_graph_neighbors c rank maxneighbors)))) in
      if param_check L then init_finalize L (intra_comm L comm (\<lambda>c.
        fail_if (0 > maxneighbors \<or> 0 < maxneighbors \<and> neighbors = NULL) obj MPI_ERR_ARG (
        fail_if (0 > rank \<or> rank > ompi_comm_size c) obj MPI_ERR_RANK rest)))
      else rest)"

definition MPI_Graph_get :: "mpi_lib \<Rightarrow> comm_handle \<Rightarrow> int \<Rightarrow> int \<Rightarrow> ptr \<Rightarrow> ptr \<Rightarrow> (int list \<times> int list) answer" where
  "MPI_Graph_get L comm maxindx maxedges indx edges =
     (let obj = Comm_Object comm;
          rest = the_comm L comm (\<lambda>c. fail_if (\<not> OMPI_COMM_IS_GRAPH c) obj MPI_ERR_TOPOLOGY
            (deliver_list indx fst (deliver_list edges snd (reply_with L obj (mca_topo_base_graph_get c maxindx maxedges))))) in
      if param_check L then intra_comm L comm (\<lambda>c.
        fail_if (0 > maxindx \<or> 0 > maxedges \<or> indx = NULL \<or> edges = NULL) obj MPI_ERR_ARG rest)
      else rest)"

definition MPI_Graphdims_get :: "mpi_lib \<Rightarrow> comm_handle \<Rightarrow> ptr \<Rightarrow> ptr \<Rightarrow> (int \<times> int) answer" where
  "MPI_Graphdims_get L comm nnodes nedges =
     (let obj = Comm_Object comm;
          rest = the_comm L comm (\<lambda>c. fail_if (\<not> OMPI_COMM_IS_GRAPH c) obj MPI_ERR_TOPOLOGY
            (deliver nnodes (deliver nedges (reply_with L obj (mca_topo_base_graphdims_get c))))) in
      if param_check L then init_finalize L (intra_comm L comm (\<lambda>c.
        fail_if (nnodes = NULL \<or> nedges = NULL) obj MPI_ERR_ARG rest))
      else rest)"

definition MPI_Graph_map :: "mpi_lib \<Rightarrow> comm_handle \<Rightarrow> int \<Rightarrow> ptr \<Rightarrow> ptr \<Rightarrow> ptr \<Rightarrow> int answer" where
  "MPI_Graph_map L comm nnodes indx edges newrank =
     (let obj = Comm_Object comm;
          rest = the_comm L comm (\<lambda>c. deliver newrank (
            if \<not> OMPI_COMM_IS_GRAPH c then ([], Value (ompi_comm_rank c))
            else ([], Value (mca_topo_base_graph_map c nnodes)))) in
      if param_check L then init_finalize L (intra_comm L comm (\<lambda>c.
        fail_if (1 > nnodes \<or> indx = NULL \<or> edges = NULL \<or> newrank = NULL) obj MPI_ERR_ARG rest))
      else rest)"

definition MPI_Dist_graph_neighbors_count :: "mpi_lib \<Rightarrow> comm_handle \<Rightarrow> ptr \<Rightarrow> ptr \<Rightarrow> ptr \<Rightarrow> (int \<times> int \<times> bool) answer" where
  "MPI_Dist_graph_neighbors_count L comm inneighbors outneighbors weighted =
     (let obj = Comm_Object comm;
          rest = the_comm L comm (\<lambda>c. fail_if (\<not> OMPI_COMM_IS_DIST_GRAPH c) obj MPI_ERR_TOPOLOGY
            (deliver inneighbors (deliver outneighbors (deliver weighted
              (reply_with L obj (mca_topo_base_dist_graph_neighbors_count c)))))) in
      if param_check L then init_finalize L (
        fail_if (ompi_comm_invalid L comm) No_Object MPI_ERR_COMM (
        fail_if (inneighbors = NULL \<or> outneighbors = NULL \<or> weighted = NULL) obj MPI_ERR_ARG rest))
      else rest)"

definition MPI_UNWEIGHTED :: ptr where "MPI_UNWEIGHTED = 2"

definition MPI_Dist_graph_neighbors ::
  "mpi_lib \<Rightarrow> comm_handle \<Rightarrow> int \<Rightarrow> ptr \<Rightarrow> ptr \<Rightarrow> int \<Rightarrow> ptr \<Rightarrow> ptr \<Rightarrow>
   (int list \<times> int list option \<times> int list \<times> int list option) answer" where
  "MPI_Dist_graph_neighbors L comm maxindegree sources sourceweights maxoutdegree destinations destweights =
     (let obj = Comm_Object comm;
          written = (\<lambda>ws. case ws of None \<Rightarrow> [] | Some xs \<Rightarrow> xs);
          rest = the_comm L comm (\<lambda>c. fail_if (\<not> OMPI_COMM_IS_DIST_GRAPH c) obj MPI_ERR_TOPOLOGY
            (deliver_list sources fst (deliver_list sourceweights (\<lambda>(_, sw, _). written sw)
             (deliver_list destinations (\<lambda>(_, _, ds, _). ds) (deliver_list destweights (\<lambda>(_, _, _, dw). written dw)
              (reply_with L obj (mca_topo_base_dist_graph_neighbors c maxindegree (sourceweights \<noteq> MPI_UNWEIGHTED)
                maxoutdegree (destweights \<noteq> MPI_UNWEIGHTED)))))))) in
      if param_check L then init_finalize L (
        fail_if (ompi_comm_invalid L comm) No_Object MPI_ERR_COMM (
        fail_if (maxindegree < 0 \<or> maxoutdegree < 0 \<or> maxindegree > 0 \<and> (sources = NULL \<or> sourceweights = NULL) \<or>
            maxoutdegree > 0 \<and> (destinations = NULL \<or> destweights = NULL)) obj MPI_ERR_ARG rest))
      else rest)"

definition MPI_CART :: int where "MPI_CART = 1"
definition MPI_GRAPH :: int where "MPI_GRAPH = 2"
definition MPI_DIST_GRAPH :: int where "MPI_DIST_GRAPH = 3"

definition MPI_Topo_test :: "mpi_lib \<Rightarrow> comm_handle \<Rightarrow> ptr \<Rightarrow> int answer" where
  "MPI_Topo_test L comm status =
     (let rest = the_comm L comm (\<lambda>c. deliver status ([], Value
            (if OMPI_COMM_IS_CART c then MPI_CART else if OMPI_COMM_IS_GRAPH c then MPI_GRAPH
             else if OMPI_COMM_IS_DIST_GRAPH c then MPI_DIST_GRAPH else MPI_UNDEFINED))) in
      if param_check L then init_finalize L (
        fail_if (ompi_comm_invalid L comm) No_Object MPI_ERR_COMM (
        fail_if (status = NULL) (Comm_Object comm) MPI_ERR_ARG rest))
      else rest)"

section \<open>Creation\<close>

text \<open>
  A new communicator comes from \<^verbatim>\<open>ompi_comm_create\<close> on a group (\<open>None\<close>: \<^verbatim>\<open>MPI_COMM_NULL\<close>), and the module from
  \<^verbatim>\<open>mca_topo_base_comm_select\<close>, whose return code is \<open>selected\<close>. The module clips the group to the processes of the topology;
  a group has at most as many processes as its communicator, so that \<^verbatim>\<open>ompi_group_flatten\<close> takes the first ones.
\<close>

type_synonym comm_maker = "communicator \<Rightarrow> 32 word option list \<Rightarrow> communicator option c_result"

definition mca_topo_base_cart_create :: "comm_maker \<Rightarrow> communicator \<Rightarrow> int list \<Rightarrow> int list \<Rightarrow> communicator option c_result" where
  "mca_topo_base_cart_create ompi_comm_create old_comm dims periods =
     bind_result (mca_topo_base_cart_allocate (ompi_comm_size old_comm) (ompi_comm_rank old_comm) dims periods)
       (\<lambda>(new_rank, num_procs, cart).
     bind_result (ompi_comm_create old_comm (take (nat num_procs) (c_local_group old_comm))) (\<lambda>new_comm.
       case new_comm of None \<Rightarrow> Ok None | Some c \<Rightarrow> Ok (Some (c\<lparr>c_topo := map_option Cart cart\<rparr>))))"

text \<open>\<^verbatim>\<open>count_nodes\<close>: the product of the dimensions, in \<^verbatim>\<open>int\<close> arithmetic.\<close>

fun count_nodes :: "int \<Rightarrow> int list \<Rightarrow> int c_result" where
  "count_nodes n [] = Ok n"
| "count_nodes n (p # ps) = (if n * p > INT_MAX \<or> n * p < - INT_MAX - 1 then UB else count_nodes (n * p) ps)"

definition MPI_Cart_create ::
  "mpi_lib \<Rightarrow> int \<Rightarrow> comm_maker \<Rightarrow> comm_handle \<Rightarrow> int \<Rightarrow> int list option \<Rightarrow> int list option \<Rightarrow> ptr \<Rightarrow>
   communicator option answer" where
  "MPI_Cart_create L selected ompi_comm_create old_comm ndims dims periods comm_cart =
     (let obj = Comm_Object old_comm;
          ds = take (nat ndims) (case dims of None \<Rightarrow> [] | Some x \<Rightarrow> x);
          ps = take (nat ndims) (case periods of None \<Rightarrow> [] | Some x \<Rightarrow> x);
          rest = the_comm L old_comm (\<lambda>c.
            if OMPI_SUCCESS \<noteq> selected then ([], Failed)
            else if int (length ds) < ndims \<or> int (length ps) < ndims then ([], Crash)
            else deliver comm_cart (reply_with L obj (mca_topo_base_cart_create ompi_comm_create c ds ps))) in
      if param_check L then init_finalize L (
        fail_if (ompi_comm_invalid L old_comm) (Comm_Object MPI_COMM_WORLD) MPI_ERR_COMM (the_comm L old_comm (\<lambda>c.
        fail_if (c_inter c) No_Object MPI_ERR_COMM (
        fail_if (ndims < 0) obj MPI_ERR_ARG (
        fail_if (ndims \<ge> 1 \<and> (dims = None \<or> periods = None \<or> comm_cart = NULL)) obj MPI_ERR_ARG (
          if int (length ds) < ndims then ([], Crash)
          else case count_nodes 1 ds of UB \<Rightarrow> ([], Crash)
            | Ok n \<Rightarrow> fail_if (ompi_comm_size c < n) obj MPI_ERR_ARG rest
            | Err e \<Rightarrow> rest))))))
      else rest)"

definition mca_topo_base_graph_create ::
  "comm_maker \<Rightarrow> communicator \<Rightarrow> int \<Rightarrow> int list \<Rightarrow> int list \<Rightarrow> communicator option c_result" where
  "mca_topo_base_graph_create ompi_comm_create old_comm nnodes index edges =
     bind_result (mca_topo_base_graph_allocate (ompi_comm_size old_comm) (ompi_comm_rank old_comm) nnodes index edges)
       (\<lambda>(num_procs, graph).
     bind_result (ompi_comm_create old_comm (take (nat nnodes) (c_local_group old_comm))) (\<lambda>comm_topo.
       case comm_topo of None \<Rightarrow> Ok None | Some c \<Rightarrow> Ok (Some (c\<lparr>c_topo := map_option Graph graph\<rparr>))))"

definition MPI_Graph_create ::
  "mpi_lib \<Rightarrow> int \<Rightarrow> comm_maker \<Rightarrow> comm_handle \<Rightarrow> int \<Rightarrow> int list option \<Rightarrow> int list option \<Rightarrow> ptr \<Rightarrow>
   communicator option answer" where
  "MPI_Graph_create L selected ompi_comm_create old_comm nnodes indx edges comm_graph =
     (let obj = Comm_Object old_comm;
          rest = (if 0 = nnodes then deliver comm_graph ([], Value None)
            else the_comm L old_comm (\<lambda>c.
              fail_if (nnodes > ompi_comm_size c) obj MPI_ERR_ARG (
              if OMPI_SUCCESS \<noteq> selected then ([], Failed)
              else case (indx, edges) of (Some ix, Some es) \<Rightarrow>
                  deliver comm_graph (reply_with L obj (mca_topo_base_graph_create ompi_comm_create c nnodes ix es))
                | _ \<Rightarrow> ([], Crash)))) in
      if param_check L then init_finalize L (
        fail_if (ompi_comm_invalid L old_comm) (Comm_Object MPI_COMM_WORLD) MPI_ERR_COMM (the_comm L old_comm (\<lambda>c.
        fail_if (c_inter c) No_Object MPI_ERR_COMM (
        fail_if (nnodes < 0) obj MPI_ERR_ARG (
        fail_if (nnodes \<ge> 1 \<and> (indx = None \<or> edges = None)) obj MPI_ERR_ARG (
        fail_if (nnodes > ompi_comm_size c) obj MPI_ERR_ARG rest))))))
      else rest)"

text \<open>
  The distributed graph that every process describes by its own neighbours. Weights are an array, \<^verbatim>\<open>MPI_UNWEIGHTED\<close> or
  \<^verbatim>\<open>NULL\<close>; the duplicate of the communicator comes from \<^verbatim>\<open>ompi_comm_dup_with_info\<close>.
\<close>

datatype weights_arg = Weights_NULL | Unweighted | Weights "int list"

definition array_or_nil :: "'a list option \<Rightarrow> 'a list" where
  "array_or_nil x = (case x of None \<Rightarrow> [] | Some xs \<Rightarrow> xs)"

definition copied_weights :: "weights_arg \<Rightarrow> int \<Rightarrow> int list option c_result" where
  "copied_weights w n =
     (if n \<le> 0 then Ok None
      else case w of Unweighted \<Rightarrow> Ok None | Weights_NULL \<Rightarrow> UB | Weights ws \<Rightarrow> bind_result (copy_run ws 0 n) (\<lambda>x. Ok (Some x)))"

definition mca_topo_base_dist_graph_create_adjacent ::
  "communicator c_result \<Rightarrow> int \<Rightarrow> int list \<Rightarrow> weights_arg \<Rightarrow> int \<Rightarrow> int list \<Rightarrow> weights_arg \<Rightarrow> communicator c_result" where
  "mca_topo_base_dist_graph_create_adjacent dup indegree sources sourceweights outdegree destinations destweights =
     bind_result dup (\<lambda>newcomm.
     bind_result (copy_run sources 0 indegree) (\<lambda>ins.
     bind_result (copied_weights sourceweights indegree) (\<lambda>inw.
     bind_result (copy_run destinations 0 outdegree) (\<lambda>outs.
     bind_result (copied_weights destweights outdegree) (\<lambda>outw.
       Ok (newcomm\<lparr>c_topo := Some (Dist_graph \<lparr>dg_in = ins, dg_inw = inw, dg_out = outs, dg_outw = outw,
         dg_indegree = indegree, dg_outdegree = outdegree,
         dg_weighted = (\<not> (sourceweights = Unweighted \<and> destweights = Unweighted))\<rparr>)\<rparr>))))))"

text \<open>The loops that check the neighbours and their weights; a read behind the end of an array is \<open>UB\<close>, and \<open>Ok False\<close>
  is an invalid element.\<close>

fun neighbors_valid :: "int \<Rightarrow> nat \<Rightarrow> int list \<Rightarrow> int list option \<Rightarrow> bool c_result" where
  "neighbors_valid comm_size 0 xs ws = Ok True"
| "neighbors_valid comm_size (Suc n) [] ws = UB"
| "neighbors_valid comm_size (Suc n) (x # xs) ws =
     (if x < 0 \<and> x \<noteq> MPI_PROC_NULL \<or> x \<ge> comm_size then Ok False
      else case ws of None \<Rightarrow> neighbors_valid comm_size n xs None
        | Some [] \<Rightarrow> UB
        | Some (w # ws) \<Rightarrow> if w < 0 then Ok False else neighbors_valid comm_size n xs (Some ws))"

definition weights_list :: "weights_arg \<Rightarrow> int list option" where
  "weights_list w = (case w of Weights ws \<Rightarrow> Some ws | _ \<Rightarrow> None)"

definition MPI_Dist_graph_create_adjacent ::
  "mpi_lib \<Rightarrow> int \<Rightarrow> communicator c_result \<Rightarrow> comm_handle \<Rightarrow> int \<Rightarrow> int list option \<Rightarrow> weights_arg \<Rightarrow> int \<Rightarrow> int list option \<Rightarrow>
   weights_arg \<Rightarrow> ptr \<Rightarrow> communicator answer" where
  "MPI_Dist_graph_create_adjacent L selected dup comm_old indegree sources sourceweights outdegree destinations destweights
       comm_dist_graph =
     (let obj = Comm_Object comm_old; ins = array_or_nil sources; outs = array_or_nil destinations;
          rest = the_comm L comm_old (\<lambda>c.
            fail_if (OMPI_SUCCESS \<noteq> selected) obj (ompi_errcode_get_mpi_code L selected) (
            deliver comm_dist_graph (reply_with L obj
              (mca_topo_base_dist_graph_create_adjacent dup indegree ins sourceweights outdegree outs destweights))));
          valid = (\<lambda>v k. case v of Ok b \<Rightarrow> fail_if (\<not> b) obj MPI_ERR_ARG k | _ \<Rightarrow> ([], Crash)) in
      if param_check L then init_finalize L (
        fail_if (ompi_comm_invalid L comm_old) No_Object MPI_ERR_COMM (the_comm L comm_old (\<lambda>c.
        fail_if (c_inter c) No_Object MPI_ERR_COMM (
        fail_if (indegree < 0 \<or> outdegree < 0 \<or> comm_dist_graph = NULL) obj MPI_ERR_ARG (
        fail_if (indegree > 0 \<and> (sources = None \<or> sourceweights = Weights_NULL) \<or>
            outdegree > 0 \<and> (destinations = None \<or> destweights = Weights_NULL)) obj MPI_ERR_ARG (
          valid (neighbors_valid (ompi_comm_size c) (nat indegree) ins (weights_list sourceweights)) (
          valid (neighbors_valid (ompi_comm_size c) (nat outdegree) outs (weights_list destweights)) rest)))))))
      else rest)"

section \<open>Properties\<close>

text \<open>The library after initialisation, with the checks of arguments, and a usable intracommunicator.\<close>

definition checked_lib :: "mpi_lib \<Rightarrow> bool" where
  "checked_lib L \<longleftrightarrow> param_check L \<and> ompi_instance_count L \<noteq> 0"

definition usable_comm :: "communicator \<Rightarrow> bool" where
  "usable_comm c \<longleftrightarrow> \<not> c_inter c \<and> \<not> c_freed c \<and> \<not> c_invalid c"

lemma usable_simps [simp]:
  "checked_lib L \<Longrightarrow> param_check L" "checked_lib L \<Longrightarrow> init_finalize L a = a"
  "usable_comm c \<Longrightarrow> \<not> ompi_comm_invalid L (Comm c)" "usable_comm c \<Longrightarrow> \<not> c_inter c"
  "usable_comm c \<Longrightarrow> intra_comm L (Comm c) k = k c"
  "the_comm L (Comm c) k = k c"
  by (simp_all add: checked_lib_def init_finalize_def usable_comm_def ompi_comm_invalid_def intra_comm_def the_comm_def fail_if_def)

lemma fail_if_simps [simp]: "fail_if False obj e a = a" "fail_if True obj e a = report obj e"
  by (simp_all add: fail_if_def)

lemma deliver_simps [simp]:
  "deliver p ([], Value x) = (if p = NULL then ([], Crash) else ([], Value x))"
  "deliver p (report obj e) = report obj e" "deliver_list p f (report obj e) = report obj e"
  "deliver_list p f ([], Value x) = (if p = NULL \<and> f x \<noteq> [] then ([], Crash) else ([], Value x))"
  "deliver p ([], Crash) = ([], Crash)" "deliver_list p f ([], Crash) = ([], Crash)"
  by (simp_all add: deliver_def deliver_list_def report_def)

lemma reply_with_simps [simp]:
  "reply_with L obj (Ok x) = ([], Value x)" "reply_with L obj (Err e) = report obj (ompi_errcode_get_mpi_code L e)"
  "reply_with L obj UB = ([], Crash)"
  by (simp_all add: reply_with_def)

lemma wf_is_cart: "wf_cart c t \<Longrightarrow> OMPI_COMM_IS_CART c" "wf_cart c t \<Longrightarrow> c_topo c = Some (Cart t)"
  by (simp_all add: wf_cart_def OMPI_COMM_IS_CART_def)

lemma wf_is_graph: "wf_graph c t \<Longrightarrow> OMPI_COMM_IS_GRAPH c" "wf_graph c t \<Longrightarrow> c_topo c = Some (Graph t)"
  by (simp_all add: wf_graph_def OMPI_COMM_IS_GRAPH_def)

text \<open>What \<^verbatim>\<open>ompi_comm_create\<close> does on the first processes of a communicator: the members get a communicator of the group
  in which they keep their rank, and the others \<^verbatim>\<open>MPI_COMM_NULL\<close>.\<close>

definition creates_on :: "comm_maker \<Rightarrow> communicator \<Rightarrow> bool" where
  "creates_on mk old \<longleftrightarrow> (\<forall>n \<le> length (c_local_group old). 
     (ompi_comm_rank old < int n \<longrightarrow> (\<exists>c. mk old (take n (c_local_group old)) = Ok (Some c) \<and> usable_comm c \<and>
        c_local_group c = take n (c_local_group old) \<and> c_my_rank c = c_my_rank old)) \<and>
     (ompi_comm_rank old \<ge> int n \<longrightarrow> mk old (take n (c_local_group old)) = Ok None))"

lemma count_nodes_Ok: "positive ds \<Longrightarrow> 0 < n \<Longrightarrow> n * prod_list ds \<le> INT_MAX \<Longrightarrow> count_nodes n ds = Ok (n * prod_list ds)"
proof (induction ds arbitrary: n)
  case (Cons d ds)
  have p: "0 < n * d" using Cons.prems by simp
  moreover have "\<not> INT_MAX < n * d" using factor_bound [OF _ p, of ds INT_MAX] Cons.prems by (simp add: mult.assoc)
  moreover have "\<not> n * d < - INT_MAX - 1" using p by (simp add: INT_MAX_def)
  ultimately show ?case using Cons by (simp add: mult.assoc)
qed simp

lemma cart_allocate_cases:
  assumes "length periods = length dims" "0 \<le> r" "r < count" "count \<le> INT_MAX" "positive dims" "prod_list dims \<le> count"
  shows "r < prod_list dims \<Longrightarrow> in_grid dims cs \<Longrightarrow> point_number dims cs = r \<Longrightarrow> mca_topo_base_cart_allocate count r dims periods =
      Ok (r, prod_list dims, Some \<lparr>cart_ndims = int (length dims), cart_dims = dims, cart_periods = periods, cart_coords = cs\<rparr>)"
    and "prod_list dims \<le> r \<Longrightarrow> mca_topo_base_cart_allocate count r dims periods = Ok (MPI_UNDEFINED, prod_list dims, None)"
proof -
  have ok: "grid_procs OMPI_ERROR 1 dims = Ok (prod_list dims)" using grid_procs_Ok [of dims 1] assms by simp
  have u: "MPI_UNDEFINED \<noteq> r" using assms(2) by (simp add: MPI_UNDEFINED_def)
  have n: "(if prod_list dims < count then prod_list dims else count) = prod_list dims" using assms by simp
  show "mca_topo_base_cart_allocate count r dims periods =
      Ok (r, prod_list dims, Some \<lparr>cart_ndims = int (length dims), cart_dims = dims, cart_periods = periods, cart_coords = cs\<rparr>)"
    if "r < prod_list dims" "in_grid dims cs" "point_number dims cs = r"
    using coords_of_number [OF that(2)] that(1,3) ok u n assms(6) by (simp add: mca_topo_base_cart_allocate_def Let_def)
  show "mca_topo_base_cart_allocate count r dims periods = Ok (MPI_UNDEFINED, prod_list dims, None)" if "prod_list dims \<le> r"
    using that ok n assms(6) by (simp add: mca_topo_base_cart_allocate_def Let_def)
qed

lemma cart_create_value:
  assumes "checked_lib L" "usable_comm old" "creates_on mk old" "length periods = length dims"
    and "0 \<le> ompi_comm_rank old" "ompi_comm_rank old < ompi_comm_size old" "ompi_comm_size old \<le> INT_MAX"
    and "positive dims" "prod_list dims \<le> ompi_comm_size old" "p \<noteq> NULL"
  shows "MPI_Cart_create L OMPI_SUCCESS mk (Comm old) (int (length dims)) (Some dims) (Some periods) p =
    reply_with L (Comm_Object (Comm old)) (mca_topo_base_cart_create mk old dims periods)"
proof -
  have "count_nodes 1 dims = Ok (prod_list dims)" using count_nodes_Ok [of dims 1] assms(7-9) by simp
  then show ?thesis using assms
    by (simp add: MPI_Cart_create_def Let_def deliver_def split: reply.splits)
qed


text \<open>The communicator of the witnesses.\<close>

definition demo_maker :: comm_maker where
  "demo_maker old grp =
     Ok (if ompi_comm_rank old < int (length grp) then Some (old\<lparr>c_local_group := grp, c_topo := None\<rparr>) else None)"

definition demo_old :: communicator where
  "demo_old = demo_grid\<lparr>c_topo := None, c_local_group := map Some [0, 1, 2, 3, 4, 5, 6]\<rparr>"

lemma demo_checked: "checked_lib demo_lib"
  by (simp add: checked_lib_def demo_lib_def)

lemma demo_old_facts:
  "usable_comm demo_old" "creates_on demo_maker demo_old" "ompi_comm_rank demo_old = 5" "ompi_comm_size demo_old = 7"
  by (simp_all add: usable_comm_def creates_on_def demo_maker_def demo_old_def demo_grid_def ompi_comm_rank_def ompi_comm_size_def)


text \<open>Arguments that the checks let pass.\<close>

lemma c_div_factor:
  assumes "0 < d" "0 < n"
  shows "c_div (d * n) d = n" "c_div (d * n) n = d" "c_mod (d * n) n = 0" "c_div 0 n = 0" "c_mod 0 n = 0"
proof -
  have "0 \<le> d * n" using assms by simp
  then show "c_div (d * n) d = n" "c_div (d * n) n = d" "c_mod (d * n) n = 0" "c_div 0 n = 0" "c_mod 0 n = 0"
    using assms by (simp_all add: c_div_nonneg c_mod_nonneg)
qed

lemma coords_loop_zero: "positive ds \<Longrightarrow> coords_loop ds (prod_list ds) 0 = Ok (replicate (length ds) 0)"
proof (induction ds)
  case (Cons d ds)
  then have p: "0 < prod_list ds" "0 < d" by simp_all
  have IH: "coords_loop ds (prod_list ds) 0 = Ok (replicate (length ds) 0)" using Cons by simp
  show ?case using c_div_factor [OF p(2,1)] p IH by (simp add: Let_def del: prod_list_pos)
qed simp

lemma cart_coords_of_size:
  assumes "wf_cart c t" "cart_dims t = d # ds"
  shows "mca_topo_base_cart_coords c (ompi_comm_size c) (cart_ndims t) = Ok (d # replicate (length ds) 0)"
proof -
  have p: "0 < d" "positive ds" "ompi_comm_size c = d * prod_list ds" "cart_ndims t = int (length (d # ds))"
    using assms unfolding wf_cart_def by auto
  have q: "0 < prod_list ds" using p(2) by simp
  show ?thesis
    using p(3,4) q p(1) coords_loop_zero [OF p(2)] assms(2) wf_is_cart [OF assms(1)] c_div_factor [OF p(1) q]
    by (simp add: mca_topo_base_cart_coords_def with_cart_def Let_def del: prod_list_pos)
qed



text \<open>The loops on a well-formed grid neither divide by zero nor read behind an array.\<close>

lemma coords_loop_defined: "positive ds \<Longrightarrow> \<exists>cs. coords_loop (take k ds) (prod_list ds) r = Ok cs \<and> length cs = length (take k ds)"
proof (induction ds arbitrary: k r)
  case (Cons d ds)
  then have p: "0 < prod_list ds" "0 < d" "positive ds" by simp_all
  show ?case
  proof (cases k)
    case (Suc j)
    obtain cs where "coords_loop (take j ds) (prod_list ds) (c_mod r (prod_list ds)) = Ok cs" "length cs = length (take j ds)"
      using Cons.IH [OF p(3)] by blast
    then show ?thesis using c_div_factor [OF p(2,1)] p(1,2) Suc by (simp add: Let_def del: prod_list_pos)
  qed simp
qed simp

lemma shift_loop_defined:
  "positive ds \<Longrightarrow> length qs = length ds \<Longrightarrow> \<exists>d' q' o' f. shift_loop (take k (zip ds qs)) (d, q, r, prod_list ds) = Ok (d', q', o', f) \<and>
     0 < f \<and> (0 < d' \<or> (d', q') = (d, q))"
proof (induction ds arbitrary: qs k d q r)
  case (Cons e ds)
  then obtain e' qs' where qs: "qs = e' # qs'" "length qs' = length ds" by (cases qs) auto
  have p: "0 < prod_list ds" "0 < e" "positive ds" using Cons.prems by simp_all
  then have m: "0 < e * prod_list ds" by simp
  show ?case
  proof (cases k)
    case 0
    then show ?thesis using m by simp
  next
    case (Suc j)
    obtain d' q' o' f where "shift_loop (take j (zip ds qs')) (e, e', c_mod r (e * prod_list ds), prod_list ds) = Ok (d', q', o', f)"
      "0 < f" "0 < d' \<or> (d', q') = (e, e')"
      using Cons.IH [OF p(3) qs(2)] by blast
    then show ?thesis using c_div_factor [OF p(2,1)] p(1,2) qs Suc by (auto simp del: prod_list_pos)
  qed
qed simp

lemma shift_target_defined: "0 < d \<or> (d, q) = (0, 0) \<Longrightarrow> \<exists>x. shift_target rank d q ord f to = Ok x"
  by (cases "0 < d") (auto simp: shift_target_def Let_def not_less)

lemma cart_shift_defined: "wf_cart c t \<Longrightarrow> \<exists>x. mca_topo_base_cart_shift c direction disp = Ok x"
proof -
  assume w: "wf_cart c t"
  let ?k = "nat (min (cart_ndims t) (direction + 1))"
  obtain d q r f where l: "shift_loop (take ?k (zip (cart_dims t) (cart_periods t))) (0, 0, ompi_comm_rank c, ompi_comm_size c) = Ok (d, q, r, f)"
    "0 < f" "0 < d \<or> (d, q) = (0, 0)"
    using shift_loop_defined [of "cart_dims t" "cart_periods t" ?k 0 0 "ompi_comm_rank c"] w unfolding wf_cart_def by auto
  obtain x y where "shift_target (ompi_comm_rank c) d q (c_div r f) f (c_div r f + disp) = Ok x"
    "shift_target (ompi_comm_rank c) d q (c_div r f) f (c_div r f - disp) = Ok y"
    using shift_target_defined [OF l(3)] by metis
  then show ?thesis using l(1,2) wf_is_cart [OF w] by (simp add: mca_topo_base_cart_shift_def with_cart_def Let_def)
qed

lemma copy_run_defined: "n \<le> int (length xs) \<Longrightarrow> \<exists>ys. copy_run xs 0 n = Ok ys"
  by (auto simp: copy_run_def)

lemma graph_get_defined:
  assumes "wf_graph c g"
  shows "\<exists>x. mca_topo_base_graph_get c m n = Ok x" "\<exists>x. mca_topo_base_graphdims_get c = Ok x"
proof -
  have g: "int (length (graph_index g)) = ompi_comm_size c" "graph_index g \<noteq> []" "last (graph_index g) = int (length (graph_edges g))"
    using assms unfolding wf_graph_def by auto
  have f: "fetch (graph_index g) (ompi_comm_size c - 1) = Ok (int (length (graph_edges g)))"
    unfolding g(1) [symmetric] using g(2,3) by (auto simp: fetch_def last_conv_nth nat_diff_distrib Suc_leI)
  obtain xs where xs: "copy_run (graph_index g) 0 (min (ompi_comm_size c) m) = Ok xs"
    using copy_run_defined [of "min (ompi_comm_size c) m" "graph_index g"] g(1) by auto
  obtain ys where ys: "copy_run (graph_edges g) 0 (min (int (length (graph_edges g))) n) = Ok ys"
    using copy_run_defined [of "min (int (length (graph_edges g))) n" "graph_edges g"] by auto
  show "\<exists>x. mca_topo_base_graph_get c m n = Ok x" "\<exists>x. mca_topo_base_graphdims_get c = Ok x"
    using f xs ys wf_is_graph [OF assms]
    by (simp_all add: mca_topo_base_graph_get_def mca_topo_base_graphdims_get_def with_graph_def Let_def)
qed

lemma graph_neighbors_defined:
  assumes "wf_graph c g" "0 \<le> r" "r < ompi_comm_size c"
  shows "\<exists>x. mca_topo_base_graph_neighbors c r m = Ok x" "\<exists>x. mca_topo_base_graph_neighbors_count c r = Ok x"
proof -
  define i where "i = nat r"
  have i: "r = int i" "i < length (graph_index g)" using assms unfolding wf_graph_def i_def by auto
  show "\<exists>x. mca_topo_base_graph_neighbors_count c r = Ok x" using graph_row(1) [OF assms(1) i(2)] i(1) by blast
  note w = wf_graph_index [OF assms(1) i(2)] wf_graph_index(1) [OF assms(1), of "i - 1"]
  have f: "fetch (graph_index g) r = Ok (graph_index g ! i)" "r > 0 \<Longrightarrow> fetch (graph_index g) (r - 1) = Ok (graph_index g ! (i - 1))"
    using i by (auto simp: fetch_def nat_diff_distrib)
  show "\<exists>x. mca_topo_base_graph_neighbors c r m = Ok x"
    using f w i wf_is_graph [OF assms(1)]
    by (cases "i = 0") (auto simp: mca_topo_base_graph_neighbors_def with_graph_def copy_run_def)
qed

lemma no_crash_simps [simp]:
  "snd (fail_if b obj e a) \<noteq> Crash \<longleftrightarrow> b \<or> snd a \<noteq> Crash" "snd (report obj e) \<noteq> Crash"
  by (simp_all add: fail_if_def report_def)

lemma coords_no_crash:
  assumes "wf_cart c t" "checked_lib L" "usable_comm c"
  shows "snd (MPI_Cart_coords L (Comm c) r maxdims p) \<noteq> Crash"
proof -
  have w: "positive (cart_dims t)" "prod_list (cart_dims t) = ompi_comm_size c" using assms(1) unfolding wf_cart_def by auto
  let ?k = "nat (min (cart_ndims t) maxdims)"
  obtain cs where cs: "coords_loop (take ?k (cart_dims t)) (ompi_comm_size c) r = Ok cs" "length cs = length (take ?k (cart_dims t))"
    using coords_loop_defined [OF w(1)] unfolding w(2) by blast
  then have "mca_topo_base_cart_coords c r maxdims = Ok cs" "maxdims \<le> 0 \<Longrightarrow> cs = []"
    using wf_is_cart [OF assms(1)] by (simp_all add: mca_topo_base_cart_coords_def with_cart_def)
  then show ?thesis using assms(2,3) wf_is_cart [OF assms(1)] by (auto simp: MPI_Cart_coords_def Let_def)
qed

lemma rank_no_crash:
  assumes "wf_cart c t" "checked_lib L" "usable_comm c" "case coords of None \<Rightarrow> True | Some xs \<Rightarrow> length xs = length (cart_dims t)"
  shows "snd (MPI_Cart_rank L (Comm c) coords p) \<noteq> Crash"
proof (cases coords)
  case (Some xs)
  then show ?thesis using cart_rank_number [OF assms(1), of xs] assms(2-4) wf_is_cart [OF assms(1)] by (simp add: MPI_Cart_rank_def Let_def)
next
  case None
  have "cart_ndims t = int (length (cart_dims t))" using assms(1) unfolding wf_cart_def by blast
  then have "cart_ndims t \<ge> 1 \<or> length [] = length (cart_dims t)" by (cases "cart_dims t") auto
  then show ?thesis
    using cart_rank_number [OF assms(1), of "[]"] None assms(2,3) wf_is_cart [OF assms(1)] by (auto simp: MPI_Cart_rank_def Let_def)
qed

lemma grid_queries_no_crash:
  assumes "wf_cart c t" "checked_lib L" "usable_comm c"
  shows "snd (MPI_Cart_shift L (Comm c) direction disp p q) \<noteq> Crash" "snd (MPI_Cart_get L (Comm c) n p q o') \<noteq> Crash"
    "snd (MPI_Cartdim_get L (Comm c) p) \<noteq> Crash" "snd (MPI_Topo_test L (Comm c) p) \<noteq> Crash"
proof -
  obtain x where "mca_topo_base_cart_shift c direction disp = Ok x" using cart_shift_defined [OF assms(1)] by blast
  then show "snd (MPI_Cart_shift L (Comm c) direction disp p q) \<noteq> Crash"
    using assms(2,3) wf_is_cart [OF assms(1)] by (simp add: MPI_Cart_shift_def Let_def)
  show "snd (MPI_Cart_get L (Comm c) n p q o') \<noteq> Crash" "snd (MPI_Cartdim_get L (Comm c) p) \<noteq> Crash"
    "snd (MPI_Topo_test L (Comm c) p) \<noteq> Crash"
    using assms(2,3) wf_is_cart [OF assms(1)]
    by (auto simp: MPI_Cart_get_def MPI_Cartdim_get_def MPI_Topo_test_def Let_def mca_topo_base_cart_get_def
        mca_topo_base_cartdim_get_def with_cart_def)
qed

lemma graph_queries_no_crash:
  assumes "wf_graph c g" "checked_lib L" "usable_comm c" "r \<noteq> ompi_comm_size c"
  shows "snd (MPI_Graph_neighbors_count L (Comm c) r p) \<noteq> Crash" "snd (MPI_Graph_neighbors L (Comm c) r m p) \<noteq> Crash"
    "snd (MPI_Graph_get L (Comm c) m n p q) \<noteq> Crash" "snd (MPI_Graphdims_get L (Comm c) p q) \<noteq> Crash"
    "snd (MPI_Graph_map L (Comm c) n p q o') \<noteq> Crash"
proof -
  note g = wf_is_graph [OF assms(1)]
  show "snd (MPI_Graph_get L (Comm c) m n p q) \<noteq> Crash" "snd (MPI_Graphdims_get L (Comm c) p q) \<noteq> Crash"
    "snd (MPI_Graph_map L (Comm c) n p q o') \<noteq> Crash"
    using graph_get_defined [OF assms(1)] g(1) assms(2,3)
    by (auto simp: MPI_Graph_get_def MPI_Graphdims_get_def MPI_Graph_map_def Let_def)
      (metis deliver_list_def deliver_simps(4) no_crash_simps reply_with_simps(1) snd_conv reply.simps)+
  show "snd (MPI_Graph_neighbors_count L (Comm c) r p) \<noteq> Crash" "snd (MPI_Graph_neighbors L (Comm c) r m p) \<noteq> Crash"
  proof -
    note d = graph_neighbors_defined [OF assms(1), of r]
    have z: "m \<le> 0 \<Longrightarrow> mca_topo_base_graph_neighbors c r m = Ok x \<Longrightarrow> x = []" for x
      using g by (auto simp: mca_topo_base_graph_neighbors_def with_graph_def copy_run_def bind_result_Ok split: if_splits)
    show "snd (MPI_Graph_neighbors_count L (Comm c) r p) \<noteq> Crash"
      using d assms(2-4) g(1) by (auto simp: MPI_Graph_neighbors_count_def Let_def)
    show "snd (MPI_Graph_neighbors L (Comm c) r m p) \<noteq> Crash"
    proof (cases "0 \<le> r \<and> r < ompi_comm_size c")
      case True
      then obtain x where x: "mca_topo_base_graph_neighbors c r m = Ok x" using d(1) by blast
      have "m < 0 \<or> 0 < m \<and> p = NULL \<or> \<not> (p = NULL \<and> x \<noteq> [])" using z [OF _ x] by linarith
      then show ?thesis using x True assms(2,3) g(1) by (auto simp: MPI_Graph_neighbors_def Let_def)
    next
      case False
      then show ?thesis using assms(2-4) by (auto simp: MPI_Graph_neighbors_def Let_def)
    qed
  qed
qed

text \<open>C31: The queries of a well-formed topology are safe when arguments are checked: for any rank but the number of
  processes, any direction, displacement and array length, and for null pointers, no query divides by zero, dereferences
  a null pointer or reads behind an array. It returns a value or reports an error.\<close>

theorem topology_queries_safe:
  assumes "checked_lib L" "usable_comm c" "r \<noteq> ompi_comm_size c"
  shows "(wf_cart c t \<longrightarrow>
      snd (MPI_Cart_coords L (Comm c) r m p) \<noteq> Crash \<and> snd (MPI_Cart_shift L (Comm c) direction disp p q) \<noteq> Crash \<and>
      snd (MPI_Cart_get L (Comm c) m p q o') \<noteq> Crash \<and> snd (MPI_Cartdim_get L (Comm c) p) \<noteq> Crash \<and>
      snd (MPI_Topo_test L (Comm c) p) \<noteq> Crash \<and> snd (MPI_Cart_rank L (Comm c) None p) \<noteq> Crash \<and>
      (length xs = length (cart_dims t) \<longrightarrow> snd (MPI_Cart_rank L (Comm c) (Some xs) p) \<noteq> Crash)) \<and>
    (wf_graph c g \<longrightarrow>
      snd (MPI_Graph_neighbors_count L (Comm c) r p) \<noteq> Crash \<and> snd (MPI_Graph_neighbors L (Comm c) r m p) \<noteq> Crash \<and>
      snd (MPI_Graph_get L (Comm c) m n p q) \<noteq> Crash \<and> snd (MPI_Graphdims_get L (Comm c) p q) \<noteq> Crash \<and>
      snd (MPI_Graph_map L (Comm c) n p q o') \<noteq> Crash)"
  using coords_no_crash [OF _ assms(1,2)] rank_no_crash [OF _ assms(1,2)] grid_queries_no_crash [OF _ assms(1,2)]
    graph_queries_no_crash [OF _ assms] by (intro conjI impI) simp_all

theorem topology_queries_safe_witness:
  "snd (MPI_Cart_coords demo_lib (Comm demo_grid) 9 2 7) \<noteq> Crash \<and> snd (MPI_Cart_rank demo_lib (Comm demo_grid) (Some [1, - 4]) 7) \<noteq> Crash"
proof -
  have "usable_comm demo_grid" "9 \<noteq> ompi_comm_size demo_grid" by (simp_all add: usable_comm_def demo_grid_def ompi_comm_size_def)
  from topology_queries_safe [OF demo_checked this, of demo_cart 2 7 _ _ _ _ "[1, - 4]"] demo_grid_wf(1)
  show ?thesis by (simp add: demo_cart_def)
qed

definition bad_neighbors :: "int \<Rightarrow> int list \<Rightarrow> int list \<Rightarrow> bool" where
  "bad_neighbors n xs ws \<longleftrightarrow> (\<exists>x \<in> set xs. x < 0 \<and> x \<noteq> MPI_PROC_NULL \<or> x \<ge> n) \<or> (\<exists>w \<in> set ws. w < 0)"

lemma neighbors_valid_iff: "length ws = length xs \<Longrightarrow> neighbors_valid n (length xs) xs (Some ws) = Ok (\<not> bad_neighbors n xs ws)"
  by (induction xs ws rule: list_induct2') (auto simp: bad_neighbors_def)



end
