(* ===== verification/DimsCreate.thy ===== *)
theory DimsCreate
  imports TopoBase "HOL-Library.Multiset"
begin

text \<open>
  \<open>MPI_Dims_create\<close> of \<^verbatim>\<open>src/ompi/mpi/c/dims_create.c\<close>: the factorization of the number of free processes, the
  assignment of the factors to the free dimensions and their sorting. An array of factors that overflows and a loop that
  does not end are \<open>None\<close>. The floating-point expressions \<^verbatim>\<open>ceil(sqrt(num))\<close> and \<^verbatim>\<open>ceil(log(num) / log(2))\<close> are
  their exact values, which the rounding of a \<^verbatim>\<open>double\<close> does not change for an \<^verbatim>\<open>int\<close>.
\<close>

section \<open>Factors\<close>

text \<open>The least \<open>r\<close> with \<open>num \<le> r * r\<close>, and the least \<open>k\<close> with \<open>num \<le> 2 ^ k\<close>.\<close>

function sqrt_up :: "int \<Rightarrow> int \<Rightarrow> int" where
  "sqrt_up num r = (if num \<le> r * r \<or> num \<le> r then r else sqrt_up num (r + 1))"
  by auto
termination by (relation "measure (\<lambda>(num, r). nat (num - r))") auto

function log2_up :: "int \<Rightarrow> nat \<Rightarrow> nat" where
  "log2_up num k = (if num \<le> 2 ^ k then k else log2_up num (Suc k))"
  by auto
termination
proof (relation "measure (\<lambda>(num, k). nat (num - int k))")
  fix num :: int and k :: nat
  assume "\<not> num \<le> 2 ^ k"
  moreover have "int k < 2 ^ k" using of_nat_less_two_power by blast
  ultimately have "int k < num" by linarith
  then show "((num, Suc k), num, k) \<in> measure (\<lambda>(num, k). nat (num - int k))" by simp
qed simp

declare sqrt_up.simps [simp del] log2_up.simps [simp del]

text \<open>\<^verbatim>\<open>(*factors)[i++] = d\<close> in an array of \<open>cap\<close> elements, and the loop \<^verbatim>\<open>while ((num % d) == 0)\<close>.\<close>

definition push :: "nat \<Rightarrow> int list \<Rightarrow> int \<Rightarrow> int list option" where
  "push cap fs d = (if length fs < cap then Some (fs @ [d]) else None)"

partial_function (option) divide_out :: "nat \<Rightarrow> int \<Rightarrow> int \<Rightarrow> int list \<Rightarrow> (int \<times> int list) option" where
  "divide_out cap d num fs =
     (if c_mod num d = 0
      then (case push cap fs d of None \<Rightarrow> None | Some fs' \<Rightarrow> divide_out cap d (c_div num d) fs')
      else Some (num, fs))"

function odd_factors :: "nat \<Rightarrow> int \<Rightarrow> int \<Rightarrow> int \<Rightarrow> int list \<Rightarrow> (int \<times> int list) option" where
  "odd_factors cap sqrtnum d num fs =
     (if num > 1 \<and> d \<le> sqrtnum
      then (case divide_out cap d num fs of None \<Rightarrow> None | Some (num', fs') \<Rightarrow> odd_factors cap sqrtnum (d + 2) num' fs')
      else Some (num, fs))"
  by auto
termination by (relation "measure (\<lambda>(cap, sqrtnum, d, num, fs). nat (sqrtnum + 1 - d))") auto

declare odd_factors.simps [simp del]

definition getfactors :: "int \<Rightarrow> int list option" where
  "getfactors num =
     (if num < 2 then Some []
      else let sqrtnum = sqrt_up num 0; cap = log2_up num 0 in
        (case divide_out cap 2 num [] of None \<Rightarrow> None
         | Some (num1, fs1) \<Rightarrow> (case odd_factors cap sqrtnum 3 num1 fs1 of None \<Rightarrow> None
           | Some (num2, fs2) \<Rightarrow> if num2 \<noteq> 1 then push cap fs2 num2 else Some fs2)))"

section \<open>Assignment\<close>

text \<open>The first smallest bin: \<^verbatim>\<open>pmin\<close> starts at 0 and \<open>i\<close> runs over the rest.\<close>

fun min_bin :: "int list \<Rightarrow> nat \<Rightarrow> nat list \<Rightarrow> nat" where
  "min_bin bins pmin [] = pmin"
| "min_bin bins pmin (i # is) = min_bin bins (if bins ! i < bins ! pmin then i else pmin) is"

definition assign_factor :: "int \<Rightarrow> int list \<Rightarrow> int list" where
  "assign_factor f bins = (let pmin = min_bin bins 0 [1..<length bins] in bins[pmin := bins ! pmin * f])"

text \<open>The exchange sort: \<open>order_at i\<close> is the inner loop over \<open>j > i\<close>.\<close>

definition exchange :: "nat \<Rightarrow> nat \<Rightarrow> int list \<Rightarrow> int list" where
  "exchange i j bins = (if bins ! j > bins ! i then bins[j := bins ! i, i := bins ! j] else bins)"

definition order_at :: "nat \<Rightarrow> int list \<Rightarrow> int list" where
  "order_at i bins = foldl (\<lambda>b j. exchange i j b) bins [Suc i..<length bins]"

definition sort_bins :: "int list \<Rightarrow> int list" where
  "sort_bins bins = foldl (\<lambda>b i. order_at i b) bins [0..<length bins - 1]"

definition assignnodes :: "int \<Rightarrow> int list \<Rightarrow> int list option" where
  "assignnodes ndim pfacts =
     (if 0 \<ge> ndim then None else Some (sort_bins (foldr assign_factor pfacts (replicate (nat ndim) 1))))"

section \<open>The binding\<close>

text \<open>The first loop: the free processes and the free dimensions, or an error.\<close>

fun count_free :: "int \<Rightarrow> int list \<Rightarrow> int \<Rightarrow> int \<Rightarrow> (int \<times> int) option" where
  "count_free nnodes [] freeprocs freedims = Some (freeprocs, freedims)"
| "count_free nnodes (p # ps) freeprocs freedims =
     (if p = 0 then count_free nnodes ps freeprocs (freedims + 1)
      else if p < 0 \<or> c_mod nnodes p \<noteq> 0 then None
      else count_free nnodes ps (c_div freeprocs p) freedims)"

text \<open>The last loop: the zero entries take the values in their order.\<close>

fun fill_in :: "int list \<Rightarrow> int list \<Rightarrow> int list" where
  "fill_in [] ps = []"
| "fill_in (d # ds) ps = (if d = 0 then (case ps of [] \<Rightarrow> d # fill_in ds [] | q # qs \<Rightarrow> q # fill_in ds qs) else d # fill_in ds ps)"

definition MPI_Dims_create :: "mpi_lib \<Rightarrow> int \<Rightarrow> int \<Rightarrow> int list option \<Rightarrow> int list answer" where
  "MPI_Dims_create L nnodes ndims dims =
     (let world = Comm_Object MPI_COMM_WORLD;
          rest = (case if 0 < ndims then dims else Some [] of None \<Rightarrow> ([], Crash)
            | Some ds \<Rightarrow> if int (length ds) < ndims then ([], Crash)
              else let ds = take (nat ndims) ds in
                (case count_free nnodes ds nnodes 0 of None \<Rightarrow> report world MPI_ERR_DIMS
                 | Some (freeprocs, freedims) \<Rightarrow>
                     if freedims = 0 then (if freeprocs = 1 then ([], Value ds) else report No_Object MPI_ERR_DIMS)
                     else if freeprocs = 1 then ([], Value (fill_in ds (replicate (length ds) 1)))
                     else (case getfactors freeprocs of None \<Rightarrow> ([], Crash)
                       | Some factors \<Rightarrow> (case assignnodes freedims factors of None \<Rightarrow> report No_Object MPI_ERR_DIMS
                         | Some procs \<Rightarrow> ([], Value (fill_in ds procs)))))) in
      if param_check L then init_finalize L
        (if 0 > ndims then report world MPI_ERR_DIMS
         else if 0 \<noteq> ndims \<and> dims = None then report world MPI_ERR_ARG
         else if 1 > nnodes then report world MPI_ERR_DIMS
         else rest)
      else rest)"

section \<open>Correctness of the factorization\<close>

lemma sqrt_up_square: "0 \<le> r \<Longrightarrow> num \<le> sqrt_up num r * sqrt_up num r \<and> r \<le> sqrt_up num r"
proof (induction num r rule: sqrt_up.induct)
  case (1 num r)
  show ?case
  proof (cases "num \<le> r * r \<or> num \<le> r")
    case True
    moreover have "r \<le> r * r" using 1(2) by (cases "r = 0") (auto intro: self_le_power)
    ultimately show ?thesis by (auto simp: sqrt_up.simps)
  next
    case False
    then show ?thesis using 1 by (subst (1 2 3) sqrt_up.simps) auto
  qed
qed

lemma log2_up_power: "num \<le> 2 ^ log2_up num k"
  by (induction num k rule: log2_up.induct) (subst log2_up.simps, auto)

text \<open>A factor and a prime factor.\<close>

definition no_factor_below :: "int \<Rightarrow> int \<Rightarrow> bool" where
  "no_factor_below d num \<longleftrightarrow> (\<forall>e. 2 \<le> e \<and> e < d \<longrightarrow> \<not> e dvd num)"

definition prime_number :: "int \<Rightarrow> bool" where
  "prime_number p \<longleftrightarrow> 2 \<le> p \<and> no_factor_below p p"

lemma no_factor_below_dvd: "no_factor_below d num \<Longrightarrow> e dvd num \<Longrightarrow> no_factor_below d e"
  by (auto simp: no_factor_below_def dest: dvd_trans)

text \<open>The state of the loops: the factors so far are primes below the candidate \<open>d\<close>, in increasing order, and with the rest
  they make up the number.\<close>

definition factoring :: "int \<Rightarrow> int \<Rightarrow> int \<Rightarrow> int list \<Rightarrow> bool" where
  "factoring whole d num fs \<longleftrightarrow> 1 \<le> num \<and> prod_list fs * num = whole \<and> (\<forall>f \<in> set fs. prime_number f \<and> f \<le> d) \<and> sorted fs"

lemma two_power_factors: "\<forall>f \<in> set fs. 2 \<le> f \<Longrightarrow> 2 ^ length fs \<le> prod_list (fs :: int list)"
proof (induction fs)
  case (Cons f fs)
  have "(2 :: int) * 2 ^ length fs \<le> f * prod_list fs" using Cons by (intro mult_mono) auto
  then show ?case by simp
qed simp

lemma room_for_factor:
  assumes "factoring whole d num fs" "2 \<le> num" "whole \<le> 2 ^ cap"
  shows "length fs < cap"
proof -
  have two: "\<forall>f \<in> set fs. 2 \<le> f" using assms(1) by (auto simp: factoring_def prime_number_def)
  then have "positive fs" by (meson less_le_trans zero_less_numeral)
  with two have "(2 :: int) ^ length fs * 2 \<le> prod_list fs * num"
    using two_power_factors assms(2) less_imp_le [OF prod_list_pos [of fs]] by (intro mult_mono) auto
  then have "(2 :: int) ^ (length fs + 1) \<le> 2 ^ cap" using assms by (simp add: factoring_def)
  then have "length fs + 1 \<le> cap" by (simp only: power_increasing_iff)
  then show ?thesis by simp
qed

lemma divide_out_correct:
  assumes "factoring whole d num fs" "2 \<le> d" "no_factor_below d num" "whole \<le> 2 ^ cap"
  shows "\<exists>num' fs'. divide_out cap d num fs = Some (num', fs') \<and> factoring whole d num' fs' \<and> no_factor_below (d + 1) num' \<and> num' dvd num"
  using assms
proof (induction "nat num" arbitrary: num fs rule: less_induct)
  case less
  have n: "1 \<le> num" using less.prems(1) by (simp add: factoring_def)
  show ?case
  proof (cases "num mod d = 0")
    case False
    then have "\<not> d dvd num" by (simp add: dvd_eq_mod_eq_0)
    moreover have "e < d \<or> e = d" if "e < d + 1" for e using that by linarith
    then have "no_factor_below (d + 1) num" using less.prems(3) calculation by (auto simp: no_factor_below_def)
    moreover have "divide_out cap d num fs = Some (num, fs)"
      using False n less.prems(2) by (subst divide_out.simps) simp
    ultimately show ?thesis using less.prems(1) by auto
  next
    case True
    then have dvd: "d dvd num" by (simp add: dvd_eq_mod_eq_0)
    then have dn: "d \<le> num" "num div d * d = num" using n by (auto dest: zdvd_imp_le)
    have prime: "prime_number d" using less.prems(2,3) no_factor_below_dvd dvd by (auto simp: prime_number_def)
    have room: "length fs < cap" using room_for_factor [OF less.prems(1) _ less.prems(4)] less.prems(2) dn by simp
    let ?num = "num div d"
    have pos: "1 \<le> ?num" using dn(1) less.prems(2) pos_imp_zdiv_pos_iff [of d num] by linarith
    have "factoring whole d ?num (fs @ [d])"
      using less.prems(1) prime pos dn by (auto simp: factoring_def sorted_append mult.commute mult.left_commute)
    moreover have "no_factor_below d ?num" using less.prems(3) no_factor_below_dvd dn(2) by (metis dvd_triv_left)
    moreover have "nat ?num < nat num" using n less.prems(2) by (simp add: int_div_less_self)
    moreover have "divide_out cap d num fs = divide_out cap d ?num (fs @ [d])"
      using True n less.prems(2) room by (subst divide_out.simps) (simp add: push_def)
    moreover have "?num dvd num" using dn(2) by (metis dvd_triv_left)
    ultimately show ?thesis using less.hyps less.prems(2,4) by (metis dvd_trans)
  qed
qed

lemma odd_factors_correct:
  assumes "factoring whole (d - 1) num fs" "no_factor_below d num" "odd d" "3 \<le> d" "whole \<le> 2 ^ cap"
  shows "\<exists>num' fs' d'. odd_factors cap q d num fs = Some (num', fs') \<and> factoring whole (d' - 1) num' fs' \<and>
    no_factor_below d' num' \<and> (num' = 1 \<or> q < d')"
  using assms
proof (induction "nat (q + 1 - d)" arbitrary: d num fs rule: less_induct)
  case less
  show ?case
  proof (cases "num > 1 \<and> d \<le> q")
    case False
    moreover have "1 \<le> num" using less.prems(1) by (simp add: factoring_def)
    ultimately have "num = 1 \<or> q < d" by linarith
    then show ?thesis using less.prems(1,2) False by (subst odd_factors.simps) auto
  next
    case True
    have "factoring whole d num fs" using less.prems(1) by (fastforce simp: factoring_def)
    from divide_out_correct [OF this _ less.prems(2,5)] less.prems(4) obtain num' fs' where
      o: "divide_out cap d num fs = Some (num', fs')" "factoring whole d num' fs'" "no_factor_below (d + 1) num'" by auto
    have "\<not> (d + 1) dvd num'"
    proof
      assume "(d + 1) dvd num'"
      moreover have "2 dvd d + 1" using less.prems(3) by simp
      ultimately have "2 dvd num'" using dvd_trans by blast
      then show False using o(3) less.prems(4) by (auto simp: no_factor_below_def)
    qed
    have n: "no_factor_below (d + 2) num'"
    proof -
      have "e < d + 1 \<or> e = d + 1" if "e < d + 2" for e using that by linarith
      then show ?thesis using o(3) \<open>\<not> (d + 1) dvd num'\<close> by (auto simp: no_factor_below_def)
    qed
    have f: "factoring whole (d + 2 - 1) num' fs'" using o(2) by (fastforce simp: factoring_def)
    have "nat (q + 1 - (d + 2)) < nat (q + 1 - d)" using True by simp
    from less.hyps [OF this f n] less.prems(3-5) True o(1) show ?thesis by (subst odd_factors.simps) simp
  qed
qed

lemma rest_is_prime:
  assumes "no_factor_below d num" "2 \<le> num" "q < d" "num \<le> q * q" "0 \<le> q"
  shows "prime_number num" "d \<le> num"
proof -
  show "d \<le> num" using assms(1,2) by (force simp: no_factor_below_def)
  have "\<not> e dvd num" if e: "2 \<le> e" "e < num" for e
  proof
    assume "e dvd num"
    then obtain k where k: "num = e * k" by blast
    have "0 < e * k" using k assms(2) by simp
    then have "0 < k" using e zero_less_mult_pos [of e k] by simp
    moreover have "k \<noteq> 1" using k e by auto
    ultimately have "2 \<le> k" by simp
    then have "d \<le> e" "d \<le> k" using assms(1) e k by (force simp: no_factor_below_def)+
    then have "(q + 1) * (q + 1) \<le> e * k" using assms(3,5) by (intro mult_mono) auto
    then show False using k assms(4,5) by (simp add: algebra_simps)
  qed
  then show "prime_number num" using assms(2) by (simp add: prime_number_def no_factor_below_def)
qed

lemma getfactors_correct:
  assumes "2 \<le> num"
  shows "\<exists>fs. getfactors num = Some fs \<and> prod_list fs = num \<and> (\<forall>f \<in> set fs. prime_number f) \<and> sorted fs"
proof -
  let ?q = "sqrt_up num 0" and ?cap = "log2_up num 0"
  have cap: "num \<le> 2 ^ ?cap" by (rule log2_up_power)
  have q: "num \<le> ?q * ?q" "0 \<le> ?q" using sqrt_up_square [of 0 num] by simp_all
  have "factoring num 2 num []" "no_factor_below 2 num" using assms by (auto simp: factoring_def no_factor_below_def)
  from divide_out_correct [OF this(1) _ this(2) cap] obtain num1 fs1 where
    d1: "divide_out ?cap 2 num [] = Some (num1, fs1)" "factoring num 2 num1 fs1" "no_factor_below 3 num1" by auto
  from d1(2) have "factoring num (3 - 1) num1 fs1" by simp
  from odd_factors_correct [OF this d1(3) _ _ cap, of ?q] obtain num2 fs2 d where
    d2: "odd_factors ?cap ?q 3 num1 fs1 = Some (num2, fs2)" "factoring num (d - 1) num2 fs2" "no_factor_below d num2" "num2 = 1 \<or> ?q < d"
    by auto
  show ?thesis
  proof (cases "num2 = 1")
    case True
    then show ?thesis using assms d1 d2 by (simp add: getfactors_def Let_def factoring_def)
  next
    case False
    have f: "1 \<le> num2" "prod_list fs2 * num2 = num" "\<forall>f \<in> set fs2. prime_number f \<and> f \<le> d - 1" "sorted fs2"
      using d2(2) by (simp_all add: factoring_def)
    have two: "2 \<le> num2" using f(1) False by simp
    have "positive fs2" using f(3) by (auto simp: prime_number_def)
    then have "1 \<le> prod_list fs2" using prod_list_pos [of fs2] by linarith
    then have "num2 \<le> num" using f(1,2) mult_right_mono [of 1 "prod_list fs2" num2] by simp
    then have "num2 \<le> ?q * ?q" using q by linarith
    note p = rest_is_prime [OF d2(3) two _ this q(2)]
    have "length fs2 < ?cap" using room_for_factor [OF d2(2) two cap] .
    then show ?thesis using assms d1 d2 False p f by (fastforce simp: getfactors_def Let_def push_def sorted_append)
  qed
qed

section \<open>Correctness of the assignment\<close>

lemma min_bin_less: "pmin < n \<Longrightarrow> set is \<subseteq> {..<n} \<Longrightarrow> min_bin bins pmin is < n"
  by (induction "is" arbitrary: pmin) auto

lemma prod_list_scale: "i < length bins \<Longrightarrow> prod_list (bins[i := bins ! i * f]) = f * prod_list (bins :: int list)"
proof (induction bins arbitrary: i)
  case (Cons b bins)
  then show ?case by (cases i) (auto simp: algebra_simps)
qed simp

lemma assign_factor_correct:
  assumes "bins \<noteq> []" "positive bins" "0 < f"
  shows "length (assign_factor f bins) = length bins" "prod_list (assign_factor f bins) = f * prod_list bins" "positive (assign_factor f bins)"
proof -
  let ?i = "min_bin bins 0 [1..<length bins]"
  have i: "?i < length bins" using assms(1) by (intro min_bin_less) auto
  show "length (assign_factor f bins) = length bins" by (simp add: assign_factor_def Let_def)
  show "prod_list (assign_factor f bins) = f * prod_list bins" using prod_list_scale [OF i] by (simp add: assign_factor_def Let_def)
  have "0 < bins ! ?i * f" using assms i by simp
  then show "positive (assign_factor f bins)"
    using assms(2) by (auto simp: assign_factor_def Let_def dest!: set_update_subset_insert [THEN subsetD])
qed

lemma assign_factors_correct:
  assumes "0 < k" "positive fs"
  shows "length (foldr assign_factor fs (replicate k 1)) = k \<and> prod_list (foldr assign_factor fs (replicate k 1)) = prod_list fs \<and>
    positive (foldr assign_factor fs (replicate k 1))"
  using assms(2)
proof (induction fs)
  case Nil
  have "prod_list (replicate k (1 :: int)) = 1" by (induction k) auto
  then show ?case by simp
next
  case (Cons f fs)
  let ?b = "foldr assign_factor fs (replicate k 1)"
  have fs: "positive fs" "0 < f" using Cons.prems by simp_all
  from Cons.IH [OF fs(1)] have IH: "length ?b = k" "prod_list ?b = prod_list fs" "positive ?b" by simp_all
  have ne: "?b \<noteq> []" using IH(1) assms(1) by (metis length_0_conv less_irrefl)
  show ?case using assign_factor_correct [OF ne IH(3) fs(2)] IH(1,2) by (simp only: foldr.simps o_apply prod_list.Cons simp_thms)
qed

text \<open>The inner loop moves a largest element of the rest to position \<open>i\<close>.\<close>

lemma exchange_mset: "i < length b \<Longrightarrow> j < length b \<Longrightarrow> mset (exchange i j b) = mset b \<and> length (exchange i j b) = length b"
  by (simp add: exchange_def mset_swap)

lemma exchange_nth:
  assumes "i < length b" "j < length b" "i < j"
  shows "exchange i j b ! i = max (b ! i) (b ! j)" "exchange i j b ! j = min (b ! i) (b ! j)"
    "k \<noteq> i \<Longrightarrow> k \<noteq> j \<Longrightarrow> exchange i j b ! k = b ! k" "take i (exchange i j b) = take i b"
  using assms by (simp_all add: exchange_def max_def min_def)

lemma order_prefix:
  assumes "i < length b" "k \<le> length b"
  defines "c \<equiv> foldl (\<lambda>b j. exchange i j b) b [Suc i..<k]"
  shows "mset c = mset b \<and> length c = length b \<and> take i c = take i b \<and> (\<forall>j. i < j \<and> j < k \<longrightarrow> c ! j \<le> c ! i)"
  unfolding c_def using assms(2)
proof (induction k)
  case (Suc k)
  let ?c = "foldl (\<lambda>b j. exchange i j b) b [Suc i..<k]"
  have IH: "mset ?c = mset b" "length ?c = length b" "take i ?c = take i b" "\<forall>j. i < j \<and> j < k \<longrightarrow> ?c ! j \<le> ?c ! i"
    using Suc by auto
  show ?case
  proof (cases "i < k")
    case True
    have b: "i < length ?c" "k < length ?c" using assms(1) Suc.prems IH(2) by simp_all
    note x = exchange_nth [OF b True]
    have le: "exchange i k ?c ! j \<le> exchange i k ?c ! i" if "i < j" "j < Suc k" for j
    proof (cases "j = k")
      case False
      then have "?c ! j \<le> ?c ! i" using IH(4) that by simp
      then show ?thesis using x(1) x(3) [of j] that False by simp
    qed (simp add: x)
    have e: "foldl (\<lambda>b j. exchange i j b) b [Suc i..<Suc k] = exchange i k ?c" using True by simp
    have "mset (exchange i k ?c) = mset b" "length (exchange i k ?c) = length b" "take i (exchange i k ?c) = take i b"
      using IH(1-3) exchange_mset [OF b] x(4) by metis+
    then show ?thesis unfolding e using le by blast
  next
    case False
    then have "[Suc i..<Suc k] = []" by simp
    then show ?thesis using False by simp
  qed
qed simp

lemma order_at_correct:
  assumes "i < length b"
  shows "mset (order_at i b) = mset b" "length (order_at i b) = length b" "take i (order_at i b) = take i b"
    "set (drop i (order_at i b)) = set (drop i b)" "\<forall>j. i < j \<and> j < length b \<longrightarrow> order_at i b ! j \<le> order_at i b ! i"
proof -
  let ?c = "order_at i b"
  show *: "mset ?c = mset b" "length ?c = length b" "take i ?c = take i b" "\<forall>j. i < j \<and> j < length b \<longrightarrow> ?c ! j \<le> ?c ! i"
    unfolding order_at_def using order_prefix [OF assms order_refl] by blast+
  have "mset (take i ?c) + mset (drop i ?c) = mset (take i b) + mset (drop i b)"
    using *(1) by (metis append_take_drop_id mset_append)
  then have "mset (drop i ?c) = mset (drop i b)" using *(3) by simp
  then show "set (drop i ?c) = set (drop i b)" by (metis set_mset_mset)
qed

lemma nth_in_drop: "k \<le> j \<Longrightarrow> j < length l \<Longrightarrow> l ! j \<in> set (drop k l)"
  by (auto simp: in_set_conv_nth intro!: exI [of _ "j - k"])

lemma in_drop_nth: "x \<in> set (drop k l) \<Longrightarrow> \<exists>j. k \<le> j \<and> j < length l \<and> x = l ! j"
proof -
  assume "x \<in> set (drop k l)"
  then obtain i where "i < length l - k" "x = l ! (k + i)" by (auto simp: in_set_conv_nth)
  then show ?thesis by (intro exI [of _ "k + i"]) auto
qed

lemma sort_prefix:
  assumes "k \<le> length bins - 1"
  defines "c \<equiv> foldl (\<lambda>b i. order_at i b) bins [0..<k]"
  shows "mset c = mset bins \<and> length c = length bins \<and> (\<forall>i < k. \<forall>j. i < j \<and> j < length bins \<longrightarrow> c ! j \<le> c ! i)"
  unfolding c_def using assms(1)
proof (induction k)
  case (Suc k)
  let ?c = "foldl (\<lambda>b i. order_at i b) bins [0..<k]"
  have IH: "mset ?c = mset bins" "length ?c = length bins" "\<forall>i < k. \<forall>j. i < j \<and> j < length bins \<longrightarrow> ?c ! j \<le> ?c ! i"
    using Suc by auto
  have k: "k < length ?c" using Suc.prems IH(2) by simp
  note o = order_at_correct [OF k]
  have le: "order_at k ?c ! j \<le> order_at k ?c ! i" if "i < Suc k" "i < j" "j < length bins" for i j
  proof (cases "i = k")
    case True
    then show ?thesis using o(5) that IH(2) by simp
  next
    case False
    then have i: "i < k" using that by simp
    have oi: "order_at k ?c ! i = ?c ! i" using o(3) i by (metis nth_take)
    show ?thesis
    proof (cases "j < k")
      case True
      then have "order_at k ?c ! j = ?c ! j" using o(3) by (metis nth_take)
      then show ?thesis using oi IH(3) i that by simp
    next
      case False
      then have "order_at k ?c ! j \<in> set (drop k (order_at k ?c))" 
        using nth_in_drop [of k j "order_at k ?c"] that(3) o(2) IH(2) by simp
      then have "order_at k ?c ! j \<in> set (drop k ?c)" using o(4) by simp
      then obtain j' where "k \<le> j'" "j' < length bins" "order_at k ?c ! j = ?c ! j'"
        using IH(2) in_drop_nth by metis
      then show ?thesis using oi IH(3) i by auto
    qed
  qed
  have e: "foldl (\<lambda>b i. order_at i b) bins [0..<Suc k] = order_at k ?c" by simp
  have "mset (order_at k ?c) = mset bins" "length (order_at k ?c) = length bins" using o(1,2) IH(1,2) by metis+
  then show ?case unfolding e using le by blast
qed simp

lemma sort_bins_correct: "mset (sort_bins bins) = mset bins" "sorted (rev (sort_bins bins))"
proof -
  let ?c = "sort_bins bins"
  have c: "mset ?c = mset bins" "length ?c = length bins" "\<forall>i < length bins - 1. \<forall>j. i < j \<and> j < length bins \<longrightarrow> ?c ! j \<le> ?c ! i"
    unfolding sort_bins_def using sort_prefix [OF order_refl] by blast+
  show "mset ?c = mset bins" by (rule c(1))
  have "?c ! j \<le> ?c ! i" if "i \<le> j" "j < length ?c" for i j
    using c(2,3) that by (cases "i = j") auto
  then show "sorted (rev ?c)" by (auto simp: sorted_rev_iff_nth_mono)
qed

lemma assignnodes_correct:
  assumes "0 < k" "positive fs"
  shows "\<exists>bs. assignnodes (int k) fs = Some bs \<and> length bs = k \<and> prod_list bs = prod_list fs \<and> positive bs \<and> sorted (rev bs)"
proof -
  define b where "b = foldr assign_factor fs (replicate k 1)"
  have b: "length b = k" "prod_list b = prod_list fs" "positive b"
    unfolding b_def using assign_factors_correct [OF assms] by blast+
  have m: "mset (sort_bins b) = mset b" by (rule sort_bins_correct)
  have "length (sort_bins b) = k" using b(1) m by (metis size_mset)
  moreover have "positive (sort_bins b)" using b(3) m by (metis set_mset_mset)
  moreover have "prod_list (sort_bins b) = prod_list fs" using b(2) m by (metis prod_mset_prod_list)
  moreover have "assignnodes (int k) fs = Some (sort_bins b)" using assms(1) by (simp add: assignnodes_def b_def)
  ultimately show ?thesis using sort_bins_correct(2) by blast
qed

section \<open>Properties\<close>

text \<open>The product of the given dimensions and the number of the free ones.\<close>

definition given :: "int list \<Rightarrow> int" where
  "given ds = prod_list (filter (\<lambda>d. d \<noteq> 0) ds)"

definition free_dims :: "int list \<Rightarrow> nat" where
  "free_dims ds = length (filter (\<lambda>d. d = 0) ds)"

lemma given_simps [simp]: "given [] = 1" "given (d # ds) = (if d = 0 then given ds else d * given ds)"
  by (simp_all add: given_def)

lemma free_dims_simps [simp]: "free_dims [] = 0" "free_dims (d # ds) = (if d = 0 then Suc (free_dims ds) else free_dims ds)"
  by (simp_all add: free_dims_def)

lemma given_pos: "\<forall>d \<in> set ds. 0 \<le> d \<Longrightarrow> 0 < given ds"
  by (induction ds) (auto simp: less_le)

lemma count_free_correct:
  "\<forall>d \<in> set ds. 0 \<le> d \<and> (d \<noteq> 0 \<longrightarrow> d dvd nnodes) \<Longrightarrow> 1 \<le> nnodes \<Longrightarrow> 0 \<le> fp \<Longrightarrow>
     count_free nnodes ds fp fd = Some (fp div given ds, fd + int (free_dims ds))"
proof (induction ds arbitrary: fp fd)
  case (Cons d ds)
  have g: "0 < given ds" using given_pos Cons.prems(1) by simp
  show ?case
  proof (cases "d = 0")
    case False
    then have d: "0 < d" "d dvd nnodes" using Cons.prems by auto
    then have "c_mod nnodes d = 0" using Cons.prems(2) by simp
    note d = d(1) this
    have fp: "0 \<le> fp div d" using d(1) Cons.prems(3) by (simp add: pos_imp_zdiv_nonneg_iff)
    have "count_free nnodes (d # ds) fp fd = count_free nnodes ds (fp div d) fd" using d Cons.prems(3) by simp
    also have "\<dots> = Some (fp div d div given ds, fd + int (free_dims ds))" using Cons.IH [OF _ Cons.prems(2) fp] Cons.prems(1) by simp
    also have "fp div d div given ds = fp div given (d # ds)" using g False zdiv_zmult2_eq [of "given ds" fp d] by simp
    finally show ?thesis using False by simp
  next
    case True
    then show ?thesis using Cons.IH [OF _ Cons.prems(2,3), of "fd + 1"] Cons.prems(1) by simp
  qed
qed simp

lemma count_free_error: "d \<in> set ds \<Longrightarrow> d < 0 \<or> d \<noteq> 0 \<and> \<not> d dvd nnodes \<and> 0 < d \<Longrightarrow> 1 \<le> nnodes \<Longrightarrow> count_free nnodes ds fp fd = None"
  by (induction ds arbitrary: fp fd) auto

text \<open>The entries that were filled in.\<close>

definition chosen :: "int list \<Rightarrow> int list \<Rightarrow> int list" where
  "chosen ds ds' = map snd (filter (\<lambda>(d, d'). d = 0) (zip ds ds'))"

definition completes :: "int list \<Rightarrow> int list \<Rightarrow> bool" where
  "completes ds ds' \<longleftrightarrow> length ds' = length ds \<and> (\<forall>i < length ds. ds ! i \<noteq> 0 \<longrightarrow> ds' ! i = ds ! i)"

lemma fill_in_length: "length (fill_in ds ps) = length ds"
  by (induction ds ps rule: fill_in.induct) (auto split: list.splits)

lemma fill_in_nth: "i < length ds \<Longrightarrow> ds ! i \<noteq> 0 \<Longrightarrow> fill_in ds ps ! i = ds ! i"
proof (induction ds arbitrary: ps i)
  case (Cons d ds)
  then show ?case by (cases i; cases ps) auto
qed simp

lemma fill_in_product: "free_dims ds \<le> length ps \<Longrightarrow> prod_list (fill_in ds ps) = given ds * prod_list (take (free_dims ds) ps)"
proof (induction ds arbitrary: ps)
  case (Cons d ds)
  then show ?case by (cases ps) (auto simp: algebra_simps)
qed simp

lemma fill_in_chosen: "free_dims ds \<le> length ps \<Longrightarrow> chosen ds (fill_in ds ps) = take (free_dims ds) ps"
proof (induction ds arbitrary: ps)
  case (Cons d ds)
  show ?case
  proof (cases "d = 0")
    case True
    then obtain q qs where ps: "ps = q # qs" using Cons.prems by (cases ps) auto
    have "chosen ds (fill_in ds qs) = take (free_dims ds) qs" by (rule Cons.IH) (use Cons.prems True ps in simp)
    then show ?thesis using True ps by (simp add: chosen_def)
  next
    case False
    have "chosen ds (fill_in ds ps) = take (free_dims ds) ps" by (rule Cons.IH) (use Cons.prems False in simp)
    then show ?thesis using False by (simp add: chosen_def)
  qed
qed (simp add: chosen_def)

lemma fill_in_positive:
  "\<forall>d \<in> set ds. 0 \<le> d \<Longrightarrow> positive ps \<Longrightarrow> free_dims ds \<le> length ps \<Longrightarrow> positive (fill_in ds ps)"
proof (induction ds arbitrary: ps)
  case (Cons d ds)
  show ?case
  proof (cases "d = 0")
    case True
    then obtain q qs where ps: "ps = q # qs" using Cons.prems(3) by (cases ps) auto
    have "positive (fill_in ds qs)"
      by (rule Cons.IH) (use Cons.prems True ps in \<open>simp_all\<close>)
    then show ?thesis using Cons.prems(2) True ps by simp
  next
    case False
    have "positive (fill_in ds ps)"
      by (rule Cons.IH) (use Cons.prems False in \<open>simp_all\<close>)
    moreover have "0 < d" using Cons.prems(1) False by simp
    ultimately show ?thesis using False by simp
  qed
qed simp

text \<open>What the free dimensions get when \<open>fp\<close> processes are left for them.\<close>

lemma shares:
  assumes "0 < k" "0 \<le> fp"
  shows "\<exists>ps. (fp = 1 \<longrightarrow> ps = replicate n 1) \<and>
    (fp \<noteq> 1 \<longrightarrow> (\<exists>fs. getfactors fp = Some fs \<and> assignnodes (int k) fs = Some ps)) \<and>
    (k \<le> n \<longrightarrow> k \<le> length ps \<and> positive ps \<and> sorted (rev (take k ps)) \<and> prod_list (take k ps) = max 1 fp)"
proof (cases "fp = 1")
  case True
  have one: "prod_list (replicate m (1 :: int)) = 1" for m by (induction m) auto
  have "k \<le> n \<longrightarrow> k \<le> length (replicate n (1 :: int)) \<and> positive (replicate n 1) \<and>
      sorted (rev (take k (replicate n (1 :: int)))) \<and> prod_list (take k (replicate n (1 :: int))) = max 1 fp"
    using True by (simp add: one)
  then show ?thesis using True by blast
next
  case False
  have "\<exists>fs. getfactors fp = Some fs \<and> prod_list fs = max 1 fp \<and> positive fs"
  proof (cases "fp < 2")
    case True
    then show ?thesis using False assms(2) by (simp add: getfactors_def)
  next
    case False
    then show ?thesis using getfactors_correct [of fp] by (force simp: prime_number_def)
  qed
  then obtain fs where fs: "getfactors fp = Some fs" "prod_list fs = max 1 fp" "positive fs" by (elim exE conjE) rule
  from assignnodes_correct [OF assms(1) fs(3)] obtain bs where
    bs: "assignnodes (int k) fs = Some bs" "length bs = k" "prod_list bs = prod_list fs" "positive bs" "sorted (rev bs)" by blast
  have "k \<le> length bs \<and> positive bs \<and> sorted (rev (take k bs)) \<and> prod_list (take k bs) = max 1 fp"
    using bs(2-5) fs(2) by (intro conjI) simp_all
  then show ?thesis using False fs(1) bs(1) by blast
qed

lemma dims_create_cases:
  assumes "ompi_instance_count L \<noteq> 0" "1 \<le> nnodes"
  shows "MPI_Dims_create L nnodes (int (length ds)) (Some ds) = (case count_free nnodes ds nnodes 0 of
      None \<Rightarrow> report (Comm_Object MPI_COMM_WORLD) MPI_ERR_DIMS
    | Some (freeprocs, freedims) \<Rightarrow>
        if freedims = 0 then (if freeprocs = 1 then ([], Value ds) else report No_Object MPI_ERR_DIMS)
        else if freeprocs = 1 then ([], Value (fill_in ds (replicate (length ds) 1)))
        else (case getfactors freeprocs of None \<Rightarrow> ([], Crash)
          | Some factors \<Rightarrow> (case assignnodes freedims factors of None \<Rightarrow> report No_Object MPI_ERR_DIMS
            | Some procs \<Rightarrow> ([], Value (fill_in ds procs)))))"
proof -
  have "(if 0 < int (length ds) then Some ds else Some []) = Some ds" by simp
  then show ?thesis using assms by (simp add: MPI_Dims_create_def init_finalize_def Let_def del: count_free.simps)
qed

lemma dims_create_value:
  assumes "ompi_instance_count L \<noteq> 0" "1 \<le> nnodes" "\<forall>d \<in> set ds. 0 \<le> d \<and> (d \<noteq> 0 \<longrightarrow> d dvd nnodes)" "0 < free_dims ds"
  shows "\<exists>ds'. MPI_Dims_create L nnodes (int (length ds)) (Some ds) = ([], Value ds') \<and> completes ds ds' \<and> positive ds' \<and>
    sorted (rev (chosen ds ds')) \<and> prod_list ds' = given ds * max 1 (nnodes div given ds)"
proof -
  let ?fp = "nnodes div given ds" and ?k = "free_dims ds"
  have g: "0 < given ds" using given_pos assms(3) by blast
  then have fp: "0 \<le> ?fp" using assms(2) by (simp add: pos_imp_zdiv_nonneg_iff)
  have k: "?k \<le> length ds" by (simp add: free_dims_def)
  obtain ps where ps: "?fp = 1 \<Longrightarrow> ps = replicate (length ds) 1" "?fp \<noteq> 1 \<Longrightarrow> \<exists>fs. getfactors ?fp = Some fs \<and> assignnodes (int ?k) fs = Some ps"
    "?k \<le> length ps" "positive ps" "sorted (rev (take ?k ps))" "prod_list (take ?k ps) = max 1 ?fp"
    using shares [OF assms(4) fp, of "length ds"] k by blast
  have f: "MPI_Dims_create L nnodes (int (length ds)) (Some ds) = ([], Value (fill_in ds ps))"
  proof -
    have c: "count_free nnodes ds nnodes 0 = Some (?fp, int ?k)" using count_free_correct [OF assms(3,2), of nnodes 0] assms(2) by simp
    show ?thesis
    proof (cases "?fp = 1")
      case True
      then show ?thesis using dims_create_cases [OF assms(1,2), of ds] c assms(4) ps(1) by simp
    next
      case False
      then obtain fs where "getfactors ?fp = Some fs" "assignnodes (int ?k) fs = Some ps" using ps(2) by blast
      then show ?thesis using dims_create_cases [OF assms(1,2), of ds] c assms(4) False by simp
    qed
  qed
  have fc: "completes ds (fill_in ds ps)" by (simp add: completes_def fill_in_length fill_in_nth)
  have f1: "positive (fill_in ds ps)" using fill_in_positive [OF _ ps(4,3)] assms(3) by blast
  have f2: "sorted (rev (chosen ds (fill_in ds ps)))" using fill_in_chosen [OF ps(3)] ps(5) by metis
  have f3: "prod_list (fill_in ds ps) = given ds * max 1 ?fp" using fill_in_product [OF ps(3)] ps(6) by metis
  show ?thesis by (intro exI [of _ "fill_in ds ps"] conjI f fc f1 f2 f3)
qed

text \<open>C33: \<open>MPI_Dims_create\<close> with dimensions that are zero (free) or divide the number of nodes. If their product divides the
  number of nodes too, the call fills every free dimension with a positive number so that the product of all dimensions is
  the number of nodes, the given dimensions stay, and the chosen ones do not increase. No array of factors overflows, and
  all loops end. A negative dimension, or one that does not divide the number of nodes, is reported.\<close>

theorem dims_create_fills_grid:
  assumes "ompi_instance_count L \<noteq> 0" "1 \<le> nnodes"
  shows "((\<forall>d \<in> set ds. 0 \<le> d) \<and> given ds dvd nnodes \<and> 0 < free_dims ds \<longrightarrow>
      (\<exists>ds'. MPI_Dims_create L nnodes (int (length ds)) (Some ds) = ([], Value ds') \<and> completes ds ds' \<and> positive ds' \<and>
        prod_list ds' = nnodes \<and> sorted (rev (chosen ds ds')))) \<and>
    ((\<forall>d \<in> set ds. 0 < d) \<and> prod_list ds = nnodes \<longrightarrow>
      MPI_Dims_create L nnodes (int (length ds)) (Some ds) = ([], Value ds)) \<and>
    ((\<exists>d \<in> set ds. d < 0 \<or> 0 < d \<and> \<not> d dvd nnodes) \<longrightarrow>
      MPI_Dims_create L nnodes (int (length ds)) (Some ds) = report (Comm_Object MPI_COMM_WORLD) MPI_ERR_DIMS)"
proof (intro conjI impI)
  assume a: "(\<forall>d \<in> set ds. 0 \<le> d) \<and> given ds dvd nnodes \<and> 0 < free_dims ds"
  have dvd: "d \<noteq> 0 \<Longrightarrow> d \<in> set ds \<Longrightarrow> d dvd given ds" for d by (induction ds) auto
  then have "\<forall>d \<in> set ds. 0 \<le> d \<and> (d \<noteq> 0 \<longrightarrow> d dvd nnodes)" using a dvd_trans by blast
  from dims_create_value [OF assms this] a have
    "\<exists>ds'. MPI_Dims_create L nnodes (int (length ds)) (Some ds) = ([], Value ds') \<and> completes ds ds' \<and> positive ds' \<and>
      sorted (rev (chosen ds ds')) \<and> prod_list ds' = given ds * max 1 (nnodes div given ds)" by (simp only: simp_thms)
  then obtain ds' where
    v: "MPI_Dims_create L nnodes (int (length ds)) (Some ds) = ([], Value ds')" "completes ds ds'" "positive ds'"
      "sorted (rev (chosen ds ds'))" "prod_list ds' = given ds * max 1 (nnodes div given ds)" by (elim exE conjE) rule
  have "given ds \<le> nnodes" "0 < given ds" using a assms(2) given_pos zdvd_imp_le [of "given ds" nnodes] by auto
  then have "max 1 (nnodes div given ds) = nnodes div given ds" using pos_imp_zdiv_pos_iff [of "given ds" nnodes] by linarith
  then have "prod_list ds' = nnodes" using v(5) a by simp
  then show "\<exists>ds'. MPI_Dims_create L nnodes (int (length ds)) (Some ds) = ([], Value ds') \<and> completes ds ds' \<and> positive ds' \<and>
      prod_list ds' = nnodes \<and> sorted (rev (chosen ds ds'))" using v by blast
next
  assume a: "(\<forall>d \<in> set ds. 0 < d) \<and> prod_list ds = nnodes"
  have "d \<in> set ds \<Longrightarrow> d dvd prod_list ds" for d by (induction ds) auto
  then have d: "\<forall>d \<in> set ds. 0 \<le> d \<and> (d \<noteq> 0 \<longrightarrow> d dvd nnodes)" using a by force
  have "filter (\<lambda>d. d \<noteq> 0) ds = ds" "filter (\<lambda>d. d = 0) ds = []" using a by (auto simp: filter_id_conv filter_empty_conv)
  then have "given ds = nnodes" "free_dims ds = 0" using a by (simp_all add: given_def free_dims_def)
  then show "MPI_Dims_create L nnodes (int (length ds)) (Some ds) = ([], Value ds)"
    using count_free_correct [OF d assms(2), of nnodes 0] dims_create_cases [OF assms, of ds] assms(2) by simp
next
  assume "\<exists>d \<in> set ds. d < 0 \<or> 0 < d \<and> \<not> d dvd nnodes"
  then obtain d where d: "d \<in> set ds" "d < 0 \<or> d \<noteq> 0 \<and> \<not> d dvd nnodes \<and> 0 < d" by auto
  then have "0 < length ds" by auto
  then show "MPI_Dims_create L nnodes (int (length ds)) (Some ds) = report (Comm_Object MPI_COMM_WORLD) MPI_ERR_DIMS"
    using count_free_error [OF d assms(2), of nnodes 0] dims_create_cases [OF assms, of ds] assms(2) by simp
qed

theorem dims_create_fills_grid_witness:
  "\<exists>ds'. MPI_Dims_create demo_lib 12 3 (Some [0, 2, 0]) = ([], Value ds') \<and> prod_list ds' = 12"
proof -
  have "ompi_instance_count demo_lib \<noteq> 0" by (simp add: demo_lib_def)
  from dims_create_fills_grid [OF this, of 12 "[0, 2, 0]"] show ?thesis by auto
qed

text \<open>Dimensions that each divide the number of nodes, but whose product does not, are accepted: the free dimensions are
  filled, the call returns without an error, and the product of the dimensions is not the number of nodes.\<close>

theorem dims_create_accepts_non_divisor:
  assumes "ompi_instance_count L \<noteq> 0" "1 \<le> nnodes" "\<forall>d \<in> set ds. 0 \<le> d \<and> (d \<noteq> 0 \<longrightarrow> d dvd nnodes)"
    and "0 < free_dims ds" "\<not> given ds dvd nnodes"
  shows "\<exists>ds'. MPI_Dims_create L nnodes (int (length ds)) (Some ds) = ([], Value ds') \<and> completes ds ds' \<and> positive ds' \<and>
    prod_list ds' \<noteq> nnodes"
  using dims_create_value [OF assms(1-4)] assms(5) by (metis dvd_triv_left)

theorem dims_create_accepts_non_divisor_witness:
  "\<exists>ds'. MPI_Dims_create demo_lib 2 3 (Some [2, 2, 0]) = ([], Value ds') \<and> prod_list ds' \<noteq> 2"
proof -
  have "ompi_instance_count demo_lib \<noteq> 0" by (simp add: demo_lib_def)
  from dims_create_accepts_non_divisor [OF this, of 2 "[2, 2, 0]"] show ?thesis by auto
qed

end
