(* ===== verification/CollTree.thy ===== *)
theory CollTree
  imports TopoBase "HOL-Library.While_Combinator" "HOL-Library.Word"
begin

unbundle bit_operations_syntax

text \<open>
  The communication trees of the collective operations, \<^verbatim>\<open>src/ompi/mca/coll/base/coll_base_topo.c\<close>. Every process builds
  its own view of a tree: the process before it and the processes after it. A loop that does not end is \<open>None\<close> of
  \<open>while_option\<close>. Ranks and distances are unbounded integers here: the functions are used on communicators whose size, times
  the fanout, is in the range of \<^verbatim>\<open>int\<close>.
\<close>

section \<open>Trees\<close>

text \<open>
  \<^verbatim>\<open>ompi_coll_tree_t\<close>, with the first \<^verbatim>\<open>tree_nextsize\<close> elements of \<^verbatim>\<open>tree_next\<close>. A field that a function leaves
  uninitialised is \<open>None\<close>.
\<close>

record coll_tree =
  tree_root :: int
  tree_fanout :: "int option"
  tree_bmtree :: "int option"
  tree_prev :: "int option"
  tree_next :: "int list"

definition tree_nextsize :: "coll_tree \<Rightarrow> int" where
  "tree_nextsize t = int (length (tree_next t))"

definition MAXTREEFANOUT :: nat where "MAXTREEFANOUT = 32"

text \<open>A function returns a tree or \<^verbatim>\<open>NULL\<close>; a loop without end and a store behind the array are undefined behaviour.\<close>

type_synonym built = "coll_tree option c_result"

definition ends :: "'a option \<Rightarrow> ('a \<Rightarrow> 'b c_result) \<Rightarrow> 'b c_result" where
  "ends x f = (case x of None \<Rightarrow> UB | Some y \<Rightarrow> f y)"

section \<open>The tree of a fixed fanout\<close>

definition pown :: "int \<Rightarrow> int \<Rightarrow> int" where
  "pown fanout num =
     (if num < 0 then 0 else if 1 = num then fanout
      else if 2 = fanout then push_bit (nat num) 1
      else ((\<lambda>p. p * fanout) ^^ nat num) 1)"

definition calculate_level :: "int \<Rightarrow> int \<Rightarrow> int option" where
  "calculate_level fanout rank =
     (if rank < 0 then Some (- 1)
      else map_option (\<lambda>(level, num). level - 1)
        (while_option (\<lambda>(level, num). num \<le> rank) (\<lambda>(level, num). (level + 1, num + pown fanout level)) (0, 0)))"

definition calculate_num_nodes_up_to_level :: "int \<Rightarrow> int \<Rightarrow> int" where
  "calculate_num_nodes_up_to_level fanout level =
     (if 1 = fanout then level else c_div (pown fanout level - 1) (fanout - 1))"

text \<open>The children up to the first one outside of the communicator.\<close>

fun fanout_children :: "int \<Rightarrow> int \<Rightarrow> int \<Rightarrow> int \<Rightarrow> nat list \<Rightarrow> int list" where
  "fanout_children commsize rt shiftedrank delta [] = []"
| "fanout_children commsize rt shiftedrank delta (i # is) =
     (let schild = shiftedrank + delta * (int i + 1) in
      if schild < commsize then c_mod (schild + rt) commsize # fanout_children commsize rt shiftedrank delta is else [])"

definition ompi_coll_base_topo_build_tree :: "int \<Rightarrow> communicator \<Rightarrow> int \<Rightarrow> built" where
  "ompi_coll_base_topo_build_tree fanout comm rt =
     (if fanout < 1 \<or> fanout > int MAXTREEFANOUT then Ok None
      else let commsize = ompi_comm_size comm; rank = ompi_comm_rank comm;
               tree = \<lparr>tree_root = rt, tree_fanout = Some fanout, tree_bmtree = Some 0, tree_prev = Some (- 1), tree_next = []\<rparr> in
        if commsize < 2 then Ok (Some tree)
        else let shiftedrank = (if rank - rt < 0 then rank - rt + commsize else rank - rt) in
          ends (calculate_level fanout shiftedrank) (\<lambda>level.
            let delta = pown fanout level; slimit = calculate_num_nodes_up_to_level fanout level in
            ends (if shiftedrank < fanout then Some 0
                  else while_option (\<lambda>sparent. sparent \<ge> slimit) (\<lambda>sparent. sparent - c_div delta fanout) shiftedrank)
              (\<lambda>sparent. Ok (Some (tree\<lparr>tree_next := fanout_children commsize rt shiftedrank delta [0..<nat fanout],
                 tree_prev := Some (c_mod (sparent + rt) commsize)\<rparr>)))))"

section \<open>The in-order binary tree\<close>

text \<open>The state of the loop: \<^verbatim>\<open>(size, myrank, parent, delta, tree_prev)\<close>; its children for a size and a parent.\<close>

definition in_order_lchild :: "int \<Rightarrow> int \<Rightarrow> int" where
  "in_order_lchild commsize parent = (if commsize - 1 > 0 then parent - 1 else - 1)"

definition in_order_rchild :: "int \<Rightarrow> int \<Rightarrow> int" where
  "in_order_rchild commsize parent =
     (if commsize - 1 > 0 then if in_order_lchild commsize parent > 0 then drop_bit 1 commsize - 1 else - 1 else - 1)"

fun in_order_step :: "int \<times> int \<times> int \<times> int \<times> int \<Rightarrow> int \<times> int \<times> int \<times> int \<times> int" where
  "in_order_step (commsize, myrank, parent, delta, prev) =
     (let rightsize = drop_bit 1 commsize; lchild = in_order_lchild commsize parent; rchild = in_order_rchild commsize parent in
      if myrank > rchild
      then (commsize - rightsize - 1, myrank - rightsize, commsize - rightsize - 1 - 1, delta + rightsize,
            if myrank = lchild then parent + delta else prev)
      else (rightsize, myrank, rchild, delta, if myrank = rchild then parent + delta else prev))"

definition ompi_coll_base_topo_build_in_order_bintree :: "communicator \<Rightarrow> built" where
  "ompi_coll_base_topo_build_in_order_bintree comm =
     (let commsize = ompi_comm_size comm; rank = ompi_comm_rank comm in
      ends (while_option (\<lambda>(commsize, myrank, parent, delta, prev). myrank \<noteq> parent) in_order_step (commsize, rank, commsize - 1, 0, - 1))
        (\<lambda>(size', myrank, parent, delta, prev).
          let next0 = (if in_order_lchild size' parent \<ge> 0 then in_order_lchild size' parent + delta else - 1);
              next1 = (if in_order_rchild size' parent \<ge> 0 then in_order_rchild size' parent + delta else - 1);
              nextsize = (if next0 \<ge> 0 then 1 else 0) + (if next1 \<ge> 0 then 1 else 0) in
          Ok (Some \<lparr>tree_root = commsize - 1, tree_fanout = Some 2, tree_bmtree = Some 0, tree_prev = Some prev,
            tree_next = take nextsize [next0, next1]\<rparr>)))"

section \<open>Binomial trees\<close>

text \<open>\<^verbatim>\<open>opal_next_poweroftwo\<close>, the variant with a loop.\<close>

definition opal_next_poweroftwo :: "int \<Rightarrow> int option" where
  "opal_next_poweroftwo value =
     map_option snd (while_option (\<lambda>(v, power2). v > 0) (\<lambda>(v, power2). (drop_bit 1 v, push_bit 1 power2)) (value, 1))"

text \<open>The loop over the children; \<open>room\<close> elements of the array are left, and \<open>None\<close> is the return of \<^verbatim>\<open>NULL\<close>.\<close>

fun bm_children :: "int \<Rightarrow> int \<Rightarrow> int \<Rightarrow> nat \<Rightarrow> int \<Rightarrow> int list option" where
  "bm_children commsize rt index room msk =
     (if msk < commsize
      then let remote = index XOR msk in
        if remote \<ge> commsize then Some []
        else let remote = remote + rt; remote = (if remote \<ge> commsize then remote - commsize else remote) in
          (case room of 0 \<Rightarrow> None | Suc room' \<Rightarrow> map_option (\<lambda>cs. remote # cs) (bm_children commsize rt index room' (push_bit 1 msk)))
      else Some [])"

definition ompi_coll_base_topo_build_bmtree :: "communicator \<Rightarrow> int \<Rightarrow> built" where
  "ompi_coll_base_topo_build_bmtree comm rt =
     (let commsize = ompi_comm_size comm; rank = ompi_comm_rank comm;
          index = (if rank - rt < 0 then rank - rt + commsize else rank - rt) in
      ends (opal_next_poweroftwo index) (\<lambda>msk.
        let remote = (index XOR drop_bit 1 msk) + rt; remote = (if remote \<ge> commsize then remote - commsize else remote);
            prev = (if rt = rank then rt else remote) in
        Ok (map_option (\<lambda>cs. \<lparr>tree_root = rt, tree_fanout = None, tree_bmtree = Some 1, tree_prev = Some prev, tree_next = cs\<rparr>)
          (bm_children commsize rt index MAXTREEFANOUT msk))))"

text \<open>The loop of the in-order binomial tree returns the children and the parent, or \<open>None\<close> for \<^verbatim>\<open>NULL\<close>.\<close>

partial_function (option) in_order_bm_loop ::
  "int \<Rightarrow> int \<Rightarrow> int \<Rightarrow> int \<Rightarrow> int list \<Rightarrow> int option \<Rightarrow> (int list \<times> int option) option option" where
  "in_order_bm_loop commsize rt vrank msk childs prev =
     (if msk < commsize
      then let remote = vrank XOR msk in
        if remote < vrank then Some (Some (childs, Some (c_mod (remote + rt) commsize)))
        else if remote < commsize
        then let childs = childs @ [c_mod (remote + rt) commsize] in
          if length childs = MAXTREEFANOUT then Some None
          else in_order_bm_loop commsize rt vrank (push_bit 1 msk) childs prev
        else in_order_bm_loop commsize rt vrank (push_bit 1 msk) childs prev
      else Some (Some (childs, prev)))"

definition ompi_coll_base_topo_build_in_order_bmtree :: "communicator \<Rightarrow> int \<Rightarrow> built" where
  "ompi_coll_base_topo_build_in_order_bmtree comm rt =
     (let commsize = ompi_comm_size comm; rank = ompi_comm_rank comm in
      if commsize = 0 then UB
      else ends (in_order_bm_loop commsize rt (c_mod (rank - rt + commsize) commsize) 1 [] (if rt = rank then Some rt else None))
        (\<lambda>res. Ok (map_option (\<lambda>(cs, prev). \<lparr>tree_root = rt, tree_fanout = None, tree_bmtree = Some 1, tree_prev = prev, tree_next = cs\<rparr>) res)))"

section \<open>The k-nomial tree\<close>

text \<open>The number of powers of the radix below the size, the search for the parent, and the children for the powers below the
  place where it stopped.\<close>

definition log_radix :: "int \<Rightarrow> int \<Rightarrow> int option" where
  "log_radix radix commsize = map_option snd (while_option (\<lambda>(i, n). i < commsize) (\<lambda>(i, n). (i * radix, n + 1)) (1, 0))"

definition km_search :: "int \<Rightarrow> int \<Rightarrow> int \<Rightarrow> int option" where
  "km_search radix commsize vrank =
     while_option (\<lambda>msk. msk < commsize \<and> c_mod vrank (radix * msk) = 0) (\<lambda>msk. msk * radix) 1"

definition km_children :: "int \<Rightarrow> int \<Rightarrow> int \<Rightarrow> int \<Rightarrow> int \<Rightarrow> int list option" where
  "km_children radix commsize rt vrank msk =
     map_option snd (while_option (\<lambda>(msk, cs). msk > 0)
       (\<lambda>(msk, cs). (c_div msk radix,
          cs @ map (\<lambda>r. c_mod (vrank + msk * int r + rt) commsize) (filter (\<lambda>r. vrank + msk * int r < commsize) [1..<nat radix])))
       (msk, []))"

definition ompi_coll_base_topo_build_kmtree :: "communicator \<Rightarrow> int \<Rightarrow> int \<Rightarrow> built" where
  "ompi_coll_base_topo_build_kmtree comm rt radix =
     (let comm_size = ompi_comm_size comm; rank = ompi_comm_rank comm in
      ends (log_radix radix comm_size) (\<lambda>logr.
        let nchilds_max = (radix - 1) * logr in
        if comm_size = 0 then UB
        else let vrank = c_mod (rank - rt + comm_size) comm_size in
          if radix = 0 then UB
          else ends (km_search radix comm_size vrank) (\<lambda>msk.
            let prev = (if msk < comm_size
                  then c_mod (c_div vrank (radix * msk) * (radix * msk) + rt) comm_size else MPI_PROC_NULL) in
            ends (km_children radix comm_size rt vrank (c_div msk radix)) (\<lambda>cs.
              if int (length cs) > nchilds_max then UB
              else Ok (Some \<lparr>tree_root = rt, tree_fanout = None, tree_bmtree = Some 0, tree_prev = Some prev, tree_next = cs\<rparr>)))))"

section \<open>Chains\<close>

text \<open>The heads of the chains at the root.\<close>

fun chain_heads :: "int \<Rightarrow> int \<Rightarrow> int \<Rightarrow> int \<Rightarrow> nat list \<Rightarrow> int list" where
  "chain_heads commsize maxchainlen mark h [] = []"
| "chain_heads commsize maxchainlen mark h (i # is) =
     (let x = h + maxchainlen; x = (if int i > mark then x - 1 else x); x = c_mod x commsize in
      x # chain_heads commsize maxchainlen mark x is)"

definition ompi_coll_base_topo_build_chain :: "int \<Rightarrow> communicator \<Rightarrow> int \<Rightarrow> built" where
  "ompi_coll_base_topo_build_chain fanout comm rt =
     (let commsize = ompi_comm_size comm; rank = ompi_comm_rank comm;
          fanout = (if fanout < 1 then 1 else fanout);
          fanout = (if fanout > int MAXTREEFANOUT then int MAXTREEFANOUT else fanout);
          fanout = (if commsize - 1 < fanout then commsize - 1 else fanout);
          srank = (if rank - rt < 0 then rank - rt + commsize else rank - rt);
          chain = (\<lambda>prev nxt. Ok (Some \<lparr>tree_root = rt, tree_fanout = None, tree_bmtree = None, tree_prev = Some prev, tree_next = nxt\<rparr>)) in
      if fanout = 1
      then chain (if srank = 0 then - 1 else c_mod (srank - 1 + rt) commsize) (if srank + 1 \<ge> commsize then [] else [c_mod (srank + 1 + rt) commsize])
      else if commsize = 1 then chain (- 1) []
      else if fanout = 0 then UB
      else let exact = c_mod (commsize - 1) fanout = 0;
               maxchainlen = (if exact then c_div (commsize - 1) fanout else c_div (commsize - 1) fanout + 1);
               mark = (if exact then fanout + 1 else c_mod (commsize - 1) fanout) in
        if srank \<noteq> 0
        then let full = srank - 1 < mark * maxchainlen in
          if full \<and> maxchainlen = 0 \<or> \<not> full \<and> maxchainlen = 1 then UB
          else let column = (if full then c_div (srank - 1) maxchainlen
                     else mark + c_div (srank - 1 - mark * maxchainlen) (maxchainlen - 1));
                   head = (if full then 1 + column * maxchainlen else mark * maxchainlen + 1 + (column - mark) * (maxchainlen - 1));
                   len = (if full then maxchainlen else maxchainlen - 1) in
            chain (c_mod ((if srank = head then 0 else srank - 1) + rt) commsize)
              (if srank = head + len - 1 \<or> \<not> srank + 1 < commsize then [] else [c_mod (srank + 1 + rt) commsize])
        else let x = c_mod (rt + 1) commsize in chain (- 1) (x # chain_heads commsize maxchainlen mark x [1..<nat fanout]))"

section \<open>Rank trees\<close>

text \<open>
  What the collective operations rely on: the views of all processes fit together. Every process but the root is in the list
  of its parent, and every element of a list has the owner of the list as its parent. \<open>depth\<close> bounds the number of messages
  on the way from the root.
\<close>

locale rank_tree =
  fixes n rt :: nat and prev :: "nat \<Rightarrow> nat" and nxt :: "nat \<Rightarrow> nat list" and depth :: "nat \<Rightarrow> nat"
  assumes root_in: "rt < n"
    and parent: "r < n \<Longrightarrow> r \<noteq> rt \<Longrightarrow> prev r < n \<and> r \<in> set (nxt (prev r)) \<and> depth (prev r) < depth r"
    and child: "r < n \<Longrightarrow> c \<in> set (nxt r) \<Longrightarrow> c < n \<and> c \<noteq> rt \<and> prev c = r"
    and once: "r < n \<Longrightarrow> distinct (nxt r)"

text \<open>A broadcast in rounds: a process that has the data passes it to all processes of its list.\<close>

primrec reached :: "(nat \<Rightarrow> nat list) \<Rightarrow> nat \<Rightarrow> nat \<Rightarrow> nat set" where
  "reached nxt rt 0 = {rt}"
| "reached nxt rt (Suc k) = reached nxt rt k \<union> (\<Union>p \<in> reached nxt rt k. set (nxt p))"

lemma reached_grows: "k \<le> m \<Longrightarrow> reached nxt rt k \<subseteq> reached nxt rt m"
  by (induction m) (auto simp: le_Suc_eq)

context rank_tree
begin

lemma reached_in: "reached nxt rt k \<subseteq> {..<n}"
  using root_in child by (induction k) auto

lemma reached_by_depth: "r < n \<Longrightarrow> r \<in> reached nxt rt (depth r)"
proof (induction "depth r" arbitrary: r rule: less_induct)
  case less
  show ?case
  proof (cases "r = rt")
    case True
    then show ?thesis using reached_grows [of 0 "depth r" nxt rt] by auto
  next
    case False
    note p = parent [OF less.prems False]
    have "prev r \<in> reached nxt rt (depth (prev r))" using less.hyps p by blast
    then have "r \<in> reached nxt rt (Suc (depth (prev r)))" using p by auto
    moreover have "Suc (depth (prev r)) \<le> depth r" using p by simp
    ultimately show ?thesis using reached_grows by blast
  qed
qed

lemma all_reached:
  assumes "\<And>r. r < n \<Longrightarrow> depth r \<le> k"
  shows "reached nxt rt k = {..<n}"
proof
  show "{..<n} \<subseteq> reached nxt rt k"
    using reached_by_depth reached_grows [OF assms] by blast
qed (rule reached_in)

lemma messages_distinct: "m \<le> n \<Longrightarrow> distinct (concat (map nxt [0..<m]))"
proof (induction m)
  case (Suc m)
  have "c \<notin> set (nxt p)" if "p < m" "c \<in> set (nxt m)" for p c
    using that child [of m c] child [of p c] Suc.prems by auto
  then show ?case using Suc once [of m] by auto
qed simp

lemma messages_all: "set (concat (map nxt [0..<n])) = {..<n} - {rt}"
proof -
  have a: "\<exists>r < n. c \<in> set (nxt r)" if "c < n" "c \<noteq> rt" for c using parent [OF that] by blast
  have b: "c < n \<and> c \<noteq> rt" if "r < n" "c \<in> set (nxt r)" for r c using child [OF that] by simp
  have e: "set (concat (map nxt [0..<n])) = (\<Union>r \<in> {..<n}. set (nxt r))" by auto
  show ?thesis
  proof
    show "set (concat (map nxt [0..<n])) \<subseteq> {..<n} - {rt}" unfolding e using b by force
    show "{..<n} - {rt} \<subseteq> set (concat (map nxt [0..<n]))"
    proof
      fix c assume "c \<in> {..<n} - {rt}"
      then obtain r where "r < n" "c \<in> set (nxt r)" using a [of c] by auto
      then show "c \<in> set (concat (map nxt [0..<n]))" unfolding e by blast
    qed
  qed
qed

lemma rotate:
  assumes "rt = 0" "k < n"
  shows "rank_tree n k (\<lambda>r. (prev ((r + n - k) mod n) + k) mod n) (\<lambda>r. map (\<lambda>c. (c + k) mod n) (nxt ((r + n - k) mod n)))
    (\<lambda>r. depth ((r + n - k) mod n))"
proof -
  define sh where "sh r = (r + n - k) mod n" for r
  define un where "un s = (s + k) mod n" for s
  have n: "0 < n" using assms by simp
  have in_range: "sh r < n" "un r < n" for r using n by (simp_all add: sh_def un_def)
  have sh_un: "sh (un s) = s" if "s < n" for s
    using that assms by (cases "s + k < n") (auto simp: sh_def un_def mod_if not_less)
  have un_sh: "un (sh r) = r" if "r < n" for r
    using that assms by (cases "r < k") (auto simp: sh_def un_def mod_if)
  have sh_k: "sh r = 0 \<longleftrightarrow> r = k" if "r < n" for r
    using un_sh [OF that] assms(2) by (auto simp: sh_def un_def)
  have inj: "inj_on un {..<n}" using sh_un by (intro inj_onI) (metis lessThan_iff)
  have "rank_tree n k (\<lambda>r. un (prev (sh r))) (\<lambda>r. map un (nxt (sh r))) (\<lambda>r. depth (sh r))"
  proof
    show "k < n" by (rule assms)
    show "un (prev (sh r)) < n \<and> r \<in> set (map un (nxt (sh (un (prev (sh r)))))) \<and> depth (sh (un (prev (sh r)))) < depth (sh r)"
      if "r < n" "r \<noteq> k" for r
    proof -
      have "prev (sh r) < n \<and> sh r \<in> set (nxt (prev (sh r))) \<and> depth (prev (sh r)) < depth (sh r)"
        using parent [OF in_range(1) [of r]] sh_k [OF that(1)] that(2) assms(1) by blast
      then show ?thesis using sh_un in_range un_sh [OF that(1)] by (auto intro: rev_image_eqI)
    qed
    show "c < n \<and> c \<noteq> k \<and> un (prev (sh c)) = r" if r: "r < n" "c \<in> set (map un (nxt (sh r)))" for r c
    proof -
      obtain c' where c': "c = un c'" "c' \<in> set (nxt (sh r))" using r(2) by auto
      have "c' < n \<and> c' \<noteq> 0 \<and> prev c' = sh r" using child [OF in_range(1) c'(2)] assms(1) by simp
      then show ?thesis using c' sh_un [of c'] un_sh [OF r(1)] in_range sh_k [of c] by auto
    qed
    show "distinct (map un (nxt (sh r)))" if "r < n" for r
    proof -
      have "set (nxt (sh r)) \<subseteq> {..<n}" using child [OF in_range(1)] by auto
      then show ?thesis using once [OF in_range(1)] inj inj_on_subset by (auto simp: distinct_map)
    qed
  qed
  then show ?thesis by (simp add: sh_def un_def [abs_def])
qed

end

text \<open>The trees that all processes build span the communicator: the lists contain every process but the root exactly once,
  each with the owner as its parent, and the data has reached everybody after \<open>k\<close> rounds.\<close>

definition spans :: "nat \<Rightarrow> nat \<Rightarrow> nat \<Rightarrow> (nat \<Rightarrow> coll_tree) \<Rightarrow> bool" where
  "spans n rt k t \<longleftrightarrow>
     (\<forall>r < n. tree_root (t r) = int rt) \<and>
     distinct (concat (map (\<lambda>r. tree_next (t r)) [0..<n])) \<and>
     set (concat (map (\<lambda>r. tree_next (t r)) [0..<n])) = int ` ({..<n} - {rt}) \<and>
     (\<forall>r < n. \<forall>c \<in> set (tree_next (t r)). tree_prev (t (nat c)) = Some (int r)) \<and>
     reached (\<lambda>r. map nat (tree_next (t r))) rt k = {..<n}"

lemma reached_cong: "(\<And>r. r < n \<Longrightarrow> f r = g r) \<Longrightarrow> reached g rt k \<subseteq> {..<n} \<Longrightarrow> reached f rt k = reached g rt k"
proof (induction k)
  case (Suc k)
  then have e: "reached f rt k = reached g rt k" by auto
  have "reached g rt k \<subseteq> {..<n}" using Suc.prems by auto
  then have "(\<Union>p \<in> reached g rt k. set (f p)) = (\<Union>p \<in> reached g rt k. set (g p))"
    using Suc.prems(1) by (intro SUP_cong refl arg_cong [of _ _ set]) blast
  then show ?case using e by simp
qed simp

lemma spans_of_rank_tree:
  assumes "rank_tree n rt prev nxt depth" and "\<And>r. r < n \<Longrightarrow> depth r \<le> k"
    and t: "\<And>r. r < n \<Longrightarrow> tree_root (t r) = int rt \<and> tree_next (t r) = map int (nxt r)"
    and p: "\<And>r. r < n \<Longrightarrow> r \<noteq> rt \<Longrightarrow> tree_prev (t r) = Some (int (prev r))"
  shows "spans n rt k t"
proof -
  have c: "concat (map (\<lambda>r. tree_next (t r)) [0..<n]) = map int (concat (map nxt [0..<n]))"
  proof -
    have "map (\<lambda>r. tree_next (t r)) [0..<n] = map (\<lambda>r. map int (nxt r)) [0..<n]" using t by simp
    then show ?thesis unfolding map_concat map_map o_def by (rule arg_cong)
  qed
  have "inj_on int A" for A by (simp add: inj_on_def)
  then have "distinct (concat (map (\<lambda>r. tree_next (t r)) [0..<n]))"
    "set (concat (map (\<lambda>r. tree_next (t r)) [0..<n])) = int ` ({..<n} - {rt})"
    unfolding c using rank_tree.messages_distinct [OF assms(1) order_refl] rank_tree.messages_all [OF assms(1)]
    by (simp_all add: distinct_map)
  moreover have "tree_prev (t (nat c)) = Some (int r)" if r: "r < n" "c \<in> set (tree_next (t r))" for r c
  proof -
    obtain c' where c': "c = int c'" "c' \<in> set (nxt r)" using t [OF r(1)] r(2) by auto
    then show ?thesis using rank_tree.child [OF assms(1) r(1) c'(2)] p [of c'] by simp
  qed
  moreover have "reached (\<lambda>r. map nat (tree_next (t r))) rt k = reached nxt rt k"
    using t rank_tree.reached_in [OF assms(1)] by (intro reached_cong [of n]) (simp_all add: o_def)
  ultimately show ?thesis using rank_tree.all_reached [OF assms(1,2)] t by (simp add: spans_def)
qed

end
