(* ===== verification/TreeViews.thy ===== *)
theory TreeViews
  imports CollTree
begin

text \<open>
  The trees that all processes of a communicator build together. \<open>builds_tree B comm rt k\<close> says that the builder \<open>B\<close> returns a
  tree at every rank, that these trees fit together to one tree with the root \<open>rt\<close>, and that what the root has reaches
  every process after \<open>k\<close> rounds. The builders compute with ranks shifted by the root; \<open>rotated_tree\<close> carries a tree on the
  shifted ranks over to the ranks.
\<close>

unbundle bit_operations_syntax

section \<open>Views of all processes\<close>

definition at_rank :: "communicator \<Rightarrow> nat \<Rightarrow> communicator" where
  "at_rank comm r = comm\<lparr>c_my_rank := int r\<rparr>"

lemma at_rank_simps [simp]:
  "ompi_comm_rank (at_rank comm r) = int r" "ompi_comm_size (at_rank comm r) = ompi_comm_size comm"
  by (simp_all add: at_rank_def ompi_comm_rank_def ompi_comm_size_def)

text \<open>All processes build a tree, and these trees span the communicator.\<close>

definition builds_tree :: "(communicator \<Rightarrow> built) \<Rightarrow> communicator \<Rightarrow> nat \<Rightarrow> nat \<Rightarrow> bool" where
  "builds_tree B comm rt k \<longleftrightarrow>
     (\<exists>t. (\<forall>r < nat (ompi_comm_size comm). B (at_rank comm r) = Ok (Some (t r))) \<and> spans (nat (ompi_comm_size comm)) rt k t)"

lemma shift_rank:
  assumes "r < n" "rt < n"
  shows "(if int r - int rt < 0 then int r - int rt + int n else int r - int rt) = int ((r + n - rt) mod n)"
    "c_mod (int r - int rt + int n) (int n) = int ((r + n - rt) mod n)"
proof -
  have "r + n - rt = (if r < rt then r + n - rt else (r - rt) + n)" using assms by auto
  then have e: "(r + n - rt) mod n = (if r < rt then r + n - rt else r - rt)" using assms by (auto simp: mod_if)
  then show "(if int r - int rt < 0 then int r - int rt + int n else int r - int rt) = int ((r + n - rt) mod n)"
    using assms by (auto simp: of_nat_diff)
  have "int r - int rt + int n = int (r + n - rt)" using assms by simp
  then show "c_mod (int r - int rt + int n) (int n) = int ((r + n - rt) mod n)" by (simp add: zmod_int)
qed

lemma shift_zero: "(r :: nat) < n \<Longrightarrow> rt < n \<Longrightarrow> (r + n - rt) mod n = 0 \<longleftrightarrow> r = rt"
  using shift_rank(1) [of r n rt] by (auto split: if_splits)

lemma unshift [simp]: "c_mod (int s + int rt) (int n) = int ((s + rt) mod n)"
  by (simp add: zmod_int flip: of_nat_add)

lemma rotated_tree:
  assumes "rank_tree n 0 prev nxt depth" "rt < n" "ompi_comm_size comm = int n" "\<And>s. s < n \<Longrightarrow> depth s \<le> k"
    and t: "\<And>r. r < n \<Longrightarrow> \<exists>t. B (at_rank comm r) = Ok (Some t) \<and> tree_root t = int rt \<and>
      tree_next t = map (\<lambda>c. int ((c + rt) mod n)) (nxt ((r + n - rt) mod n)) \<and>
      ((r + n - rt) mod n \<noteq> 0 \<longrightarrow> tree_prev t = Some (int ((prev ((r + n - rt) mod n) + rt) mod n)))"
  shows "builds_tree B comm rt k"
proof -
  have "\<exists>t. \<forall>r < n. B (at_rank comm r) = Ok (Some (t r)) \<and> tree_root (t r) = int rt \<and>
      tree_next (t r) = map (\<lambda>c. int ((c + rt) mod n)) (nxt ((r + n - rt) mod n)) \<and>
      ((r + n - rt) mod n \<noteq> 0 \<longrightarrow> tree_prev (t r) = Some (int ((prev ((r + n - rt) mod n) + rt) mod n)))"
    using t by meson
  then obtain t where t: "\<And>r. r < n \<Longrightarrow> B (at_rank comm r) = Ok (Some (t r))" "\<And>r. r < n \<Longrightarrow> tree_root (t r) = int rt"
    "\<And>r. r < n \<Longrightarrow> tree_next (t r) = map (\<lambda>c. int ((c + rt) mod n)) (nxt ((r + n - rt) mod n))"
    "\<And>r. r < n \<Longrightarrow> (r + n - rt) mod n \<noteq> 0 \<Longrightarrow> tree_prev (t r) = Some (int ((prev ((r + n - rt) mod n) + rt) mod n))"
    by blast
  note rot = rank_tree.rotate [OF assms(1) refl assms(2)]
  have "spans n rt k t"
  proof (rule spans_of_rank_tree [OF rot])
    show "depth ((r + n - rt) mod n) \<le> k" for r using assms(2,4) by simp
    show "tree_root (t r) = int rt \<and> tree_next (t r) = map int (map (\<lambda>c. (c + rt) mod n) (nxt ((r + n - rt) mod n)))" if "r < n" for r
      using t(2,3) [OF that] by (simp add: o_def)
    show "tree_prev (t r) = Some (int ((prev ((r + n - rt) mod n) + rt) mod n))" if "r < n" "r \<noteq> rt" for r
      using t(4) [OF that(1)] shift_zero [OF that(1) assms(2)] that(2) by blast
  qed
  then show ?thesis unfolding builds_tree_def using t(1) assms(3) by auto
qed

text \<open>Loops with an invariant and a measure end.\<close>

lemma while_ends:
  fixes f :: "'s \<Rightarrow> nat"
  assumes "I s" "\<And>s. I s \<Longrightarrow> b s \<Longrightarrow> I (c s) \<and> f (c s) < f s"
  shows "\<exists>t. while_option b c s = Some t \<and> I t \<and> \<not> b t"
proof -
  from measure_while_option_Some [of I b c f s] assms obtain t where t: "while_option b c s = Some t" by blast
  moreover have "I t" using while_option_rule [of I b c s t] assms t by blast
  moreover have "\<not> b t" using while_option_stop [OF t] .
  ultimately show ?thesis by blast
qed

lemma c_div_int: "c_div (int a) (int b) = int (a div b)"
  by (cases "b = 0") (simp_all add: c_div_def zdiv_int sgn_if)

lemma c_mod_int: "c_mod (int a) (int b) = int (a mod b)"
  by (simp add: zmod_int)

lemma xor_power: "int s XOR 2 ^ j = (if odd (s div 2 ^ j) then int s - 2 ^ j else int s + 2 ^ j)"
proof -
  have "int s XOR 2 ^ j = flip_bit j (int s)" by (simp add: flip_bit_eq_xor push_bit_eq_mult)
  moreover have "bit (int s) j \<longleftrightarrow> odd (s div 2 ^ j)"
    by (metis bit_iff_odd even_of_nat of_nat_numeral of_nat_power zdiv_int)
  ultimately show ?thesis by (simp add: flip_bit_eq_if set_bit_eq unset_bit_eq)
qed

lemma builds_tree_mono: "builds_tree B comm rt k \<Longrightarrow> k \<le> m \<Longrightarrow> builds_tree B comm rt m"
proof -
  assume b: "builds_tree B comm rt k" and m: "k \<le> m"
  let ?n = "nat (ompi_comm_size comm)"
  from b obtain t where t: "\<forall>r < ?n. B (at_rank comm r) = Ok (Some (t r))" "spans ?n rt k t" unfolding builds_tree_def by blast
  let ?nx = "\<lambda>r. map nat (tree_next (t r))"
  have k: "reached ?nx rt k = {..<?n}" using t(2) by (simp add: spans_def)
  have sub: "set (?nx r) \<subseteq> {..<?n}" if "r < ?n" for r
  proof -
    have "set (tree_next (t r)) \<subseteq> int ` ({..<?n} - {rt})" using t(2) that unfolding spans_def by fastforce
    then show ?thesis by auto
  qed
  have "reached ?nx rt m = {..<?n}" using m
  proof (induction rule: dec_induct)
    case (step i)
    then show ?case using sub by auto
  qed (rule k)
  then show ?thesis using t unfolding builds_tree_def spans_def by blast
qed

end
