(* ===== verification/TreeFan.thy ===== *)
theory TreeFan
  imports TreeViews
begin

text \<open>
  The tree with a fixed number of children (\<^verbatim>\<open>ompi_coll_base_topo_build_tree\<close>): the levels are filled one after the other,
  and the children of a process are a power of the fanout apart.
\<close>

unbundle bit_operations_syntax

section \<open>The tree of a fixed fanout\<close>

text \<open>The number of nodes on the levels below \<open>l\<close>.\<close>

definition upto_level :: "nat \<Rightarrow> nat \<Rightarrow> nat" where
  "upto_level k l = (\<Sum>i < l. k ^ i)"

lemma upto_level_simps [simp]: "upto_level k 0 = 0" "upto_level k (Suc l) = upto_level k l + k ^ l"
  by (simp_all add: upto_level_def)

definition level_of :: "nat \<Rightarrow> nat \<Rightarrow> nat" where
  "level_of k s = (LEAST l. s < upto_level k (Suc l))"

lemma upto_level_ge: "0 < k \<Longrightarrow> l \<le> upto_level k l"
proof (induction l)
  case (Suc l)
  have "1 \<le> k ^ l" using Suc.prems by simp
  then show ?case using Suc.IH [OF Suc.prems] unfolding upto_level_simps by linarith
qed simp

lemma upto_level_mono: "l \<le> m \<Longrightarrow> upto_level k l \<le> upto_level k m"
  by (induction m) (auto simp: le_Suc_eq)

lemma level_of_bounds:
  assumes "0 < k"
  shows "upto_level k (level_of k s) \<le> s" "s < upto_level k (Suc (level_of k s))"
proof -
  have "s < upto_level k (Suc s)" using upto_level_ge [OF assms, of "Suc s"] by simp
  then show *: "s < upto_level k (Suc (level_of k s))" unfolding level_of_def by (rule LeastI)
  show "upto_level k (level_of k s) \<le> s"
  proof (cases "level_of k s")
    case (Suc m)
    then show ?thesis using not_less_Least [of m "\<lambda>l. s < upto_level k (Suc l)"] unfolding level_of_def by simp
  qed simp
qed

lemma level_of_eq: "0 < k \<Longrightarrow> upto_level k l \<le> s \<Longrightarrow> s < upto_level k (Suc l) \<Longrightarrow> level_of k s = l"
  using level_of_bounds [of k s] upto_level_mono [of "Suc l" "level_of k s" k] upto_level_mono [of "Suc (level_of k s)" l k]
  by (meson leD le_less_trans less_le_trans linorder_neqE_nat Suc_leI)

text \<open>The parent and the children of a shifted rank.\<close>

definition fan_parent :: "nat \<Rightarrow> nat \<Rightarrow> nat" where
  "fan_parent k s =
     (let l = level_of k s in if l = 0 then 0 else upto_level k (l - 1) + (s - upto_level k l) mod k ^ (l - 1))"

definition fan_children :: "nat \<Rightarrow> nat \<Rightarrow> nat \<Rightarrow> nat list" where
  "fan_children k n s = filter (\<lambda>c. c < n) (map (\<lambda>i. s + k ^ level_of k s * Suc i) [0..<k])"

lemma fan_child:
  assumes "0 < k" "i < k"
  shows "level_of k (s + k ^ level_of k s * Suc i) = Suc (level_of k s)" "fan_parent k (s + k ^ level_of k s * Suc i) = s"
proof -
  define l d where "l = level_of k s" and "d = s - upto_level k l"
  note b = level_of_bounds [OF assms(1), of s, folded l_def]
  have d: "s = upto_level k l + d" "d < k ^ l" using b by (simp_all add: d_def)
  let ?c = "s + k ^ l * Suc i"
  have c: "?c = upto_level k (Suc l) + (d + k ^ l * i)" using d by simp
  have "d + k ^ l * i < k ^ l * Suc i" using d by simp
  also have "\<dots> \<le> k ^ l * k" using assms(2) by (intro mult_le_mono2) simp
  finally have "d + k ^ l * i < k ^ Suc l" by (simp add: mult.commute)
  then have l: "level_of k ?c = Suc l" using c by (intro level_of_eq assms) simp_all
  have "(?c - upto_level k (Suc l)) mod k ^ l = d" using c d(2) by simp
  then have "fan_parent k ?c = upto_level k l + d" unfolding fan_parent_def l Let_def by simp
  then show "level_of k (s + k ^ level_of k s * Suc i) = Suc (level_of k s)" "fan_parent k (s + k ^ level_of k s * Suc i) = s"
    using l d(1) unfolding l_def by metis+
qed

lemma fan_parent_child:
  assumes "0 < k" "0 < s"
  shows "\<exists>i < k. s = fan_parent k s + k ^ level_of k (fan_parent k s) * Suc i"
proof -
  obtain l where l: "level_of k s = Suc l"
    using level_of_bounds(2) [OF assms(1), of s] assms(2) by (cases "level_of k s") auto
  note b = level_of_bounds [OF assms(1), of s, unfolded l]
  define d where "d = s - upto_level k (Suc l)"
  have d: "s = upto_level k (Suc l) + d" "d < k ^ l * k" using b by (simp_all add: d_def mult.commute)
  have p: "fan_parent k s = upto_level k l + d mod k ^ l" using l by (simp add: fan_parent_def d_def)
  have pos: "0 < k ^ l" using assms(1) by simp
  then have lp: "level_of k (fan_parent k s) = l" unfolding p by (intro level_of_eq assms) simp_all
  have "d div k ^ l < k" using d(2) pos by (simp add: div_less_iff_less_mult mult.commute)
  moreover have "s = fan_parent k s + k ^ l * Suc (d div k ^ l)"
  proof -
    have "d = d mod k ^ l + k ^ l * (d div k ^ l)" by simp
    then have "s = upto_level k l + k ^ l + (d mod k ^ l + k ^ l * (d div k ^ l))" using d(1) by simp
    then show ?thesis unfolding p by simp
  qed
  ultimately show ?thesis unfolding lp by blast
qed

lemma fan_rank_tree:
  assumes "0 < k" "0 < n"
  shows "rank_tree n 0 (fan_parent k) (fan_children k n) (level_of k)"
proof
  show "0 < n" by (rule assms)
  show "fan_parent k r < n \<and> r \<in> set (fan_children k n (fan_parent k r)) \<and> level_of k (fan_parent k r) < level_of k r"
    if r: "r < n" "r \<noteq> 0" for r
  proof -
    obtain i where i: "i < k" "r = fan_parent k r + k ^ level_of k (fan_parent k r) * Suc i"
      using fan_parent_child [OF assms(1)] r(2) by blast
    have "level_of k r = Suc (level_of k (fan_parent k r))" using fan_child(1) [OF assms(1) i(1), of "fan_parent k r"] i(2) by metis
    moreover have "fan_parent k r \<le> r" using i(2) by linarith
    moreover have "r \<in> set (fan_children k n (fan_parent k r))"
      unfolding fan_children_def set_filter set_map using i r(1) by (intro CollectI conjI image_eqI [of _ _ i]) simp_all
    ultimately show ?thesis using r(1) by linarith
  qed
  show "c < n \<and> c \<noteq> 0 \<and> fan_parent k c = r" if "r < n" "c \<in> set (fan_children k n r)" for r c
    using that fan_child(2) [OF assms(1)] assms(1) by (auto simp: fan_children_def)
  show "distinct (fan_children k n r)" if "r < n" for r
    unfolding fan_children_def using assms(1) by (intro distinct_filter) (auto simp: distinct_map intro!: inj_onI)
qed

text \<open>The functions of the code compute these.\<close>

lemma pown_power: "pown (int k) (int l) = int (k ^ l)"
proof -
  have "((\<lambda>p. p * int k) ^^ l) 1 = int (k ^ l)" by (induction l) simp_all
  then show ?thesis by (simp add: pown_def push_bit_eq_mult)
qed

lemma calculate_level_correct:
  assumes "0 < k"
  shows "calculate_level (int k) (int s) = Some (int (level_of k s))"
proof -
  let ?I = "\<lambda>(level, num). \<exists>l. level = int l \<and> num = int (upto_level k l) \<and> (0 < l \<longrightarrow> upto_level k (l - 1) \<le> s)"
  let ?b = "\<lambda>(level :: int, num). num \<le> int s" and ?c = "\<lambda>(level, num). (level + 1, num + pown (int k) level)"
  have "\<exists>t. while_option ?b ?c (0, 0) = Some t \<and> ?I t \<and> \<not> ?b t"
  proof (rule while_ends [where f = "\<lambda>(level, num). nat (int s + 1 - num)"])
    fix x assume x: "?I x" "?b x"
    then obtain l where l: "x = (int l, int (upto_level k l))" "upto_level k l \<le> s" by auto
    have "0 < k ^ l" using assms by simp
    then show "?I (?c x) \<and> (case ?c x of (level, num) \<Rightarrow> nat (int s + 1 - num)) < (case x of (level, num) \<Rightarrow> nat (int s + 1 - num))"
      unfolding l using l(2) by (auto simp: pown_power intro!: exI [of _ "Suc l"])
  qed simp
  then obtain l where w: "while_option ?b ?c (0, 0) = Some (int l, int (upto_level k l))" "s < upto_level k l"
    "0 < l \<longrightarrow> upto_level k (l - 1) \<le> s" by auto
  then obtain m where m: "l = Suc m" by (cases l) auto
  then have "level_of k s = m" using w by (intro level_of_eq assms) simp_all
  then show ?thesis using w(1) m by (simp add: calculate_level_def)
qed

lemma nodes_up_to_level: "0 < k \<Longrightarrow> calculate_num_nodes_up_to_level (int k) (int l) = int (upto_level k l)"
proof -
  assume k: "0 < k"
  show ?thesis
  proof (cases "k = 1")
    case True
    then show ?thesis by (simp add: calculate_num_nodes_up_to_level_def upto_level_def)
  next
    case False
    have "int (k ^ l) - 1 = (int k - 1) * int (upto_level k l)"
    proof (induction l)
      case (Suc l)
      have "int (k ^ Suc l) - 1 = (int k - 1) * int (k ^ l) + (int (k ^ l) - 1)" by (simp add: algebra_simps)
      then show ?case using Suc by (simp only: upto_level_simps of_nat_add distrib_left)
    qed simp
    moreover have "0 < int k - 1" using k False by simp
    moreover have "0 \<le> (int k - 1) * int (upto_level k l)" using calculation(2) by simp
    ultimately show ?thesis unfolding calculate_num_nodes_up_to_level_def pown_power using False
      by (simp only: c_div_nonneg) simp
  qed
qed

lemma fanout_children_filter:
  assumes "0 < delta"
  shows "fanout_children (int n) (int rt) (int s) (int delta) [j..<k] =
    map (\<lambda>c. int ((c + rt) mod n)) (filter (\<lambda>c. c < n) (map (\<lambda>i. s + delta * Suc i) [j..<k]))"
proof (induction "k - j" arbitrary: j)
  case (Suc d)
  then have j: "j < k" "d = k - Suc j" by simp_all
  have e: "int s + int delta * (int j + 1) = int (s + delta * Suc j)" by (simp add: algebra_simps)
  have step: "fanout_children (int n) (int rt) (int s) (int delta) (j # js) =
      (if s + delta * Suc j < n then int ((s + delta * Suc j + rt) mod n) # fanout_children (int n) (int rt) (int s) (int delta) js else [])" for js
    unfolding fanout_children.simps Let_def e unshift by (simp only: of_nat_less_iff)
  show ?case
  proof (cases "s + delta * Suc j < n")
    case True
    then show ?thesis using Suc.hyps(1) [OF j(2)] j(1) step by (simp add: upt_conv_Cons del: mult_Suc_right fanout_children.simps)
  next
    case False
    have "n \<le> s + delta * Suc i" if "j \<le> i" for i
      using False that mult_le_mono2 [of "Suc j" "Suc i" delta] by linarith
    then have "filter (\<lambda>c. c < n) (map (\<lambda>i. s + delta * Suc i) [j..<k]) = []"
      by (auto simp: filter_empty_conv not_less)
    then show ?thesis using False j(1) step by (simp add: upt_conv_Cons del: mult_Suc_right fanout_children.simps)
  qed
qed simp

lemma fan_parent_loop:
  assumes "0 < k" "k \<le> s"
  shows "while_option (\<lambda>sparent. sparent \<ge> int (upto_level k (level_of k s))) (\<lambda>sparent. sparent - c_div (int (k ^ level_of k s)) (int k)) (int s) =
    Some (int (fan_parent k s))"
proof -
  obtain l where l: "level_of k s = Suc l"
    using level_of_bounds(2) [OF assms(1), of s] assms by (cases "level_of k s") auto
  note b = level_of_bounds [OF assms(1), of s, unfolded l]
  have q: "c_div (int (k ^ Suc l)) (int k) = int (k ^ l)" using assms(1) by simp
  define u K where "u = upto_level k l" and "K = k ^ l"
  have b: "upto_level k (Suc l) = u + K" "u + K \<le> s" using b by (simp_all add: u_def K_def)
  have pos: "0 < K" using assms(1) by (simp add: K_def)
  let ?I = "\<lambda>p. \<exists>x. p = int (u + x) \<and> x mod K = (s - u) mod K"
  let ?b = "\<lambda>p. p \<ge> int (u + K)" and ?c = "\<lambda>p. p - int K"
  have "\<exists>t. while_option ?b ?c (int s) = Some t \<and> ?I t \<and> \<not> ?b t"
  proof (rule while_ends [where f = nat])
    show "?I (int s)" using b(2) by (intro exI [of _ "s - u"]) simp
    fix p assume "?I p" "?b p"
    then obtain x where x: "p = int (u + x)" "K \<le> x" "x mod K = (s - u) mod K" by auto
    have "?c p = int (u + (x - K))" "(x - K) mod K = (s - u) mod K" "nat (?c p) < nat p" using x pos by (simp_all add: le_mod_geq)
    then show "?I (?c p) \<and> nat (?c p) < nat p" by blast
  qed
  then obtain x where x: "while_option ?b ?c (int s) = Some (int (u + x))" "x < K" "x mod K = (s - u) mod K" by auto
  have "(s - (u + K)) mod K = (s - u) mod K" using b(2) le_mod_geq [of K "s - u"] by (simp add: diff_diff_eq)
  then have "fan_parent k s = u + x" using x(2,3) l b(1) by (simp add: fan_parent_def Let_def u_def K_def)
  then show ?thesis using x(1) unfolding l q b(1) by (simp add: K_def)
qed

theorem build_tree_spans:
  assumes "0 < k" "k \<le> MAXTREEFANOUT" "ompi_comm_size comm = int n" "rt < n" "n \<le> upto_level k (Suc d)"
  shows "builds_tree (\<lambda>c. ompi_coll_base_topo_build_tree (int k) c (int rt)) comm rt d"
proof (rule rotated_tree [OF fan_rank_tree [OF assms(1)] assms(4,3)])
  show "0 < n" using assms(4) by simp
  show "level_of k s \<le> d" if "s < n" for s
    unfolding level_of_def using that assms(5) by (intro Least_le) (simp del: upto_level_simps)
  fix r assume r: "r < n"
  define s where "s = (r + n - rt) mod n"
  have sn: "s < n" using r by (simp add: s_def)
  have k: "\<not> (int k < 1 \<or> int k > int MAXTREEFANOUT)" using assms(1,2) by simp
  let ?B = "ompi_coll_base_topo_build_tree (int k) (at_rank comm r) (int rt)"
  show "\<exists>t. ?B = Ok (Some t) \<and> tree_root t = int rt \<and>
      tree_next t = map (\<lambda>c. int ((c + rt) mod n)) (fan_children k n ((r + n - rt) mod n)) \<and>
      ((r + n - rt) mod n \<noteq> 0 \<longrightarrow> tree_prev t = Some (int ((fan_parent k ((r + n - rt) mod n) + rt) mod n)))"
    unfolding s_def [symmetric]
  proof (cases "n < 2")
    case True
    have "c < n \<and> c \<noteq> 0" if "c \<in> set (fan_children k n s)" for c
      using rank_tree.child [OF fan_rank_tree [OF assms(1)] sn that] sn by simp
    then have "s = 0" "fan_children k n s = []" using sn True by (simp, metis One_nat_def Suc_1 less_2_cases less_one list.set_intros(1) neq_Nil_conv not_less_eq)
    then show "\<exists>t. ?B = Ok (Some t) \<and> tree_root t = int rt \<and> tree_next t = map (\<lambda>c. int ((c + rt) mod n)) (fan_children k n s) \<and>
        (s \<noteq> 0 \<longrightarrow> tree_prev t = Some (int ((fan_parent k s + rt) mod n)))"
      using True k assms(3) by (simp add: ompi_coll_base_topo_build_tree_def Let_def)
  next
    case False
    have sh: "(if int r - int rt < 0 then int r - int rt + int n else int r - int rt) = int s"
      using shift_rank(1) [OF r assms(4)] by (simp add: s_def)
    have pa: "(if int s < int k then Some 0
        else while_option (\<lambda>sparent. sparent \<ge> int (upto_level k (level_of k s)))
          (\<lambda>sparent. sparent - c_div (int (k ^ level_of k s)) (int k)) (int s)) = Some (int (fan_parent k s))"
    proof (cases "s < k")
      case True
      then have "s < upto_level k (Suc 1)" by simp
      then have "level_of k s \<le> 1" unfolding level_of_def by (rule Least_le)
      then have "fan_parent k s = 0" by (cases "level_of k s") (auto simp: fan_parent_def)
      then show ?thesis using True by simp
    next
      case False
      then show ?thesis using fan_parent_loop [OF assms(1), of s] by simp
    qed
    have ch: "fanout_children (int n) (int rt) (int s) (int (k ^ level_of k s)) [0..<k] =
        map (\<lambda>c. int ((c + rt) mod n)) (fan_children k n s)"
      using fanout_children_filter [of "k ^ level_of k s" n rt s 0 k] assms(1) by (simp add: fan_children_def)
    have "?B = Ok (Some \<lparr>tree_root = int rt, tree_fanout = Some (int k), tree_bmtree = Some 0,
        tree_prev = Some (int ((fan_parent k s + rt) mod n)), tree_next = map (\<lambda>c. int ((c + rt) mod n)) (fan_children k n s)\<rparr>)"
      unfolding ompi_coll_base_topo_build_tree_def Let_def at_rank_simps assms(3) sh if_not_P [OF k]
        calculate_level_correct [OF assms(1)] pown_power nodes_up_to_level [OF assms(1)] pa ends_def option.case nat_int ch unshift
      using False by simp
    then show "\<exists>t. ?B = Ok (Some t) \<and> tree_root t = int rt \<and> tree_next t = map (\<lambda>c. int ((c + rt) mod n)) (fan_children k n s) \<and>
        (s \<noteq> 0 \<longrightarrow> tree_prev t = Some (int ((fan_parent k s + rt) mod n)))"
      by simp
  qed
qed

interpretation fan: rank_tree "Suc m" 0 "fan_parent (Suc f)" "fan_children (Suc f) (Suc m)" "level_of (Suc f)" for m f
  by (rule fan_rank_tree) simp_all

end
