(* ===== verification/TreeBinomial.thy ===== *)
theory TreeBinomial
  imports TreeViews "HOL-Library.Log_Nat"
begin

text \<open>
  The binomial tree (\<^verbatim>\<open>ompi_coll_base_topo_build_bmtree\<close>): the parent of a shifted rank has its highest bit cleared.
\<close>

unbundle bit_operations_syntax

section \<open>The binomial tree\<close>

lemma floorlog_unique: "2 ^ j \<le> s \<Longrightarrow> s < 2 ^ Suc j \<Longrightarrow> floorlog 2 s = Suc j"
  using floorlog_leI [of s 2 "Suc j"] floorlog_ge_SucI [of 2 j s] by simp

lemma below_floorlog: "s < 2 ^ floorlog 2 s"
  using floorlog_bounds [of s 2] by (cases "s = 0") auto

lemma floorlog_le: "floorlog 2 s \<le> j \<longleftrightarrow> s < 2 ^ j"
  by (simp add: floorlog_le_iff)

text \<open>The parent of a shifted rank has its highest bit cleared, and the children have a bit above the highest one set.\<close>

definition bm_parent :: "nat \<Rightarrow> nat" where
  "bm_parent s = s - 2 ^ (floorlog 2 s - 1)"

definition bm_list :: "nat \<Rightarrow> nat \<Rightarrow> nat \<Rightarrow> nat list" where
  "bm_list n s j = map (\<lambda>i. s + 2 ^ i) (filter (\<lambda>i. s + 2 ^ i < n) [j..<31])"

lemma bm_child:
  assumes "floorlog 2 s \<le> j"
  shows "floorlog 2 (s + 2 ^ j) = Suc j" "bm_parent (s + 2 ^ j) = s"
proof -
  have "s < 2 ^ j" using assms by (simp add: floorlog_le)
  then show "floorlog 2 (s + 2 ^ j) = Suc j" by (intro floorlog_unique) simp_all
  then show "bm_parent (s + 2 ^ j) = s" by (simp add: bm_parent_def)
qed

lemma bm_split:
  assumes "0 < s"
  shows "s = bm_parent s + 2 ^ (floorlog 2 s - 1)" "floorlog 2 (bm_parent s) \<le> floorlog 2 s - 1" "0 < floorlog 2 s"
proof -
  have b: "2 ^ (floorlog 2 s - 1) \<le> s" "s < 2 ^ floorlog 2 s" using floorlog_bounds [of s 2] assms by simp_all
  show f: "0 < floorlog 2 s" using b assms by (cases "floorlog 2 s") auto
  show "s = bm_parent s + 2 ^ (floorlog 2 s - 1)" using b by (simp add: bm_parent_def)
  have "(2 :: nat) ^ floorlog 2 s = 2 * 2 ^ (floorlog 2 s - 1)" using f by (cases "floorlog 2 s") auto
  then show "floorlog 2 (bm_parent s) \<le> floorlog 2 s - 1" using b by (simp add: floorlog_le bm_parent_def)
qed

lemma bm_rank_tree:
  assumes "0 < n" "n < 2 ^ 31"
  shows "rank_tree n 0 bm_parent (\<lambda>s. bm_list n s (floorlog 2 s)) (floorlog 2)"
proof
  show "0 < n" by (rule assms)
  show "bm_parent r < n \<and> r \<in> set (bm_list n (bm_parent r) (floorlog 2 (bm_parent r))) \<and> floorlog 2 (bm_parent r) < floorlog 2 r"
    if r: "r < n" "r \<noteq> 0" for r
  proof -
    let ?j = "floorlog 2 r - 1"
    note s = bm_split [of r]
    have "(2 :: nat) ^ ?j < 2 ^ 31" using s(1) r assms(2) by linarith
    then have "?j < 31" using power_less_imp_less_exp [of 2 ?j 31] by simp
    then have "r \<in> set (bm_list n (bm_parent r) (floorlog 2 (bm_parent r)))"
      unfolding bm_list_def set_map set_filter using s r by (intro image_eqI [of _ _ ?j] CollectI conjI) simp_all
    moreover have "bm_parent r \<le> r" by (simp add: bm_parent_def)
    ultimately show ?thesis using r s by linarith
  qed
  show "c < n \<and> c \<noteq> 0 \<and> bm_parent c = r" if "r < n" "c \<in> set (bm_list n r (floorlog 2 r))" for r c
    using that bm_child(2) by (auto simp: bm_list_def)
  show "distinct (bm_list n r (floorlog 2 r))" for r
    by (auto simp: bm_list_def distinct_map intro!: inj_onI)
qed

lemma next_poweroftwo_correct: "opal_next_poweroftwo (int s) = Some (2 ^ floorlog 2 s)"
proof -
  let ?w = "while_option (\<lambda>(v, power2). v > 0) (\<lambda>(v, power2). (drop_bit 1 v, push_bit 1 power2))"
  have "?w (int s, p) = Some (0, p * 2 ^ floorlog 2 s)" for p :: int
  proof (induction s arbitrary: p rule: less_induct)
    case (less s)
    show ?case
    proof (cases "s = 0")
      case True
      then show ?thesis by (simp add: while_option_unfold floorlog_def)
    next
      case False
      then have "?w (int s, p) = ?w (int (s div 2), 2 * p)"
        by (subst while_option_unfold) (simp add: drop_bit_eq_div push_bit_eq_mult mult.commute zdiv_int)
      also have "\<dots> = Some (0, 2 * p * 2 ^ floorlog 2 (s div 2))" using False by (intro less.IH) simp
      also have "floorlog 2 s = Suc (floorlog 2 (s div 2))" using False compute_floorlog [of 2 s] by simp
      then have "2 * p * 2 ^ floorlog 2 (s div 2) = p * 2 ^ floorlog 2 s" by simp
      finally show ?thesis .
    qed
  qed
  then show ?thesis by (simp add: opal_next_poweroftwo_def)
qed

lemma wrap_rank: "s < n \<Longrightarrow> rt < n \<Longrightarrow> (if int s + int rt \<ge> int n then int s + int rt - int n else int s + int rt) = int ((s + rt) mod n)"
  by (auto simp: mod_if)

declare bm_children.simps [simp del]

lemma bm_children_correct:
  assumes "n < 2 ^ 31" "rt < n" "floorlog 2 s \<le> j" "31 \<le> room + j"
  shows "bm_children (int n) (int rt) (int s) room (2 ^ j) = Some (map (\<lambda>c. int ((c + rt) mod n)) (bm_list n s j))"
  using assms(3,4)
proof (induction room arbitrary: j)
  case 0
  have "int n \<le> 2 ^ 31" using assms(1) by (metis less_imp_le of_nat_le_numeral_power_cancel_iff)
  also have "(2 :: int) ^ 31 \<le> 2 ^ j" using 0 by (intro power_increasing) simp_all
  finally show ?case using 0 by (simp add: bm_list_def bm_children.simps)
next
  case (Suc room)
  have "\<not> odd (s div 2 ^ j)" using Suc.prems(1) by (simp add: floorlog_le)
  then have x: "int s XOR 2 ^ j = int (s + 2 ^ j)" by (simp add: xor_power)
  show ?case
  proof (cases "s + 2 ^ j < n")
    case True
    then have "(2 :: nat) ^ j < 2 ^ 31" using assms(1) by linarith
    then have j: "j < 31" using power_less_imp_less_exp [of "2 :: nat" j 31] by simp
    have "2 ^ j < n" using True by linarith
    then have "(2 :: int) ^ j < int n" by (metis of_nat_less_iff of_nat_numeral of_nat_power)
    moreover have "push_bit 1 ((2 :: int) ^ j) = 2 ^ Suc j" by (simp add: push_bit_eq_mult)
    moreover have "\<not> int (s + 2 ^ j) \<ge> int n" using True by linarith
    ultimately have "bm_children (int n) (int rt) (int s) (Suc room) (2 ^ j) =
        map_option (\<lambda>cs. int ((s + 2 ^ j + rt) mod n) # cs) (bm_children (int n) (int rt) (int s) room (2 ^ Suc j))"
      unfolding bm_children.simps [of _ _ _ "Suc room"] Let_def x using wrap_rank [OF True assms(2)]
      by (simp only: if_True if_False nat.case)
    also have "bm_children (int n) (int rt) (int s) room (2 ^ Suc j) = Some (map (\<lambda>c. int ((c + rt) mod n)) (bm_list n s (Suc j)))"
      using Suc.prems by (intro Suc.IH) simp_all
    finally show ?thesis using True j by (simp add: bm_list_def upt_conv_Cons)
  next
    case False
    have "n \<le> s + 2 ^ i" if "j \<le> i" for i
      using False power_increasing [OF that, of "2 :: nat"] by linarith
    then have "bm_list n s j = []" by (auto simp: bm_list_def filter_empty_conv not_less)
    moreover have "\<not> int (s + 2 ^ j) < int n" using False by linarith
    ultimately show ?thesis unfolding bm_children.simps [of _ _ _ "Suc room"] Let_def x by simp
  qed
qed

theorem build_bmtree_spans:
  assumes "n < 2 ^ 31" "ompi_comm_size comm = int n" "rt < n"
  shows "builds_tree (\<lambda>c. ompi_coll_base_topo_build_bmtree c (int rt)) comm rt (floorlog 2 (n - 1))"
proof (rule rotated_tree [OF bm_rank_tree assms(3,2)])
  show "0 < n" "n < 2 ^ 31" using assms by simp_all
  show "floorlog 2 s \<le> floorlog 2 (n - 1)" if "s < n" for s using that by (intro floorlog_mono) simp
  fix r assume r: "r < n"
  define s where "s = (r + n - rt) mod n"
  have sn: "s < n" using r by (simp add: s_def)
  have sh: "(if int r - int rt < 0 then int r - int rt + int n else int r - int rt) = int s"
    using shift_rank(1) [OF r assms(3)] by (simp add: s_def)
  have prev: "(if (int s XOR drop_bit 1 (2 ^ floorlog 2 s)) + int rt \<ge> int n then (int s XOR drop_bit 1 (2 ^ floorlog 2 s)) + int rt - int n
      else (int s XOR drop_bit 1 (2 ^ floorlog 2 s)) + int rt) = int ((bm_parent s + rt) mod n)" if "s \<noteq> 0"
  proof -
    note b = bm_split [of s]
    let ?j = "floorlog 2 s - 1"
    have "drop_bit 1 ((2 :: int) ^ floorlog 2 s) = 2 ^ ?j" using b(3) that by (cases "floorlog 2 s") (auto simp: drop_bit_eq_div)
    moreover have "odd (s div 2 ^ ?j)"
    proof -
      have "bm_parent s < 2 ^ ?j" using b(2) that by (simp add: floorlog_le)
      then have "(bm_parent s + 2 ^ ?j) div 2 ^ ?j = 1" by simp
      then show ?thesis using b(1) that by (metis gr0I odd_one)
    qed
    moreover have "int s - 2 ^ ?j = int (bm_parent s)" using b(1) that by (metis add_diff_cancel_right' of_nat_add of_nat_numeral of_nat_power gr0I)
    ultimately have x: "int s XOR drop_bit 1 (2 ^ floorlog 2 s) = int (bm_parent s)" by (simp only: xor_power if_True simp_thms)
    have "bm_parent s < n" using sn by (simp add: bm_parent_def)
    from wrap_rank [OF this assms(3)] show ?thesis unfolding x .
  qed
  have "ompi_coll_base_topo_build_bmtree (at_rank comm r) (int rt) =
      Ok (Some \<lparr>tree_root = int rt, tree_fanout = None, tree_bmtree = Some 1,
        tree_prev = Some (if rt = r then int rt else int ((bm_parent s + rt) mod n)),
        tree_next = map (\<lambda>c. int ((c + rt) mod n)) (bm_list n s (floorlog 2 s))\<rparr>)"
    using bm_children_correct [OF assms(1,3), of s "floorlog 2 s" MAXTREEFANOUT] prev shift_zero [OF r assms(3)]
    unfolding ompi_coll_base_topo_build_bmtree_def Let_def at_rank_simps assms(2) sh next_poweroftwo_correct ends_def s_def [symmetric]
    by (auto simp: MAXTREEFANOUT_def)
  then show "\<exists>t. ompi_coll_base_topo_build_bmtree (at_rank comm r) (int rt) = Ok (Some t) \<and> tree_root t = int rt \<and>
      tree_next t = map (\<lambda>c. int ((c + rt) mod n)) (bm_list n ((r + n - rt) mod n) (floorlog 2 ((r + n - rt) mod n))) \<and>
      ((r + n - rt) mod n \<noteq> 0 \<longrightarrow> tree_prev t = Some (int ((bm_parent ((r + n - rt) mod n) + rt) mod n)))"
    using shift_zero [OF r assms(3)] unfolding s_def [symmetric] by auto
qed

interpretation bm: rank_tree "Suc (m mod 2 ^ 30)" 0 bm_parent "\<lambda>s. bm_list (Suc (m mod 2 ^ 30)) s (floorlog 2 s)" "floorlog 2" for m
proof (rule bm_rank_tree)
  have "m mod 2 ^ 30 < (2 :: nat) ^ 30" by simp
  then show "Suc (m mod 2 ^ 30) < 2 ^ 31" by simp
qed simp

end
