(* ===== verification/TreeKnomial.thy ===== *)
theory TreeKnomial
  imports TreeViews
begin

text \<open>
  The k-nomial tree and the in-order binomial tree (\<^verbatim>\<open>ompi_coll_base_topo_build_kmtree\<close> and
  \<^verbatim>\<open>ompi_coll_base_topo_build_in_order_bmtree\<close>): the parent of a shifted rank has its lowest digit cleared. The second is the
  first with the radix 2 and the children in the other order.
\<close>

unbundle bit_operations_syntax

section \<open>The k-nomial tree and the in-order binomial tree\<close>

text \<open>The position of the lowest digit of \<open>s\<close> to the base \<open>k\<close> that is not 0, and the number of digits of the ranks
  below \<open>n\<close>.\<close>

definition low_digit :: "nat \<Rightarrow> nat \<Rightarrow> nat" where
  "low_digit k s = (LEAST j. s mod k ^ Suc j \<noteq> 0)"

definition digits :: "nat \<Rightarrow> nat \<Rightarrow> nat" where
  "digits k n = (LEAST l. n \<le> k ^ l)"

lemma power_exceeds: "2 \<le> k \<Longrightarrow> s < k ^ s"
  by (meson less_exp less_le_trans power_mono zero_le)

lemma low_digit_mod: "2 \<le> k \<Longrightarrow> 0 < s \<Longrightarrow> s mod k ^ Suc (low_digit k s) \<noteq> 0"
proof -
  assume a: "2 \<le> k" "0 < s"
  have "s < k ^ Suc s" using power_exceeds [OF a(1), of "Suc s"] by linarith
  then have "s mod k ^ Suc s \<noteq> 0" using a by simp
  then show ?thesis unfolding low_digit_def by (rule LeastI)
qed

lemma low_digit_dvd: "j \<le> low_digit k s \<Longrightarrow> k ^ j dvd s"
proof (cases j)
  case (Suc i)
  assume "j \<le> low_digit k s"
  then have "\<not> s mod k ^ Suc i \<noteq> 0" using not_less_Least [of i "\<lambda>j. s mod k ^ Suc j \<noteq> 0"] Suc unfolding low_digit_def by simp
  then show ?thesis using Suc by (simp add: mod_eq_0_iff_dvd)
qed simp

lemma low_digit_eq:
  assumes "k ^ j dvd s" "\<not> k ^ Suc j dvd s"
  shows "low_digit k s = j"
  unfolding low_digit_def
proof (rule Least_equality)
  show "s mod k ^ Suc j \<noteq> 0" using assms(2) by (simp only: mod_eq_0_iff_dvd) simp
  show "j \<le> i" if i: "s mod k ^ Suc i \<noteq> 0" for i
  proof (rule ccontr)
    assume "\<not> j \<le> i"
    then have "k ^ Suc i dvd k ^ j" by (intro le_imp_power_dvd) simp
    then have "k ^ Suc i dvd s" using assms(1) by (rule dvd_trans)
    then show False using i by (simp only: dvd_eq_mod_eq_0)
  qed
qed

lemma digits_bound:
  assumes "2 \<le> k"
  shows "n \<le> k ^ digits k n" "i < digits k n \<Longrightarrow> k ^ i < n"
proof -
  have "n \<le> k ^ n" using power_exceeds [OF assms, of n] by simp
  then show "n \<le> k ^ digits k n" unfolding digits_def by (rule LeastI)
  show "i < digits k n \<Longrightarrow> k ^ i < n" unfolding digits_def using not_less_Least [of i "\<lambda>l. n \<le> k ^ l"] by simp
qed

lemma below_digits: "2 \<le> k \<Longrightarrow> k ^ i < n \<longleftrightarrow> i < digits k n"
proof
  assume k: "2 \<le> k" and "k ^ i < n"
  then have "k ^ i < k ^ digits k n" using digits_bound(1) [OF k, of n] by linarith
  then show "i < digits k n" using k by (simp add: power_strict_increasing_iff)
qed (rule digits_bound(2))

text \<open>The parent has the lowest digit cleared, the children have one of the zeros below it set.\<close>

definition km_top :: "nat \<Rightarrow> nat \<Rightarrow> nat \<Rightarrow> nat" where
  "km_top k n s = (if s = 0 then digits k n else low_digit k s)"

definition km_parent :: "nat \<Rightarrow> nat \<Rightarrow> nat" where
  "km_parent k s = s - s mod k ^ Suc (low_digit k s)"

definition km_set :: "nat \<Rightarrow> nat \<Rightarrow> nat \<Rightarrow> nat set" where
  "km_set k n s = {s + k ^ i * r | i r. i < km_top k n s \<and> 1 \<le> r \<and> r < k \<and> s + k ^ i * r < n}"

lemma km_top_dvd: "i < km_top k n s \<Longrightarrow> k ^ Suc i dvd s"
  using low_digit_dvd [of "Suc i" k s] by (auto simp: km_top_def split: if_splits)

lemma km_child:
  assumes "2 \<le> k" "k ^ Suc i dvd s" "1 \<le> r" "r < k"
  shows "low_digit k (s + k ^ i * r) = i" "km_parent k (s + k ^ i * r) = s"
proof -
  have pos: "0 < k ^ i" using assms(1) by simp
  have "k ^ i * r < k ^ i * k" using assms(4) pos by simp
  then have lt: "k ^ i * r < k ^ Suc i" by (simp add: mult.commute)
  have m: "(s + k ^ i * r) mod k ^ Suc i = k ^ i * r"
    using assms(2) lt mod_add_left_eq [of s "k ^ Suc i" "k ^ i * r"] by (simp add: dvd_eq_mod_eq_0)
  have "k ^ i dvd s" using assms(2) dvd_trans [OF le_imp_power_dvd [of i "Suc i" k]] by simp
  moreover have "\<not> k ^ Suc i dvd s + k ^ i * r" using m pos assms(3) by (simp only: dvd_eq_mod_eq_0) simp
  ultimately show l: "low_digit k (s + k ^ i * r) = i" by (intro low_digit_eq) simp_all
  show "km_parent k (s + k ^ i * r) = s" unfolding km_parent_def l m by simp
qed

lemma km_split:
  assumes "2 \<le> k" "0 < s"
  shows "\<exists>r. 1 \<le> r \<and> r < k \<and> s = km_parent k s + k ^ low_digit k s * r" "k ^ Suc (low_digit k s) dvd km_parent k s"
    "k ^ low_digit k s \<le> s" "km_parent k s < s"
proof -
  let ?j = "low_digit k s"
  have d: "k ^ ?j dvd s" by (simp add: low_digit_dvd)
  have m: "s mod k ^ Suc ?j \<noteq> 0" using low_digit_mod [OF assms] .
  have "k ^ ?j dvd s mod k ^ Suc ?j" using d dvd_mod [of "k ^ ?j" s "k ^ Suc ?j"] by simp
  then obtain r where r: "s mod k ^ Suc ?j = k ^ ?j * r" by (auto elim: dvdE)
  have "s mod k ^ Suc ?j < k ^ Suc ?j" using assms(1) by (intro mod_less_divisor) simp
  then have "k ^ ?j * r < k ^ ?j * k" unfolding r by (simp only: power_Suc2)
  then have "r < k" by (simp only: mult_less_cancel1)
  moreover have "1 \<le> r" using r m by (cases r) auto
  moreover have "s = km_parent k s + k ^ ?j * r" using r mod_less_eq_dividend [of s "k ^ Suc ?j"] unfolding km_parent_def by linarith
  ultimately show "\<exists>r. 1 \<le> r \<and> r < k \<and> s = km_parent k s + k ^ ?j * r" by blast
  show "k ^ Suc ?j dvd km_parent k s" unfolding km_parent_def by (metis dvd_triv_right minus_mod_eq_div_mult)
  show "k ^ ?j \<le> s" using d assms(2) by (rule dvd_imp_le)
  show "km_parent k s < s" using m assms(2) unfolding km_parent_def by (intro diff_less) auto
qed

lemma km_rank_tree:
  assumes "2 \<le> k" "0 < n" and K: "\<And>s. s < n \<Longrightarrow> set (K s) = km_set k n s \<and> distinct (K s)"
  shows "rank_tree n 0 (km_parent k) K (\<lambda>s. digits k n - km_top k n s)"
proof
  show "0 < n" by (rule assms)
  show "km_parent k s < n \<and> s \<in> set (K (km_parent k s)) \<and> digits k n - km_top k n (km_parent k s) < digits k n - km_top k n s"
    if s: "s < n" "s \<noteq> 0" for s
  proof -
    let ?j = "low_digit k s" and ?p = "km_parent k s"
    note sp = km_split [OF assms(1), of s]
    obtain r where r: "1 \<le> r" "r < k" "s = ?p + k ^ ?j * r" using sp(1) s(2) by blast
    have j: "?j < digits k n" using sp(3) s below_digits [OF assms(1), of ?j n] by linarith
    have t: "?j < km_top k n ?p"
    proof (cases "?p = 0")
      case False
      have "\<not> low_digit k ?p \<le> ?j"
      proof
        assume "low_digit k ?p \<le> ?j"
        then have "k ^ Suc (low_digit k ?p) dvd ?p" using sp(2) s(2) dvd_trans [OF le_imp_power_dvd [of "Suc (low_digit k ?p)" "Suc ?j" k]] by simp
        then show False using low_digit_mod [OF assms(1), of ?p] False by (simp add: mod_eq_0_iff_dvd)
      qed
      then show ?thesis using False by (simp add: km_top_def)
    qed (use j in \<open>simp add: km_top_def\<close>)
    have p: "?p < n" using sp(4) s by linarith
    have "?p + k ^ ?j * r \<in> km_set k n ?p" unfolding km_set_def using r t s(1) by (intro CollectI exI [of _ ?j] exI [of _ r]) auto
    then have "s \<in> km_set k n ?p" using r(3) by metis
    then have "s \<in> set (K ?p)" using K [OF p] by blast
    moreover have "digits k n - km_top k n ?p < digits k n - km_top k n s" using t j s(2) by (simp add: km_top_def)
    ultimately show ?thesis using p by blast
  qed
  show "c < n \<and> c \<noteq> 0 \<and> km_parent k c = s" if s: "s < n" "c \<in> set (K s)" for s c
  proof -
    have "c \<in> km_set k n s" using K [OF s(1)] s(2) by blast
    then obtain i r where i: "i < km_top k n s" "1 \<le> r" "r < k" "c = s + k ^ i * r" "c < n" unfolding km_set_def by blast
    then have "0 < k ^ i * r" using assms(1) by simp
    then show ?thesis using i km_child(2) [OF assms(1) km_top_dvd [OF i(1)] i(2,3)] by simp
  qed
  show "distinct (K s)" if "s < n" for s using K [OF that] by blast
qed

definition io_list :: "nat \<Rightarrow> nat \<Rightarrow> nat \<Rightarrow> nat list" where
  "io_list n s j = map (\<lambda>i. s + 2 ^ i) (filter (\<lambda>i. s + 2 ^ i < n) [j..<km_top 2 n s])"

lemma io_list_set: "set (io_list n s 0) = km_set 2 n s \<and> distinct (io_list n s 0)"
proof -
  have "c \<in> km_set 2 n s \<longleftrightarrow> c \<in> {s + 2 ^ i | i. i < km_top 2 n s \<and> s + 2 ^ i < n}" for c
  proof
    assume "c \<in> km_set 2 n s"
    then obtain i r where c: "c = s + 2 ^ i * r" "i < km_top 2 n s" "1 \<le> r" "r < 2" "s + 2 ^ i * r < n" unfolding km_set_def by blast
    have "r = 1" using c(3,4) by linarith
    then have "c = s + 2 ^ i" "s + 2 ^ i < n" using c(1,5) by simp_all
    then show "c \<in> {s + 2 ^ i | i. i < km_top 2 n s \<and> s + 2 ^ i < n}" using c(2) by blast
  next
    assume "c \<in> {s + 2 ^ i | i. i < km_top 2 n s \<and> s + 2 ^ i < n}"
    then obtain i where "c = s + 2 ^ i * 1" "i < km_top 2 n s" "s + 2 ^ i * 1 < n" by auto
    moreover have "1 \<le> (1 :: nat)" "(1 :: nat) < 2" by simp_all
    ultimately show "c \<in> km_set 2 n s" unfolding km_set_def by blast
  qed
  then have "km_set 2 n s = {s + 2 ^ i | i. i < km_top 2 n s \<and> s + 2 ^ i < n}" by blast
  then show ?thesis by (auto simp: io_list_def distinct_map intro!: inj_onI)
qed

definition km_row :: "nat \<Rightarrow> nat \<Rightarrow> nat \<Rightarrow> nat \<Rightarrow> nat list" where
  "km_row k n s i = map (\<lambda>r. s + k ^ i * r) (filter (\<lambda>r. s + k ^ i * r < n) [1..<k])"

definition km_list :: "nat \<Rightarrow> nat \<Rightarrow> nat \<Rightarrow> nat \<Rightarrow> nat list" where
  "km_list k n s t = concat (map (km_row k n s) (rev [0..<t]))"

lemma km_list_simps [simp]: "km_list k n s 0 = []" "km_list k n s (Suc t) = km_row k n s t @ km_list k n s t"
  by (simp_all add: km_list_def)

lemma km_list_length: "2 \<le> k \<Longrightarrow> length (km_list k n s t) \<le> (k - 1) * t"
proof (induction t)
  case (Suc t)
  have "length (km_row k n s t) \<le> length [1..<k]" unfolding km_row_def length_map by (rule length_filter_le)
  then show ?case using Suc by simp
qed simp

lemma km_row_iff: "c \<in> set (km_row k n s i) \<longleftrightarrow> (\<exists>r. c = s + k ^ i * r \<and> 1 \<le> r \<and> r < k \<and> s + k ^ i * r < n)"
  by (auto simp: km_row_def)

lemma km_list_iff: "c \<in> set (km_list k n s t) \<longleftrightarrow> (\<exists>i < t. c \<in> set (km_row k n s i))"
  by (auto simp: km_list_def)

lemma km_list_distinct:
  assumes "2 \<le> k"
  shows "t \<le> km_top k n s \<Longrightarrow> distinct (km_list k n s t)"
proof (induction t)
  case (Suc t)
  have inj: "inj_on (\<lambda>r. s + k ^ t * r) A" for A using assms by (auto intro!: inj_onI)
  have "low_digit k c = i" if "i < km_top k n s" "c \<in> set (km_row k n s i)" for c i
    using that km_child(1) [OF assms km_top_dvd [OF that(1)]] unfolding km_row_iff by blast
  then have "c \<notin> set (km_list k n s t)" if "c \<in> set (km_row k n s t)" for c
    using Suc.prems that unfolding km_list_iff by (metis Suc_le_eq less_trans nat_neq_iff)
  then have "set (km_row k n s t) \<inter> set (km_list k n s t) = {}" by blast
  moreover have "distinct (km_row k n s t)" unfolding km_row_def distinct_map using inj by simp
  ultimately show ?case using Suc by simp
qed simp

lemma km_list_set:
  assumes "2 \<le> k"
  shows "set (km_list k n s (km_top k n s)) = km_set k n s \<and> distinct (km_list k n s (km_top k n s))"
proof
  have "c \<in> set (km_list k n s (km_top k n s)) \<longleftrightarrow> c \<in> km_set k n s" for c
    unfolding km_list_iff km_row_iff km_set_def by auto
  then show "set (km_list k n s (km_top k n s)) = km_set k n s" by blast
  show "distinct (km_list k n s (km_top k n s))" by (rule km_list_distinct [OF assms]) simp
qed

text \<open>The loops of the code.\<close>

lemma in_order_bm_loop_correct:
  assumes "rt < n" "s < n" "digits 2 n \<le> 31"
  shows "j \<le> km_top 2 n s \<Longrightarrow> length cs + (digits 2 n - j) \<le> 31 \<Longrightarrow>
    in_order_bm_loop (int n) (int rt) (int s) (2 ^ j) cs prev =
      Some (Some (cs @ map (\<lambda>c. int ((c + rt) mod n)) (io_list n s j),
        if s = 0 then prev else Some (int ((km_parent 2 s + rt) mod n))))"
proof (induction "digits 2 n - j" arbitrary: j cs)
  case 0
  have "\<not> 2 ^ j < n" using 0 below_digits [of 2 j n] by simp
  then have m: "\<not> (2 :: int) ^ j < int n" by (metis of_nat_less_iff of_nat_numeral of_nat_power)
  have "s = 0"
  proof (rule ccontr)
    assume s: "s \<noteq> 0"
    then have "2 ^ low_digit 2 s < n" using km_split(3) [of 2 s] assms(2) by simp
    then show False using 0 s below_digits [of 2 "low_digit 2 s" n] by (simp add: km_top_def)
  qed
  then have "io_list n s j = []" using 0 by (simp add: io_list_def km_top_def)
  then show ?case using m \<open>s = 0\<close> by (simp add: in_order_bm_loop.simps)
next
  case (Suc d)
  then have j: "j < digits 2 n" by simp
  have "2 ^ j < n" using below_digits [of 2 j n] j by simp
  then have m: "(2 :: int) ^ j < int n" by (metis of_nat_less_iff of_nat_numeral of_nat_power)
  have p: "push_bit 1 ((2 :: int) ^ j) = 2 ^ Suc j" by (simp add: push_bit_eq_mult)
  show ?case
  proof (cases "j = km_top 2 n s")
    case True
    then have s: "s \<noteq> 0" "j = low_digit 2 s" using j by (auto simp: km_top_def split: if_splits)
    obtain q where q: "s = km_parent 2 s + 2 ^ j * q" "1 \<le> q" "q < 2" using km_split(1) [of 2 s] s by auto
    have "q = 1" using q by linarith
    then have k: "s = km_parent 2 s + 2 ^ j" using q(1) by (metis mult.right_neutral)
    obtain a where a: "km_parent 2 s = 2 ^ Suc j * a" using km_split(2) [of 2 s] s by (auto elim: dvdE)
    have "km_parent 2 s + 2 ^ j = 2 ^ j * (2 * a + 1)" unfolding a by (simp add: algebra_simps)
    with k have "s = 2 ^ j * (2 * a + 1)" by (rule trans)
    then have "odd (s div 2 ^ j)" by simp
    moreover have "int s - 2 ^ j = int (km_parent 2 s)" using k by (metis add_diff_cancel_right' of_nat_add of_nat_numeral of_nat_power)
    ultimately have x: "int s XOR 2 ^ j = int (km_parent 2 s)" by (simp only: xor_power if_True simp_thms)
    have "int (km_parent 2 s) < int s" using km_split(4) [of 2 s] s by simp
    moreover have "io_list n s j = []" using True by (simp add: io_list_def)
    ultimately show ?thesis using m x s(1) by (subst in_order_bm_loop.simps) (simp add: Let_def)
  next
    case False
    then have lt: "j < km_top 2 n s" using Suc.prems by simp
    obtain a where a: "s = 2 ^ Suc j * a" using km_top_dvd [OF lt] by (auto elim: dvdE)
    then have "\<not> odd (s div 2 ^ j)" by simp
    then have x: "int s XOR 2 ^ j = int (s + 2 ^ j)" by (simp add: xor_power)
    have IH: "in_order_bm_loop (int n) (int rt) (int s) (2 ^ Suc j) cs' prev =
        Some (Some (cs' @ map (\<lambda>c. int ((c + rt) mod n)) (io_list n s (Suc j)), if s = 0 then prev else Some (int ((km_parent 2 s + rt) mod n))))"
      if "length cs' + (digits 2 n - Suc j) \<le> 31" for cs'
      using lt that Suc.hyps(2) by (intro Suc.hyps(1)) simp_all
    have nl: "\<not> int (s + 2 ^ j) < int s" by simp
    show ?thesis
    proof (cases "s + 2 ^ j < n")
      case True
      have "io_list n s j = (s + 2 ^ j) # io_list n s (Suc j)" using True lt by (simp add: io_list_def upt_conv_Cons)
      moreover have "length (cs @ [int ((s + 2 ^ j + rt) mod n)]) \<noteq> MAXTREEFANOUT"
        using Suc.prems(2) j by (simp add: MAXTREEFANOUT_def)
      moreover have "int (s + 2 ^ j) < int n" using True by linarith
      ultimately show ?thesis
        unfolding in_order_bm_loop.simps [of _ _ _ "2 ^ j"] Let_def x p unshift
        using m nl IH [of "cs @ [int ((s + 2 ^ j + rt) mod n)]"] Suc.prems(2) j by simp
    next
      case False
      have "io_list n s j = io_list n s (Suc j)" using False lt by (simp add: io_list_def upt_conv_Cons)
      moreover have "\<not> int (s + 2 ^ j) < int n" using False by linarith
      ultimately show ?thesis
        unfolding in_order_bm_loop.simps [of _ _ _ "2 ^ j"] Let_def x p unshift
        using m nl IH [of cs] Suc.prems(2) j by simp
    qed
  qed
qed

lemma digits_le: "2 \<le> k \<Longrightarrow> n \<le> k ^ d \<Longrightarrow> digits k n \<le> d"
  using below_digits [of k d n] by (meson not_less)

theorem build_in_order_bmtree_spans:
  assumes "n \<le> 2 ^ d" "d \<le> 31" "ompi_comm_size comm = int n" "rt < n"
  shows "builds_tree (\<lambda>c. ompi_coll_base_topo_build_in_order_bmtree c (int rt)) comm rt d"
proof (rule rotated_tree [OF km_rank_tree assms(4,3)])
  show "(2 :: nat) \<le> 2" "0 < n" using assms by simp_all
  show "set (io_list n s 0) = km_set 2 n s \<and> distinct (io_list n s 0)" for s by (rule io_list_set)
  have d: "digits 2 n \<le> d" using assms(1) by (intro digits_le) simp_all
  then show "digits 2 n - km_top 2 n s \<le> d" for s by linarith
  fix r assume r: "r < n"
  let ?s = "(r + n - rt) mod n"
  have "in_order_bm_loop (int n) (int rt) (int ?s) 1 [] pv =
      Some (Some (map (\<lambda>c. int ((c + rt) mod n)) (io_list n ?s 0), if ?s = 0 then pv else Some (int ((km_parent 2 ?s + rt) mod n))))" for pv
    using in_order_bm_loop_correct [OF assms(4), of ?s 0 "[]" pv] r d assms(2) by simp
  then show "\<exists>t. ompi_coll_base_topo_build_in_order_bmtree (at_rank comm r) (int rt) = Ok (Some t) \<and> tree_root t = int rt \<and>
      tree_next t = map (\<lambda>c. int ((c + rt) mod n)) (io_list n ?s 0) \<and>
      (?s \<noteq> 0 \<longrightarrow> tree_prev t = Some (int ((km_parent 2 ?s + rt) mod n)))"
    unfolding ompi_coll_base_topo_build_in_order_bmtree_def Let_def at_rank_simps assms(3) shift_rank(2) [OF r assms(4)] ends_def
    using assms(4) by simp
qed

lemma log_radix_correct:
  assumes "2 \<le> k"
  shows "log_radix (int k) (int n) = Some (int (digits k n))"
proof -
  let ?I = "\<lambda>(i, m). \<exists>j \<le> digits k n. i = int (k ^ j) \<and> m = int j"
  let ?f = "\<lambda>(i :: int, m :: int). nat (int (digits k n) - m)"
  have "\<exists>t. while_option (\<lambda>(i, m). i < int n) (\<lambda>(i, m). (i * int k, m + 1)) (1, 0) = Some t \<and> ?I t \<and> \<not> (case t of (i, m) \<Rightarrow> i < int n)"
  proof (rule while_ends [where f = ?f])
    show "?I (1, 0)" by (auto intro: exI [of _ 0])
    fix st assume I: "?I st" and b: "case st of (i, m) \<Rightarrow> i < int n"
    from I obtain j where j: "j \<le> digits k n" "st = (int (k ^ j), int j)" by auto
    then have "k ^ j < n" using b by (simp only: prod.case of_nat_less_iff)
    then have lt: "j < digits k n" using below_digits [OF assms] by simp
    have "?I (int (k ^ j) * int k, int j + 1)" using lt by (intro case_prodI exI [of _ "Suc j"]) (simp add: Suc_leI mult.commute)
    then show "?I ((\<lambda>(i, m). (i * int k, m + 1)) st) \<and> ?f ((\<lambda>(i, m). (i * int k, m + 1)) st) < ?f st" using lt by (simp add: j(2))
  qed
  then obtain j where w: "while_option (\<lambda>(i, m). i < int n) (\<lambda>(i, m). (i * int k, m + 1)) (1, 0) = Some (int (k ^ j), int j)"
    and j: "j \<le> digits k n" "\<not> int (k ^ j) < int n" by auto
  have "\<not> k ^ j < n" using j(2) by (simp only: of_nat_less_iff not_False_eq_True)
  then have "j = digits k n" using below_digits [OF assms, of j n] j(1) by simp
  then show ?thesis by (simp add: log_radix_def w)
qed

lemma km_search_correct:
  assumes "2 \<le> k" "s < n"
  shows "km_search (int k) (int n) (int s) = Some (int (k ^ km_top k n s))"
proof -
  let ?I = "\<lambda>i. \<exists>j \<le> km_top k n s. i = int (k ^ j)"
  let ?b = "\<lambda>msk. msk < int n \<and> c_mod (int s) (int k * msk) = 0"
  have top: "km_top k n s \<le> digits k n"
    using km_split(3) [OF assms(1), of s] assms(2) below_digits [OF assms(1), of "low_digit k s" n] by (auto simp: km_top_def)
  have step: "?b (int (k ^ j)) \<longleftrightarrow> j < km_top k n s" for j
  proof -
    have "int (k ^ j) < int n \<longleftrightarrow> j < digits k n" unfolding of_nat_less_iff by (rule below_digits [OF assms(1)])
    moreover have "c_mod (int s) (int k * int (k ^ j)) = int (s mod k ^ Suc j)" by (simp add: zmod_int)
    moreover have "s mod k ^ Suc j = 0 \<longleftrightarrow> s = 0 \<or> j < low_digit k s"
    proof (cases "s = 0")
      case False
      have "\<not> k ^ Suc j dvd s" if "low_digit k s \<le> j"
      proof
        assume "k ^ Suc j dvd s"
        moreover have "k ^ Suc (low_digit k s) dvd k ^ Suc j" using that by (intro le_imp_power_dvd) simp
        ultimately have "k ^ Suc (low_digit k s) dvd s" by (rule dvd_trans [rotated])
        then show False using low_digit_mod [OF assms(1), of s] False by (simp only: mod_eq_0_iff_dvd) simp
      qed
      moreover have "k ^ Suc j dvd s" if "j < low_digit k s" using that by (intro low_digit_dvd) simp
      ultimately show ?thesis using False by (metis mod_eq_0_iff_dvd not_less)
    qed simp
    ultimately show ?thesis using top by (auto simp: km_top_def)
  qed
  have "\<exists>t. while_option ?b (\<lambda>msk. msk * int k) 1 = Some t \<and> ?I t \<and> \<not> ?b t"
  proof (rule while_ends [where f = "\<lambda>i. nat (int (k ^ km_top k n s) - i)"])
    show "?I 1" by (auto intro: exI [of _ 0])
    fix i assume "?I i" and b: "?b i"
    then obtain j where j: "i = int (k ^ j)" by blast
    then have lt: "j < km_top k n s" using b step by blast
    have "k ^ Suc j \<le> k ^ km_top k n s" using lt assms(1) by (intro power_increasing) simp_all
    moreover have "k ^ j < k ^ Suc j" using assms(1) by simp
    moreover have "i * int k = int (k ^ Suc j)" by (simp add: j)
    ultimately have "nat (int (k ^ km_top k n s) - i * int k) < nat (int (k ^ km_top k n s) - i)" using j by linarith
    then show "?I (i * int k) \<and> nat (int (k ^ km_top k n s) - i * int k) < nat (int (k ^ km_top k n s) - i)"
      using lt \<open>i * int k = int (k ^ Suc j)\<close> by (metis Suc_leI)
  qed
  then obtain j where "while_option ?b (\<lambda>msk. msk * int k) 1 = Some (int (k ^ j))" "j \<le> km_top k n s" "\<not> ?b (int (k ^ j))" by blast
  then show ?thesis unfolding km_search_def step by simp
qed

lemma km_children_correct:
  assumes "2 \<le> k" "s < n" "rt < n"
  shows "km_children (int k) (int n) (int rt) (int s) (c_div (int (k ^ t)) (int k)) = Some (map (\<lambda>c. int ((c + rt) mod n)) (km_list k n s t))"
proof -
  let ?u = "map (\<lambda>c. int ((c + rt) mod n))"
  let ?pw = "\<lambda>t. c_div (int (k ^ t)) (int k)"
  let ?row = "\<lambda>msk. map (\<lambda>r. c_mod (int s + msk * int r + int rt) (int n)) (filter (\<lambda>r. int s + msk * int r < int n) [1..<nat (int k)])"
  let ?step = "\<lambda>(msk, cs). (c_div msk (int k), cs @ ?row msk)"
  let ?I = "\<lambda>(msk, cs). \<exists>j. msk = ?pw j \<and> cs @ ?u (km_list k n s j) = ?u (km_list k n s t)"
  have p0: "?pw 0 = 0" using assms(1) by (simp add: c_div_int [of 1, simplified])
  have pS: "?pw (Suc j) = int (k ^ j)" for j using assms(1) by (simp only: c_div_int) simp
  have row: "?row (int (k ^ j)) = ?u (km_row k n s j)" for j
  proof -
    have "int s + int (k ^ j) * int r + int rt = int (s + k ^ j * r) + int rt" "int s + int (k ^ j) * int r < int n \<longleftrightarrow> s + k ^ j * r < n" for r
      by (simp, metis of_nat_add of_nat_less_iff of_nat_mult)
    then show ?thesis unfolding km_row_def by (simp only: unshift nat_int) simp
  qed
  have "\<exists>e. while_option (\<lambda>(msk, cs). msk > 0) ?step (?pw t, []) = Some e \<and> ?I e \<and> \<not> (case e of (msk, cs) \<Rightarrow> msk > 0)"
  proof (rule while_ends [where f = "\<lambda>(msk, cs). nat msk"])
    show "?I (?pw t, [])" by auto
    fix st assume I: "?I st" and b: "case st of (msk, cs) \<Rightarrow> msk > 0"
    from I obtain j cs where j: "st = (?pw j, cs)" "cs @ ?u (km_list k n s j) = ?u (km_list k n s t)" by auto
    then obtain i where i: "j = Suc i" using b p0 by (cases j) auto
    have "?pw i < int (k ^ i)" unfolding c_div_int using assms(1) by simp
    moreover have "?step st = (?pw i, cs @ ?u (km_row k n s i))" by (simp only: j(1) i pS prod.case row)
    moreover have "(cs @ ?u (km_row k n s i)) @ ?u (km_list k n s i) = ?u (km_list k n s t)" using j(2) by (simp add: i)
    moreover have "st = (int (k ^ i), cs)" by (simp only: j(1) i pS)
    ultimately show "?I (?step st) \<and> (case ?step st of (msk, cs) \<Rightarrow> nat msk) < (case st of (msk, cs) \<Rightarrow> nat msk)" using assms(1) by auto
  qed
  then obtain j cs where w: "while_option (\<lambda>(msk, cs). msk > 0) ?step (?pw t, []) = Some (?pw j, cs)"
    and cs: "cs @ ?u (km_list k n s j) = ?u (km_list k n s t)" and "\<not> ?pw j > 0" by auto
  have "j = 0" using \<open>\<not> ?pw j > 0\<close> pS assms(1) by (cases j) simp_all
  then show ?thesis using w cs by (simp add: km_children_def)
qed

theorem build_kmtree_spans:
  assumes "2 \<le> k" "n \<le> k ^ d" "ompi_comm_size comm = int n" "rt < n"
  shows "builds_tree (\<lambda>c. ompi_coll_base_topo_build_kmtree c (int rt) (int k)) comm rt d"
proof (rule rotated_tree [OF km_rank_tree assms(4,3)])
  show "2 \<le> k" "0 < n" using assms by simp_all
  show "set (km_list k n s (km_top k n s)) = km_set k n s \<and> distinct (km_list k n s (km_top k n s))" for s by (rule km_list_set [OF assms(1)])
  have "digits k n \<le> d" using assms(1,2) by (intro digits_le)
  then show "digits k n - km_top k n s \<le> d" for s by linarith
  fix r assume r: "r < n"
  define s where "s = (r + n - rt) mod n"
  have sn: "s < n" using r by (simp add: s_def)
  have top: "km_top k n s \<le> digits k n"
    using km_split(3) [OF assms(1), of s] sn below_digits [OF assms(1), of "low_digit k s" n] by (auto simp: km_top_def)
  then have "(k - 1) * km_top k n s \<le> (k - 1) * digits k n" by simp
  then have len: "length (km_list k n s (km_top k n s)) \<le> (k - 1) * digits k n"
    using km_list_length [OF assms(1), of n s "km_top k n s"] by linarith
  have "int ((k - 1) * digits k n) = (int k - 1) * int (digits k n)" using assms(1) by (simp add: of_nat_diff)
  then have store: "\<not> int (length (km_list k n s (km_top k n s))) > (int k - 1) * int (digits k n)" using len by linarith
  have prev: "c_mod (c_div (int s) (int k * int (k ^ km_top k n s)) * (int k * int (k ^ km_top k n s)) + int rt) (int n) =
      int ((km_parent k s + rt) mod n)" if "s \<noteq> 0"
  proof -
    have "int k * int (k ^ km_top k n s) = int (k ^ Suc (low_digit k s))" using that by (simp add: km_top_def)
    moreover have "s div k ^ Suc (low_digit k s) * k ^ Suc (low_digit k s) = km_parent k s"
      unfolding km_parent_def by (rule minus_mod_eq_div_mult [symmetric])
    ultimately show ?thesis by (metis c_div_int of_nat_mult unshift)
  qed
  have "int (k ^ km_top k n s) < int n" if "s \<noteq> 0"
    unfolding of_nat_less_iff below_digits [OF assms(1)] using that km_split(3) [OF assms(1), of s] sn below_digits [OF assms(1), of "low_digit k s" n]
    by (simp add: km_top_def)
  then have "\<exists>pv. ompi_coll_base_topo_build_kmtree (at_rank comm r) (int rt) (int k) =
      Ok (Some \<lparr>tree_root = int rt, tree_fanout = None, tree_bmtree = Some 0, tree_prev = Some pv,
        tree_next = map (\<lambda>c. int ((c + rt) mod n)) (km_list k n s (km_top k n s))\<rparr>) \<and>
      (s \<noteq> 0 \<longrightarrow> pv = int ((km_parent k s + rt) mod n))"
    using assms(1,4) store prev
    unfolding ompi_coll_base_topo_build_kmtree_def Let_def at_rank_simps assms(3) shift_rank(2) [OF r assms(4)] s_def [symmetric] ends_def
      log_radix_correct [OF assms(1)] km_search_correct [OF assms(1) sn] km_children_correct [OF assms(1) sn assms(4)] option.case
    by (simp del: of_nat_power)
  then show "\<exists>t. ompi_coll_base_topo_build_kmtree (at_rank comm r) (int rt) (int k) = Ok (Some t) \<and> tree_root t = int rt \<and>
      tree_next t = map (\<lambda>c. int ((c + rt) mod n)) (km_list k n ((r + n - rt) mod n) (km_top k n ((r + n - rt) mod n))) \<and>
      ((r + n - rt) mod n \<noteq> 0 \<longrightarrow> tree_prev t = Some (int ((km_parent k ((r + n - rt) mod n) + rt) mod n)))"
    unfolding s_def [symmetric] by auto
qed

interpretation km: rank_tree "Suc m" 0 "km_parent (2 + k)" "\<lambda>s. km_list (2 + k) (Suc m) s (km_top (2 + k) (Suc m) s)"
    "\<lambda>s. digits (2 + k) (Suc m) - km_top (2 + k) (Suc m) s" for m k
  by (rule km_rank_tree) (simp_all add: km_list_set)

end
