(* ===== verification/TreeChain.thy ===== *)
theory TreeChain
  imports TreeViews
begin

text \<open>
  Chains (\<^verbatim>\<open>ompi_coll_base_topo_build_chain\<close>): the processes other than the root form a given number of chains that differ in
  length by at most one, and the root sends to the head of each.
\<close>

unbundle bit_operations_syntax

section \<open>Chains\<close>

text \<open>
  The first \<open>mk\<close> chains have \<open>len\<close> elements, the others one less. \<open>chain_head\<close> is the first element of a chain,
  \<open>chain_start\<close> holds of these elements, and \<open>chain_pos\<close> is the place in the chain.
\<close>

primrec chain_head :: "nat \<Rightarrow> nat \<Rightarrow> nat \<Rightarrow> nat" where
  "chain_head len mk 0 = 1"
| "chain_head len mk (Suc i) = chain_head len mk i + (if Suc i > mk then len - 1 else len)"

definition chain_start :: "nat \<Rightarrow> nat \<Rightarrow> nat \<Rightarrow> bool" where
  "chain_start len mk s \<longleftrightarrow> (if s - 1 < mk * len then (s - 1) mod len = 0 else (s - 1 - mk * len) mod (len - 1) = 0)"

definition chain_pos :: "nat \<Rightarrow> nat \<Rightarrow> nat \<Rightarrow> nat" where
  "chain_pos len mk s = (if s = 0 then 0 else if s - 1 < mk * len then Suc ((s - 1) mod len) else Suc ((s - 1 - mk * len) mod (len - 1)))"

definition chain_shape :: "nat \<Rightarrow> nat \<Rightarrow> nat \<Rightarrow> nat \<Rightarrow> bool" where
  "chain_shape n f len mk \<longleftrightarrow> 1 \<le> len \<and> 0 < f \<and> chain_head len mk f = n \<and> (mk < f \<longrightarrow> 2 \<le> len)"

definition chain_nexts :: "nat \<Rightarrow> nat \<Rightarrow> nat \<Rightarrow> nat \<Rightarrow> nat \<Rightarrow> nat list" where
  "chain_nexts n f len mk s =
     (if s = 0 then map (chain_head len mk) [0..<f] else if s + 1 < n \<and> \<not> chain_start len mk (s + 1) then [s + 1] else [])"

definition chain_prev :: "nat \<Rightarrow> nat \<Rightarrow> nat \<Rightarrow> nat" where
  "chain_prev len mk s = (if chain_start len mk s then 0 else s - 1)"

lemma chain_head_low: "i \<le> mk \<Longrightarrow> chain_head len mk i = 1 + i * len"
  by (induction i) auto

lemma chain_head_high: "chain_head len mk (mk + i) = 1 + mk * len + i * (len - 1)"
  by (induction i) (auto simp: chain_head_low)

lemma chain_head_mono: "i \<le> j \<Longrightarrow> chain_head len mk i \<le> chain_head len mk j"
  by (induction j) (auto simp: le_Suc_eq)

lemma chain_head_less: "chain_shape n f len mk \<Longrightarrow> i < j \<Longrightarrow> j \<le> f \<Longrightarrow> chain_head len mk i < chain_head len mk j"
proof (induction j)
  case (Suc j)
  have "chain_head len mk i \<le> chain_head len mk j" using Suc.prems by (intro chain_head_mono) simp
  moreover have "chain_head len mk j < chain_head len mk (Suc j)" using Suc.prems by (auto simp: chain_shape_def)
  ultimately show ?case by linarith
qed simp

lemma chain_start_head:
  assumes "chain_shape n f len mk"
  shows "(\<exists>i < f. s = chain_head len mk i) \<longleftrightarrow> 0 < s \<and> s < n \<and> chain_start len mk s"
proof
  assume "\<exists>i < f. s = chain_head len mk i"
  then obtain i where i: "i < f" "s = chain_head len mk i" by blast
  have "s < n" using chain_head_less [OF assms i(1) order_refl] assms i(2) by (simp add: chain_shape_def)
  moreover have "0 < s" using chain_head_mono [of 0 i len mk] i(2) by simp
  moreover have "chain_start len mk s"
  proof (cases "i < mk")
    case True
    then show ?thesis using assms i(2) chain_head_low [of i mk len] by (simp add: chain_start_def chain_shape_def)
  next
    case False
    then obtain j where "i = mk + j" by (metis le_iff_add not_less)
    then have "s = 1 + mk * len + j * (len - 1)" using i(2) chain_head_high by simp
    then show ?thesis by (simp add: chain_start_def)
  qed
  ultimately show "0 < s \<and> s < n \<and> chain_start len mk s" by blast
next
  assume s: "0 < s \<and> s < n \<and> chain_start len mk s"
  have f: "i < f" if "s = chain_head len mk i" for i
    using chain_head_mono [of f i len mk] assms s that by (fastforce simp: chain_shape_def)
  show "\<exists>i < f. s = chain_head len mk i"
  proof (cases "s - 1 < mk * len")
    case True
    then have "(s - 1) mod len = 0" using s by (simp add: chain_start_def)
    then obtain c where c: "s - 1 = c * len" by (metis dvd_def mod_eq_0_iff_dvd mult.commute)
    then have "c < mk" using True by simp
    then have "s = chain_head len mk c" using c s chain_head_low [of c mk len] by linarith
    then show ?thesis using f by blast
  next
    case False
    then have "(s - 1 - mk * len) mod (len - 1) = 0" using s by (simp add: chain_start_def)
    then obtain c where c: "s - 1 - mk * len = c * (len - 1)" by (metis dvd_def mod_eq_0_iff_dvd mult.commute)
    then have "s = chain_head len mk (mk + c)" using False s unfolding chain_head_high by linarith
    then show ?thesis using f by blast
  qed
qed

text \<open>The element before the start of a chain is the end of another one.\<close>

lemma chain_low_end: "chain_shape n f len mk \<Longrightarrow> s < n \<Longrightarrow> \<not> s - 1 < mk * len \<Longrightarrow> 0 < s \<Longrightarrow> 2 \<le> len"
proof -
  assume a: "chain_shape n f len mk" "s < n" "\<not> s - 1 < mk * len" "0 < s"
  have "chain_head len mk mk < n" using a chain_head_low [of mk mk len] by simp
  then have "mk < f" using chain_head_mono [of f mk len mk] a(1) by (fastforce simp: chain_shape_def)
  then show "2 \<le> len" using a(1) by (simp add: chain_shape_def)
qed

lemma mod_step: "0 < (m :: nat) \<Longrightarrow> Suc a mod m = 0 \<longleftrightarrow> a mod m = m - 1"
  by (auto simp: mod_Suc)

lemma mod_up: "Suc a mod m \<noteq> 0 \<Longrightarrow> Suc a mod m = Suc (a mod m)"
  by (simp add: mod_Suc split: if_splits)

lemma chain_start_step:
  assumes "chain_shape n f len mk" "0 < s" "s < n"
  shows "chain_start len mk (Suc s) \<longleftrightarrow> (if s - 1 < mk * len then (s - 1) mod len = len - 1 else (s - 1 - mk * len) mod (len - 1) = len - 2)"
proof (cases "s - 1 < mk * len")
  case True
  have len: "0 < len" using assms(1) by (simp add: chain_shape_def)
  show ?thesis
  proof (cases "s < mk * len")
    case True
    then show ?thesis using mod_step [OF len, of "s - 1"] assms(2) by (auto simp: chain_start_def)
  next
    case False
    then have s: "s = mk * len" using \<open>s - 1 < mk * len\<close> by linarith
    then have "Suc (s - 1) mod len = 0" using assms(2) by simp
    then show ?thesis using mod_step [OF len, of "s - 1"] True s by (simp add: chain_start_def)
  qed
next
  case False
  then have len: "0 < len - 1" using chain_low_end [OF assms(1,3) _ assms(2)] by simp
  have "Suc s - 1 - mk * len = Suc (s - 1 - mk * len)" "\<not> Suc s - 1 < mk * len" using False assms(2) by linarith+
  then show ?thesis using mod_step [OF len, of "s - 1 - mk * len"] False unfolding chain_start_def
    by (simp only: if_False) (simp add: numeral_2_eq_2)
qed

lemma chain_pos_step:
  assumes "chain_shape n f len mk" "0 < s" "s < n" "\<not> chain_start len mk s"
  shows "1 < s \<and> chain_pos len mk (s - 1) < chain_pos len mk s"
proof -
  have "chain_start len mk 1" by (simp add: chain_start_def)
  then have "s \<noteq> 1" using assms(4) by blast
  then have s: "1 < s" using assms(2) by simp
  define t where "t = s - 2"
  have st: "s - 1 = Suc t" "s - 1 - 1 = t" using s by (simp_all add: t_def)
  show ?thesis
  proof (cases "s - 1 < mk * len")
    case True
    then have "Suc t mod len \<noteq> 0" using assms(4) st by (simp add: chain_start_def)
    moreover have "chain_pos len mk s = Suc (Suc t mod len)" "chain_pos len mk (s - 1) = Suc (t mod len)"
      using True s unfolding chain_pos_def st by simp_all
    ultimately show ?thesis using s mod_up [of t len] by simp
  next
    case False
    then have n0: "(Suc t - mk * len) mod (len - 1) \<noteq> 0" using assms(4) unfolding chain_start_def st(1) by simp
    then have "mk * len \<le> t" using False st by (cases "mk * len = Suc t") auto
    then have "Suc t - mk * len = Suc (t - mk * len)" by linarith
    moreover have "chain_pos len mk s = Suc ((Suc t - mk * len) mod (len - 1))" "chain_pos len mk (s - 1) = Suc ((t - mk * len) mod (len - 1))"
      using False s \<open>mk * len \<le> t\<close> unfolding chain_pos_def st by simp_all
    ultimately show ?thesis using s n0 mod_up [of "t - mk * len" "len - 1"] by simp
  qed
qed

lemma chain_pos_le: "chain_shape n f len mk \<Longrightarrow> s < n \<Longrightarrow> chain_pos len mk s \<le> len"
proof -
  assume a: "chain_shape n f len mk" "s < n"
  have "0 < len" using a(1) by (simp add: chain_shape_def)
  then have "Suc ((s - 1) mod len) \<le> len" by (simp add: Suc_leI)
  moreover have "Suc ((s - 1 - mk * len) mod (len - 1)) \<le> len" if "\<not> s - 1 < mk * len" "s \<noteq> 0"
    using chain_low_end [OF a that(1)] that(2) mod_less_divisor [of "len - 1" "s - 1 - mk * len"] by linarith
  ultimately show ?thesis by (simp add: chain_pos_def)
qed

lemma chain_rank_tree:
  assumes sh: "chain_shape n f len mk"
  shows "rank_tree n 0 (chain_prev len mk) (chain_nexts n f len mk) (chain_pos len mk)"
proof
  have "1 \<le> chain_head len mk f" using chain_head_mono [of 0 f len mk] by simp
  then show "0 < n" using sh by (simp add: chain_shape_def)
  note st = chain_start_head [OF sh]
  show "chain_prev len mk s < n \<and> s \<in> set (chain_nexts n f len mk (chain_prev len mk s)) \<and> chain_pos len mk (chain_prev len mk s) < chain_pos len mk s"
    if s: "s < n" "s \<noteq> 0" for s
  proof (cases "chain_start len mk s")
    case True
    then have "\<exists>i < f. s = chain_head len mk i" using st s by blast
    then show ?thesis using True s by (auto simp: chain_prev_def chain_nexts_def chain_pos_def)
  next
    case False
    then show ?thesis using chain_pos_step [OF sh, of s] s by (auto simp: chain_prev_def chain_nexts_def)
  qed
  show "c < n \<and> c \<noteq> 0 \<and> chain_prev len mk c = s" if "s < n" "c \<in> set (chain_nexts n f len mk s)" for s c
  proof (cases "s = 0")
    case True
    then have "\<exists>i < f. c = chain_head len mk i" using that by (auto simp: chain_nexts_def)
    then show ?thesis using st [of c] True by (simp add: chain_prev_def)
  qed (use that in \<open>auto simp: chain_nexts_def chain_prev_def split: if_splits\<close>)
  show "distinct (chain_nexts n f len mk s)" for s
  proof -
    have "inj_on (chain_head len mk) (set [0..<f])" using chain_head_less [OF sh] by (intro linorder_inj_onI) fastforce+
    then show ?thesis by (simp add: chain_nexts_def distinct_map)
  qed
qed

text \<open>The heads that the root computes, and the shape that the code chooses.\<close>

lemma wrap_add: "((h + rt) mod n + d) mod n = (h + d + rt) mod (n :: nat)"
  by (metis add.assoc add.commute mod_add_left_eq)

lemma chain_heads_correct:
  assumes "1 \<le> len" "rt < n" "i \<le> f"
  shows "chain_heads (int n) (int len) (int mk) (int ((chain_head len mk i + rt) mod n)) [Suc i..<f] =
    map (\<lambda>c. int ((c + rt) mod n)) (map (chain_head len mk) [Suc i..<f])"
  using assms(3)
proof (induction "f - i" arbitrary: i)
  case (Suc d)
  let ?h = "chain_head len mk i"
  show ?case
  proof (cases "Suc i < f")
    case True
    have "(if int (Suc i) > int mk then int ((?h + rt) mod n) + int len - 1 else int ((?h + rt) mod n) + int len) =
        int ((?h + rt) mod n + (if Suc i > mk then len - 1 else len))" using assms(1) by auto
    moreover have "((?h + rt) mod n + (if Suc i > mk then len - 1 else len)) mod n = (chain_head len mk (Suc i) + rt) mod n"
      unfolding chain_head.simps by (rule wrap_add)
    ultimately have "c_mod (if int (Suc i) > int mk then int ((?h + rt) mod n) + int len - 1 else int ((?h + rt) mod n) + int len) (int n) =
        int ((chain_head len mk (Suc i) + rt) mod n)" by (simp only: c_mod_int)
    then show ?thesis using Suc.hyps(1) [of "Suc i"] Suc.hyps(2) True by (simp add: upt_conv_Cons Let_def del: chain_head.simps)
  qed simp
qed simp

definition chain_len :: "nat \<Rightarrow> nat \<Rightarrow> nat" where
  "chain_len n f = (if (n - 1) mod f = 0 then (n - 1) div f else (n - 1) div f + 1)"

definition chain_mark :: "nat \<Rightarrow> nat \<Rightarrow> nat" where
  "chain_mark n f = (if (n - 1) mod f = 0 then f + 1 else (n - 1) mod f)"

lemma chain_shape_code:
  assumes "1 \<le> f" "f < n"
  shows "chain_shape n f (chain_len n f) (chain_mark n f)"
proof -
  define q e where "q = (n - 1) div f" and "e = (n - 1) mod f"
  have n: "n = 1 + (q * f + e)" using assms by (simp add: q_def e_def)
  have q: "1 \<le> q" using assms by (simp add: q_def div_greater_zero_iff Suc_leI)
  show ?thesis
  proof (cases "e = 0")
    case True
    then have "chain_head q (f + 1) f = n" using n chain_head_low [of f "f + 1" q] by (simp add: mult.commute)
    then show ?thesis using True q assms(1) unfolding chain_len_def chain_mark_def q_def [symmetric] e_def [symmetric] by (simp add: chain_shape_def)
  next
    case False
    have "e < f" using assms(1) by (simp add: e_def)
    then obtain i where f: "f = e + i" by (metis le_iff_add less_imp_le)
    have "chain_head (q + 1) e f = n" unfolding f chain_head_high using n f by (simp add: algebra_simps)
    then show ?thesis using False q assms(1) unfolding chain_len_def chain_mark_def q_def [symmetric] e_def [symmetric] by (simp add: chain_shape_def)
  qed
qed

lemma chain_len_bound:
  assumes "1 \<le> f" "n - 1 \<le> k * f"
  shows "chain_len n f \<le> k"
proof (cases "(n - 1) mod f = 0")
  case True
  then show ?thesis using assms div_le_mono [of "n - 1" "k * f" f] by (simp add: chain_len_def)
next
  case False
  have "(n - 1) div f * f < n - 1" using False div_mult_mod_eq [of "n - 1" f] by linarith
  then have "(n - 1) div f * f < k * f" using assms(2) by linarith
  then show ?thesis using False by (simp add: chain_len_def)
qed

lemma chain_code_rank:
  assumes "1 < f" "f < n" "0 < s" "s < n" and len: "len = chain_len n f" and mk: "mk = chain_mark n f"
  shows "\<not> (s - 1 < mk * len \<and> len = 0 \<or> \<not> s - 1 < mk * len \<and> len = 1)"
    and "s = (if s - 1 < mk * len then 1 + (s - 1) div len * len else mk * len + 1 + (s - 1 - mk * len) div (len - 1) * (len - 1)) \<longleftrightarrow>
      chain_start len mk s"
    and "s = (if s - 1 < mk * len then 1 + (s - 1) div len * len + len - 1
        else mk * len + 1 + (s - 1 - mk * len) div (len - 1) * (len - 1) + (len - 1) - 1) \<longleftrightarrow> chain_start len mk (Suc s)"
proof -
  have sh: "chain_shape n f len mk" unfolding len mk using assms by (intro chain_shape_code) simp_all
  have l: "0 < len" using sh by (simp add: chain_shape_def)
  have l2: "1 < len" if "\<not> s - 1 < mk * len" using chain_low_end [OF sh assms(4) that assms(3)] by simp
  show "\<not> (s - 1 < mk * len \<and> len = 0 \<or> \<not> s - 1 < mk * len \<and> len = 1)" using l l2 by auto
  have a: "s - 1 = (s - 1) div len * len + (s - 1) mod len" by (rule div_mult_mod_eq [symmetric])
  have b: "s - 1 - mk * len = (s - 1 - mk * len) div (len - 1) * (len - 1) + (s - 1 - mk * len) mod (len - 1)" by (rule div_mult_mod_eq [symmetric])
  show "s = (if s - 1 < mk * len then 1 + (s - 1) div len * len else mk * len + 1 + (s - 1 - mk * len) div (len - 1) * (len - 1)) \<longleftrightarrow>
      chain_start len mk s"
  proof (cases "s - 1 < mk * len")
    case True
    then show ?thesis unfolding chain_start_def if_P [OF True] using a assms(3) by linarith
  next
    case False
    then show ?thesis unfolding chain_start_def if_not_P [OF False] using b assms(3) by linarith
  qed
  show "s = (if s - 1 < mk * len then 1 + (s - 1) div len * len + len - 1
        else mk * len + 1 + (s - 1 - mk * len) div (len - 1) * (len - 1) + (len - 1) - 1) \<longleftrightarrow> chain_start len mk (Suc s)"
  proof (cases "s - 1 < mk * len")
    case True
    then show ?thesis unfolding chain_start_step [OF sh assms(3,4)] if_P [OF True] using a assms(3) l by linarith
  next
    case False
    then show ?thesis unfolding chain_start_step [OF sh assms(3,4)] if_not_P [OF False] using b assms(3) l2 [OF False] by linarith
  qed
qed

text \<open>The code at a process other than the root when there is more than one chain.\<close>

lemma chain_code_place:
  assumes "1 < f" "f < n" "0 < s" "s < n" "rt < n" and len: "len = chain_len n f" and mk: "mk = chain_mark n f"
  defines "full \<equiv> int s - 1 < int mk * int len"
  defines "column \<equiv> (if full then c_div (int s - 1) (int len) else int mk + c_div (int s - 1 - int mk * int len) (int len - 1))"
  defines "first \<equiv> (if full then 1 + column * int len else int mk * int len + 1 + (column - int mk) * (int len - 1))"
  defines "l \<equiv> (if full then int len else int len - 1)"
  shows "\<not> (full \<and> int len = 0 \<or> \<not> full \<and> int len = 1)" "int s = first \<longleftrightarrow> chain_start len mk s"
    "int s = first + l - 1 \<longleftrightarrow> chain_start len mk (Suc s)"
proof -
  note code = chain_code_rank [OF assms(1-4) len mk]
  have s1: "int s - 1 = int (s - 1)" using assms(3) by simp
  have fl: "full \<longleftrightarrow> s - 1 < mk * len" unfolding full_def s1 by (metis of_nat_less_iff of_nat_mult)
  show g: "\<not> (full \<and> int len = 0 \<or> \<not> full \<and> int len = 1)" using code(1) unfolding fl by simp
  have h: "first = int (if s - 1 < mk * len then 1 + (s - 1) div len * len else mk * len + 1 + (s - 1 - mk * len) div (len - 1) * (len - 1))"
    and h2: "first + l - 1 = int (if s - 1 < mk * len then 1 + (s - 1) div len * len + len - 1
        else mk * len + 1 + (s - 1 - mk * len) div (len - 1) * (len - 1) + (len - 1) - 1)"
  proof (atomize (full), cases "s - 1 < mk * len")
    case True
    then have "column = int ((s - 1) div len)" unfolding column_def fl s1 by (simp only: if_True c_div_int)
    then have e: "first = int (1 + (s - 1) div len * len)" "l = int len" unfolding first_def l_def fl using True by simp_all
    then show "first = int (if s - 1 < mk * len then 1 + (s - 1) div len * len else mk * len + 1 + (s - 1 - mk * len) div (len - 1) * (len - 1)) \<and>
      first + l - 1 = int (if s - 1 < mk * len then 1 + (s - 1) div len * len + len - 1
        else mk * len + 1 + (s - 1 - mk * len) div (len - 1) * (len - 1) + (len - 1) - 1)" unfolding if_P [OF True] by linarith
  next
    case False
    have l1: "int len - 1 = int (len - 1)" using g False code(1) chain_shape_code [of f n] assms(1,2) unfolding len by (simp add: chain_shape_def)
    have d: "int (s - 1) - int mk * int len = int (s - 1 - mk * len)" using False by (metis not_less of_nat_diff of_nat_mult)
    have "column = int mk + int ((s - 1 - mk * len) div (len - 1))" unfolding column_def fl s1 d l1 using False by (simp only: if_False c_div_int)
    then have e: "first = int (mk * len + 1 + (s - 1 - mk * len) div (len - 1) * (len - 1))" "l = int (len - 1)"
      unfolding first_def l_def fl l1 using False by simp_all
    show "first = int (if s - 1 < mk * len then 1 + (s - 1) div len * len else mk * len + 1 + (s - 1 - mk * len) div (len - 1) * (len - 1)) \<and>
      first + l - 1 = int (if s - 1 < mk * len then 1 + (s - 1) div len * len + len - 1
        else mk * len + 1 + (s - 1 - mk * len) div (len - 1) * (len - 1) + (len - 1) - 1)" unfolding if_not_P [OF False] e by linarith
  qed
  show "int s = first \<longleftrightarrow> chain_start len mk s" unfolding h of_nat_eq_iff by (rule code(2))
  show "int s = first + l - 1 \<longleftrightarrow> chain_start len mk (Suc s)" unfolding h2 of_nat_eq_iff by (rule code(3))
qed

lemma chain_fanout:
  assumes "1 < n" "f = min (nat (max 1 (min fanout (int MAXTREEFANOUT)))) (n - 1)"
  shows "(if int n - 1 < (if (if fanout < 1 then 1 else fanout) > int MAXTREEFANOUT then int MAXTREEFANOUT else if fanout < 1 then 1 else fanout)
      then int n - 1
      else if (if fanout < 1 then 1 else fanout) > int MAXTREEFANOUT then int MAXTREEFANOUT else if fanout < 1 then 1 else fanout) = int f"
    "1 \<le> f" "f < n"
proof -
  define m where "m = max 1 (min fanout (int MAXTREEFANOUT))"
  have m: "(if (if fanout < 1 then 1 else fanout) > int MAXTREEFANOUT then int MAXTREEFANOUT else if fanout < 1 then 1 else fanout) = m"
    by (simp add: m_def MAXTREEFANOUT_def max_def min_def)
  have m1: "1 \<le> m" by (simp add: m_def)
  have f: "f = min (nat m) (n - 1)" by (simp add: assms(2) m_def)
  show "(if int n - 1 < (if (if fanout < 1 then 1 else fanout) > int MAXTREEFANOUT then int MAXTREEFANOUT else if fanout < 1 then 1 else fanout)
      then int n - 1
      else if (if fanout < 1 then 1 else fanout) > int MAXTREEFANOUT then int MAXTREEFANOUT else if fanout < 1 then 1 else fanout) = int f"
    unfolding m f using assms(1) m1 by (simp add: min_def) linarith
  have "f \<le> n - 1" by (simp add: f)
  then show "f < n" using assms(1) by linarith
  have "1 \<le> nat m" using m1 by (simp add: le_nat_iff)
  then show "1 \<le> f" using assms(1) unfolding f by (simp add: min_def) linarith
qed

lemma chain_code_len:
  assumes "1 \<le> f" "1 < n"
  shows "(if c_mod (int n - 1) (int f) = 0 then c_div (int n - 1) (int f) else c_div (int n - 1) (int f) + 1) = int (chain_len n f)"
    "(if c_mod (int n - 1) (int f) = 0 then int f + 1 else c_mod (int n - 1) (int f)) = int (chain_mark n f)"
proof -
  have "int n - 1 = int (n - 1)" using assms by simp
  then have "c_mod (int n - 1) (int f) = int ((n - 1) mod f)" "c_div (int n - 1) (int f) = int ((n - 1) div f)" by (simp_all only: c_mod_int c_div_int)
  then show "(if c_mod (int n - 1) (int f) = 0 then c_div (int n - 1) (int f) else c_div (int n - 1) (int f) + 1) = int (chain_len n f)"
    "(if c_mod (int n - 1) (int f) = 0 then int f + 1 else c_mod (int n - 1) (int f)) = int (chain_mark n f)"
    by (simp_all add: chain_len_def chain_mark_def)
qed

text \<open>One chain is the pipeline.\<close>

lemma chain_single:
  assumes "1 < n" "s < n"
  shows "chain_nexts n 1 (chain_len n 1) (chain_mark n 1) s = (if s + 1 < n then [s + 1] else [])"
    "s \<noteq> 0 \<Longrightarrow> chain_prev (chain_len n 1) (chain_mark n 1) s = s - 1"
proof -
  have e: "chain_len n 1 = n - 1" "chain_mark n 1 = 2" by (simp_all add: chain_len_def chain_mark_def)
  have "chain_start (n - 1) 2 (Suc t) \<longleftrightarrow> t = 0" if "t < n - 1" for t using that by (simp add: chain_start_def)
  then show "chain_nexts n 1 (chain_len n 1) (chain_mark n 1) s = (if s + 1 < n then [s + 1] else [])"
    using assms unfolding e by (auto simp: chain_nexts_def)
  have "chain_start (n - 1) 2 s \<longleftrightarrow> s - 1 = 0" if "s \<noteq> 0"
    using \<open>\<And>t. t < n - 1 \<Longrightarrow> chain_start (n - 1) 2 (Suc t) \<longleftrightarrow> t = 0\<close> [of "s - 1"] that assms by simp
  then show "chain_prev (chain_len n 1) (chain_mark n 1) s = s - 1" if "s \<noteq> 0" using that unfolding e chain_prev_def by simp
qed

lemma chain_code:
  assumes "1 < n" "rt < n" "r < n" "ompi_comm_size comm = int n"
    and f: "f = min (nat (max 1 (min fanout (int MAXTREEFANOUT)))) (n - 1)" and s: "s = (r + n - rt) mod n"
  shows "\<exists>t. ompi_coll_base_topo_build_chain fanout (at_rank comm r) (int rt) = Ok (Some t) \<and> tree_root t = int rt \<and>
      tree_next t = map (\<lambda>c. int ((c + rt) mod n)) (chain_nexts n f (chain_len n f) (chain_mark n f) s) \<and>
      (s \<noteq> 0 \<longrightarrow> tree_prev t = Some (int ((chain_prev (chain_len n f) (chain_mark n f) s + rt) mod n)))"
proof -
  note fo = chain_fanout [OF assms(1) f]
  have sn: "s < n" using assms(3) by (simp add: s)
  have sh: "(if int r - int rt < 0 then int r - int rt + int n else int r - int rt) = int s" using shift_rank(1) [OF assms(3,2)] by (simp add: s)
  let ?len = "chain_len n f" and ?mk = "chain_mark n f"
  note code = ompi_coll_base_topo_build_chain_def Let_def at_rank_simps assms(4) sh fo(1)
  have up: "c_mod (int s + 1 + int rt) (int n) = int ((s + 1 + rt) mod n)" using unshift [of "s + 1" rt n] by (simp add: add.commute [of 1])
  have down: "c_mod (int s - 1 + int rt) (int n) = int ((s - 1 + rt) mod n)" if "s \<noteq> 0" using unshift [of "s - 1" rt n] that by simp
  have zero: "c_mod (0 + int rt) (int n) = int ((0 + rt) mod n)" using unshift [of 0 rt n] by simp
  consider (one) "f = 1" | (head) "f \<noteq> 1" "s = 0" | (other) "f \<noteq> 1" "s \<noteq> 0" by blast
  then show ?thesis
  proof cases
    case one
    then show ?thesis unfolding code using chain_single [OF assms(1) sn] up down by (auto simp: add.commute)
  next
    case head
    have x: "c_mod (int rt + 1) (int n) = int ((chain_head ?len ?mk 0 + rt) mod n)" using unshift [of 1 rt n] by (simp add: add.commute)
    have "1 \<le> ?len" using chain_shape_code [OF fo(2,3)] by (simp add: chain_shape_def)
    from chain_heads_correct [OF this assms(2), of 0 f ?mk] fo(2)
    have hs: "chain_heads (int n) (int ?len) (int ?mk) (int ((chain_head ?len ?mk 0 + rt) mod n)) [1..<nat (int f)] =
        map (\<lambda>c. int ((c + rt) mod n)) (map (chain_head ?len ?mk) [1..<f])" by (simp del: chain_head.simps)
    have c: "(int f = 1) = False" "(int n = 1) = False" "(int f = 0) = False" "(int s \<noteq> 0) = False" using head assms(1) fo(2) by simp_all
    show ?thesis unfolding code chain_code_len [OF fo(2) assms(1)] c if_True if_False x hs
      using head fo(2) by (simp add: chain_nexts_def upt_conv_Cons [of 0 f] del: chain_head.simps)
  next
    case other
    have "1 < f" "0 < s" using other fo(2) by simp_all
    note place = chain_code_place [OF this(1) fo(3) this(2) sn assms(2) refl refl]
    have c: "(int f = 1) = False" "(int n = 1) = False" "(int f = 0) = False" "(int s \<noteq> 0) = True" using other assms(1) fo(2) by simp_all
    show ?thesis unfolding code chain_code_len [OF fo(2) assms(1)] c if_True if_False if_not_P [OF place(1)] place(2,3)
      using other sn up down zero by (auto simp: chain_nexts_def chain_prev_def)
  qed
qed

theorem build_chain_spans:
  assumes "n - 1 \<le> k * nat (max 1 (min fanout (int MAXTREEFANOUT)))" "ompi_comm_size comm = int n" "rt < n"
  shows "builds_tree (\<lambda>c. ompi_coll_base_topo_build_chain fanout c (int rt)) comm rt k"
proof (cases "1 < n")
  case True
  define f where "f = min (nat (max 1 (min fanout (int MAXTREEFANOUT)))) (n - 1)"
  note fo = chain_fanout [OF True f_def]
  have sh: "chain_shape n f (chain_len n f) (chain_mark n f)" using fo(2,3) by (rule chain_shape_code)
  have "n - 1 \<le> k * f"
  proof (cases "nat (max 1 (min fanout (int MAXTREEFANOUT))) \<le> n - 1")
    case True
    then have "f = nat (max 1 (min fanout (int MAXTREEFANOUT)))" unfolding f_def by (rule min_absorb1)
    then show ?thesis using assms(1) by (simp only:)
  next
    case False
    then have "f = n - 1" unfolding f_def by (intro min_absorb2) (rule nat_le_linear [THEN disjE], simp_all only: simp_thms)
    moreover have "0 < k" using assms(1) \<open>1 < n\<close> by (cases k) simp_all
    ultimately show ?thesis by simp
  qed
  then have "chain_len n f \<le> k" using fo(2) by (intro chain_len_bound)
  then show ?thesis using chain_code [OF True assms(3) _ assms(2) f_def refl]
    by (intro rotated_tree [OF chain_rank_tree [OF sh] assms(3,2)]) (auto intro: order_trans [OF chain_pos_le [OF sh]])
next
  case False
  then have n: "n = 1" "rt = 0" using assms(3) by simp_all
  have "rank_tree n 0 (\<lambda>s. 0) (\<lambda>s. []) (\<lambda>s. 0)" by unfold_locales (simp_all add: n)
  then show ?thesis
  proof (rule rotated_tree [OF _ assms(3,2)])
    fix r assume "r < n"
    then have "r = 0" using n by simp
    then show "\<exists>t. ompi_coll_base_topo_build_chain fanout (at_rank comm r) (int rt) = Ok (Some t) \<and> tree_root t = int rt \<and>
        tree_next t = map (\<lambda>c. int ((c + rt) mod n)) [] \<and> ((r + n - rt) mod n \<noteq> 0 \<longrightarrow> tree_prev t = Some (int ((0 + rt) mod n)))"
      unfolding ompi_coll_base_topo_build_chain_def Let_def at_rank_simps assms(2) n by (simp add: MAXTREEFANOUT_def)
  qed simp
qed

interpretation chains: rank_tree "f + m + 2" 0 "chain_prev (chain_len (f + m + 2) (f + 1)) (chain_mark (f + m + 2) (f + 1))"
    "chain_nexts (f + m + 2) (f + 1) (chain_len (f + m + 2) (f + 1)) (chain_mark (f + m + 2) (f + 1))"
    "chain_pos (chain_len (f + m + 2) (f + 1)) (chain_mark (f + m + 2) (f + 1))" for f m
  by (rule chain_rank_tree, rule chain_shape_code) simp_all

end
