(* ===== verification/TreeInOrder.thy ===== *)
theory TreeInOrder
  imports TreeViews
begin

text \<open>
  The in-order binary tree (\<^verbatim>\<open>ompi_coll_base_topo_build_in_order_bintree\<close>). Each subtree has a range of consecutive ranks, so that
  a reduction along the tree combines the values in the order of the ranks.
\<close>

unbundle bit_operations_syntax

section \<open>The in-order binary tree\<close>

text \<open>
  The tree on \<open>m\<close> consecutive ranks has the last of them as its root. Its right subtree has the first half of the ranks, its
  left subtree the others.
\<close>

fun in_prev :: "nat \<Rightarrow> nat \<Rightarrow> nat" where
  "in_prev m x = (if m \<le> 2 then 1
     else if x < m div 2 then if x = m div 2 - 1 then m - 1 else in_prev (m div 2) x
     else if x = m - 2 then m - 1 else in_prev (m - m div 2 - 1) (x - m div 2) + m div 2)"

fun in_next :: "nat \<Rightarrow> nat \<Rightarrow> nat list" where
  "in_next m x = (if x = m - 1 then if m \<le> 1 then [] else if m = 2 then [0] else [m - 2, m div 2 - 1]
     else if m \<le> 2 then []
     else if x < m div 2 then in_next (m div 2) x
     else map (\<lambda>c. c + m div 2) (in_next (m - m div 2 - 1) (x - m div 2)))"

fun in_depth :: "nat \<Rightarrow> nat \<Rightarrow> nat" where
  "in_depth m x = (if x = m - 1 then 0 else if m \<le> 2 then 1
     else if x < m div 2 then Suc (in_depth (m div 2) x) else Suc (in_depth (m - m div 2 - 1) (x - m div 2)))"

declare in_prev.simps [simp del] in_next.simps [simp del] in_depth.simps [simp del]

text \<open>The equations by cases.\<close>

lemma in_root: "in_next 1 0 = []" "in_next 2 1 = [0]" "2 < m \<Longrightarrow> in_next m (m - 1) = [m - 2, m div 2 - 1]" "in_depth m (m - 1) = 0"
  by (simp_all add: in_next.simps in_depth.simps)

lemma in_two: "in_prev 2 0 = 1" "in_next 2 0 = []" "in_depth 2 0 = 1"
  by (simp_all add: in_prev.simps in_next.simps in_depth.simps)

lemma in_low:
  assumes "2 < m" "x < m div 2"
  shows "in_prev m x = (if x = m div 2 - 1 then m - 1 else in_prev (m div 2) x)" "in_next m x = in_next (m div 2) x"
    "in_depth m x = Suc (in_depth (m div 2) x)"
proof -
  have "x \<noteq> m - 1" using assms by linarith
  then show "in_prev m x = (if x = m div 2 - 1 then m - 1 else in_prev (m div 2) x)" "in_next m x = in_next (m div 2) x"
    "in_depth m x = Suc (in_depth (m div 2) x)"
    using assms by (simp_all add: in_prev.simps [of m] in_next.simps [of m] in_depth.simps [of m])
qed

lemma in_high:
  assumes "2 < m" "m div 2 \<le> x" "x < m - 1"
  shows "in_prev m x = (if x = m - 2 then m - 1 else in_prev (m - m div 2 - 1) (x - m div 2) + m div 2)"
    "in_next m x = map (\<lambda>c. c + m div 2) (in_next (m - m div 2 - 1) (x - m div 2))"
    "in_depth m x = Suc (in_depth (m - m div 2 - 1) (x - m div 2))"
  using assms by (simp_all add: in_prev.simps [of m] in_next.simps [of m] in_depth.simps [of m])

text \<open>An element of the tree is the root, or in a tree of two ranks, or in one of the subtrees.\<close>

lemma in_cases [consumes 1, case_names root two low high]:
  assumes "x < (m :: nat)"
  obtains "x = m - 1" | "m = 2" "x = 0" | "2 < m" "x < m div 2" | "2 < m" "m div 2 \<le> x" "x < m - 1"
proof -
  consider "x = m - 1" | "m = 2" "x = 0" | "2 < m" "x < m div 2" | "2 < m" "m div 2 \<le> x" "x < m - 1" using assms by linarith
  then show thesis using that by cases
qed

lemma in_high_sizes:
  assumes "2 < m" "m div 2 \<le> x" "x < (m :: nat) - 1"
  shows "m - m div 2 - 1 < m" "x - m div 2 < m - m div 2 - 1"
  using assms by linarith+

lemma in_prev_above: "x < m - 1 \<Longrightarrow> x < in_prev m x \<and> in_prev m x < m"
proof (induction m arbitrary: x rule: less_induct)
  case (less m)
  from less.prems have "x < m" by simp
  then show ?case
  proof (cases rule: in_cases)
    case low
    show ?thesis
    proof (cases "x = m div 2 - 1")
      case False
      then have "x < in_prev (m div 2) x \<and> in_prev (m div 2) x < m div 2" using low by (intro less.IH) simp_all
      then show ?thesis using low unfolding in_low(1) [OF low] if_not_P [OF False] by linarith
    qed (use low in \<open>simp add: in_low\<close>)
  next
    case high
    let ?m = "m - m div 2 - 1" and ?x = "x - m div 2"
    show ?thesis
    proof (cases "x = m - 2")
      case False
      then have "?x < in_prev ?m ?x \<and> in_prev ?m ?x < ?m" using high by (intro less.IH) linarith+
      then show ?thesis using high unfolding in_high(1) [OF high] if_not_P [OF False] by linarith
    qed (use high in \<open>simp add: in_high\<close>)
  qed (use less.prems in \<open>simp_all add: in_two\<close>)
qed

lemma in_next_below: "x < m \<Longrightarrow> c \<in> set (in_next m x) \<Longrightarrow> c < x \<and> in_prev m c = x"
proof (induction m arbitrary: x c rule: less_induct)
  case (less m)
  from less.prems(1) show ?case
  proof (cases rule: in_cases)
    case root
    consider "m = 1" | "m = 2" | "2 < m" using less.prems by linarith
    then show ?thesis
    proof cases
      assume m: "2 < m"
      then have "c = m - 2 \<or> c = m div 2 - 1" using less.prems(2) unfolding root in_root(3) [OF m] by simp
      then show ?thesis
      proof
        assume "c = m - 2"
        moreover have "m div 2 \<le> m - 2" "m - 2 < m - 1" using m by linarith+
        ultimately show ?thesis using in_high(1) [OF m, of c] root by simp
      next
        assume "c = m div 2 - 1"
        moreover have "m div 2 - 1 < m div 2" "m div 2 - 1 < m - 1" using m by linarith+
        ultimately show ?thesis using in_low(1) [OF m, of c] root by simp
      qed
    qed (use less.prems root in \<open>simp_all add: in_root [simplified] in_two\<close>)
  next
    case low
    have "c < x \<and> in_prev (m div 2) c = x" using less.prems(2) low by (intro less.IH) (simp_all add: in_low)
    moreover have "c < m div 2" "c \<noteq> m div 2 - 1" using calculation low by linarith+
    ultimately show ?thesis using low by (simp add: in_low)
  next
    case high
    let ?m = "m - m div 2 - 1" and ?x = "x - m div 2"
    obtain c' where c: "c = c' + m div 2" "c' \<in> set (in_next ?m ?x)" using less.prems(2) unfolding in_high(2) [OF high] by auto
    have below: "c' < ?x" "in_prev ?m c' = ?x" using less.IH [OF in_high_sizes [OF high] c(2)] by blast+
    have "c < x" using below(1) unfolding c(1) by (simp only: less_diff_conv)
    moreover have "m div 2 \<le> c" "c - m div 2 = c'" "?x + m div 2 = x" using high by (simp_all add: c(1))
    moreover have "c < m - 1" "c \<noteq> m - 2" using \<open>c < x\<close> high(3) by linarith+
    ultimately show ?thesis using in_high(1) [OF high(1), of c] below(2) by simp
  qed (use less.prems in \<open>simp_all add: in_two\<close>)
qed

lemma in_next_prev: "x < m - 1 \<Longrightarrow> x \<in> set (in_next m (in_prev m x)) \<and> in_depth m (in_prev m x) < in_depth m x"
proof (induction m arbitrary: x rule: less_induct)
  case (less m)
  from less.prems have "x < m" by simp
  then show ?case
  proof (cases rule: in_cases)
    case two
    then show ?thesis by (simp add: in_root [simplified] in_two in_root(4) [of 2, simplified])
  next
    case low
    show ?thesis
    proof (cases "x = m div 2 - 1")
      case True
      then show ?thesis using low by (simp add: in_low in_root [simplified])
    next
      case False
      then have x: "x < m div 2 - 1" using low by simp
      have "in_prev (m div 2) x < m div 2" using in_prev_above [OF x] by simp
      moreover have "x \<in> set (in_next (m div 2) (in_prev (m div 2) x)) \<and> in_depth (m div 2) (in_prev (m div 2) x) < in_depth (m div 2) x"
        using low x by (intro less.IH) simp_all
      ultimately show ?thesis using low False by (simp add: in_low)
    qed
  next
    case high
    let ?m = "m - m div 2 - 1" and ?x = "x - m div 2"
    show ?thesis
    proof (cases "x = m - 2")
      case True
      then show ?thesis using high by (simp add: in_high in_root [simplified])
    next
      case False
      then have x: "?x < ?m - 1" using high by linarith
      have "in_prev ?m ?x < ?m" using in_prev_above [OF x] by simp
      then have p: "m div 2 \<le> in_prev ?m ?x + m div 2" "in_prev ?m ?x + m div 2 < m - 1" by linarith+
      have "?x \<in> set (in_next ?m (in_prev ?m ?x)) \<and> in_depth ?m (in_prev ?m ?x) < in_depth ?m ?x" using high x by (intro less.IH) linarith+
      moreover have "x = ?x + m div 2" using high by simp
      ultimately show ?thesis unfolding in_high(1) [OF high] if_not_P [OF False] in_high [OF high(1) p] in_high(3) [OF high] by auto
    qed
  qed (use less.prems in simp)
qed

lemma in_next_distinct: "x < m \<Longrightarrow> distinct (in_next m x)"
proof (induction m arbitrary: x rule: less_induct)
  case (less m)
  from less.prems(1) show ?case
  proof (cases rule: in_cases)
    case root
    consider "m = 1" | "m = 2" | "2 < m" using less.prems by linarith
    then show ?thesis unfolding root by cases (auto simp: in_root(3) in_root [simplified])
  next
    case low
    then show ?thesis using less.IH [of "m div 2" x] by (simp add: in_low)
  next
    case high
    then have "distinct (in_next (m - m div 2 - 1) (x - m div 2))" by (intro less.IH) linarith+
    then show ?thesis using high by (simp add: in_high distinct_map)
  qed (simp add: in_two)
qed

lemma in_depth_bound: "x < m \<Longrightarrow> m < 2 ^ Suc k \<Longrightarrow> in_depth m x \<le> k"
proof (induction k arbitrary: m x)
  case 0
  then show ?case by (simp add: in_depth.simps)
next
  case (Suc k)
  from Suc.prems(1) show ?case
  proof (cases rule: in_cases)
    case low
    then show ?thesis using Suc.IH [of x "m div 2"] Suc.prems(2) by (simp add: in_low)
  next
    case high
    then have "in_depth (m - m div 2 - 1) (x - m div 2) \<le> k" using Suc.prems(2) by (intro Suc.IH in_high_sizes) simp_all
    then show ?thesis using high by (simp add: in_high)
  next
    case root
    then show ?thesis unfolding root in_root(4) by simp
  qed (simp add: in_two)
qed

lemma in_order_rank_tree:
  assumes "0 < n"
  shows "rank_tree n (n - 1) (in_prev n) (in_next n) (in_depth n)"
proof
  show "n - 1 < n" using assms by simp
  show "in_prev n r < n \<and> r \<in> set (in_next n (in_prev n r)) \<and> in_depth n (in_prev n r) < in_depth n r" if "r < n" "r \<noteq> n - 1" for r
  proof -
    have "r < n - 1" using that by simp
    then show ?thesis using in_prev_above [of r n] in_next_prev [of r n] by blast
  qed
  show "c < n \<and> c \<noteq> n - 1 \<and> in_prev n c = r" if "r < n" "c \<in> set (in_next n r)" for r c
    using in_next_below [OF that] that(1) by linarith
  show "distinct (in_next n r)" if "r < n" for r using that by (rule in_next_distinct)
qed

text \<open>The loop of the code ends at the root of the subtree of the process.\<close>

fun in_order_result :: "int \<times> int \<times> int \<times> int \<times> int \<Rightarrow> int \<times> int list" where
  "in_order_result (m, x, parent, delta, prev) =
     (prev, let next0 = (if in_order_lchild m parent \<ge> 0 then in_order_lchild m parent + delta else - 1);
                next1 = (if in_order_rchild m parent \<ge> 0 then in_order_rchild m parent + delta else - 1) in
        take ((if next0 \<ge> 0 then 1 else 0) + (if next1 \<ge> 0 then 1 else 0)) [next0, next1])"

declare in_order_result.simps [simp del]

definition in_order_loop :: "int \<times> int \<times> int \<times> int \<times> int \<Rightarrow> (int \<times> int \<times> int \<times> int \<times> int) option" where
  "in_order_loop = while_option (\<lambda>(commsize, myrank, parent, delta, prev). myrank \<noteq> parent) in_order_step"

lemma in_order_loop_unfold: "in_order_loop (m, x, p, d, q) = (if x \<noteq> p then in_order_loop (in_order_step (m, x, p, d, q)) else Some (m, x, p, d, q))"
  unfolding in_order_loop_def by (subst while_option_unfold) simp

lemma in_order_loop_correct:
  "x < m \<Longrightarrow> \<exists>e. in_order_loop (int m, int x, int m - 1, int d, q) = Some e \<and>
     in_order_result e = (if x = m - 1 then q else int (in_prev m x + d), map (\<lambda>c. int (c + d)) (in_next m x))"
proof (induction m arbitrary: x d q rule: less_induct)
  case (less m)
  from less.prems show ?case
  proof (cases rule: in_cases)
    case root
    then have l: "in_order_loop (int m, int x, int m - 1, int d, q) = Some (int m, int x, int m - 1, int d, q)"
      using less.prems by (subst in_order_loop_unfold) simp
    consider "m = 1" | "m = 2" | "2 < m" using less.prems by linarith
    then have "in_order_result (int m, int x, int m - 1, int d, q) = (q, map (\<lambda>c. int (c + d)) (in_next m x))"
    proof cases
      assume m: "2 < m"
      have "drop_bit (Suc 0) (int m) = int (m div 2)" by (simp add: drop_bit_eq_div)
      then show ?thesis using m unfolding root in_root(3) [OF m] by (simp add: in_order_result.simps in_order_lchild_def in_order_rchild_def of_nat_diff)
    qed (use root in \<open>simp_all add: in_order_result.simps in_root [simplified] in_order_lchild_def in_order_rchild_def\<close>)
    then show ?thesis using l unfolding if_P [OF root] by blast
  next
    case two
    have "in_order_loop (int m, int x, int m - 1, int d, q) = in_order_loop (0, - 1, - 1, int d + 1, 1 + int d)"
      by (subst in_order_loop_unfold) (simp add: two Let_def in_order_lchild_def in_order_rchild_def drop_bit_eq_div)
    also have "in_order_loop (0, - 1, - 1, int d + 1, 1 + int d) = Some (0, - 1, - 1, int d + 1, 1 + int d)"
      by (subst in_order_loop_unfold) simp
    finally have l: "in_order_loop (int m, int x, int m - 1, int d, q) = Some (0, - 1, - 1, int d + 1, 1 + int d)" .
    have "in_order_result (0, - 1, - 1, int d + 1, 1 + int d) = (if x = m - 1 then q else int (in_prev m x + d), map (\<lambda>c. int (c + d)) (in_next m x))"
      by (simp add: in_order_result.simps in_order_lchild_def in_order_rchild_def two in_two)
    with l show ?thesis by blast
  next
    case low
    have ne: "int x \<noteq> int m - 1" using low by linarith
    have r: "drop_bit (Suc 0) (int m) = int (m div 2)" by (simp add: drop_bit_eq_div)
    have rc: "in_order_rchild (int m) (int m - 1) = int (m div 2) - 1" "\<not> int x > int (m div 2) - 1"
      using low by (simp_all add: in_order_lchild_def in_order_rchild_def r)
    let ?q = "if int x = int (m div 2) - 1 then int m - 1 + int d else q"
    have "in_order_loop (int m, int x, int m - 1, int d, q) = in_order_loop (int (m div 2), int x, int (m div 2) - 1, int d, ?q)"
      by (subst in_order_loop_unfold) (use ne rc in \<open>simp add: Let_def r\<close>)
    moreover obtain e where "in_order_loop (int (m div 2), int x, int (m div 2) - 1, int d, ?q) = Some e"
      "in_order_result e = (if x = m div 2 - 1 then ?q else int (in_prev (m div 2) x + d), map (\<lambda>c. int (c + d)) (in_next (m div 2) x))"
      using less.IH [of "m div 2" x d ?q] low by auto
    moreover have "x \<noteq> m - 1" "x = m div 2 - 1 \<Longrightarrow> int x = int (m div 2) - 1" "int (m - 1 + d) = int m - 1 + int d" using low by linarith+
    ultimately show ?thesis using low by (intro exI [of _ e]) (simp add: in_low)
  next
    case high
    let ?m = "m - m div 2 - 1" and ?x = "x - m div 2"
    have ne: "int x \<noteq> int m - 1" using high by linarith
    have r: "drop_bit (Suc 0) (int m) = int (m div 2)" by (simp add: drop_bit_eq_div)
    have rc: "in_order_rchild (int m) (int m - 1) = int (m div 2) - 1" "int x > int (m div 2) - 1" "in_order_lchild (int m) (int m - 1) = int m - 2"
      using high by (simp_all add: in_order_lchild_def in_order_rchild_def r)
    have i: "int m - int (m div 2) - 1 = int ?m" "int x - int (m div 2) = int ?x" using high by linarith+
    let ?q = "if int x = int m - 2 then int m - 1 + int d else q"
    have "in_order_loop (int m, int x, int m - 1, int d, q) =
        in_order_loop (int m - int (m div 2) - 1, int x - int (m div 2), int m - int (m div 2) - 1 - 1, int d + int (m div 2), ?q)"
      by (subst in_order_loop_unfold) (use ne rc in \<open>simp add: Let_def r\<close>)
    then have "in_order_loop (int m, int x, int m - 1, int d, q) = in_order_loop (int ?m, int ?x, int ?m - 1, int (d + m div 2), ?q)"
      unfolding i of_nat_add .
    moreover have lt: "?m < m" "?x < ?m" using high by linarith+
    from less.IH [OF lt, of "d + m div 2" ?q] obtain e where "in_order_loop (int ?m, int ?x, int ?m - 1, int (d + m div 2), ?q) = Some e"
      "in_order_result e = (if ?x = ?m - 1 then ?q else int (in_prev ?m ?x + (d + m div 2)), map (\<lambda>c. int (c + (d + m div 2))) (in_next ?m ?x))"
      by blast
    moreover have "(if ?x = ?m - 1 then ?q else int (in_prev ?m ?x + (d + m div 2))) = (if x = m - 1 then q else int (in_prev m x + d))"
    proof (cases "x = m - 2")
      case True
      then have "?x = ?m - 1" "int x = int m - 2" "x \<noteq> m - 1" using high by linarith+
      then show ?thesis unfolding in_high(1) [OF high] if_P [OF True] using high by simp
    next
      case False
      then have "?x \<noteq> ?m - 1" "x \<noteq> m - 1" using high by linarith+
      then show ?thesis unfolding in_high(1) [OF high] if_not_P [OF False] by simp
    qed
    moreover have "map (\<lambda>c. int (c + (d + m div 2))) (in_next ?m ?x) = map (\<lambda>c. int (c + d)) (in_next m x)"
      unfolding in_high(2) [OF high] map_map o_def by (simp add: add.commute add.left_commute)
    ultimately have "in_order_loop (int m, int x, int m - 1, int d, q) = Some e"
      "in_order_result e = (if x = m - 1 then q else int (in_prev m x + d), map (\<lambda>c. int (c + d)) (in_next m x))" by (simp_all only:)
    then show ?thesis by blast
  qed
qed

lemma in_order_built:
  assumes "0 < n" "ompi_comm_size comm = int n"
  obtains t where "\<And>r. r < n \<Longrightarrow> ompi_coll_base_topo_build_in_order_bintree (at_rank comm r) = Ok (Some (t r))"
    "\<And>r. r < n \<Longrightarrow> tree_root (t r) = int (n - 1) \<and> tree_next (t r) = map int (in_next n r)"
    "\<And>r. r < n \<Longrightarrow> r \<noteq> n - 1 \<Longrightarrow> tree_prev (t r) = Some (int (in_prev n r))"
proof -
  have "\<exists>t. \<forall>r < n. ompi_coll_base_topo_build_in_order_bintree (at_rank comm r) = Ok (Some (t r)) \<and> tree_root (t r) = int (n - 1) \<and>
      tree_next (t r) = map int (in_next n r) \<and> (r \<noteq> n - 1 \<longrightarrow> tree_prev (t r) = Some (int (in_prev n r)))"
  proof (rule choice, rule allI)
    fix r
    show "\<exists>t. r < n \<longrightarrow> ompi_coll_base_topo_build_in_order_bintree (at_rank comm r) = Ok (Some t) \<and> tree_root t = int (n - 1) \<and>
        tree_next t = map int (in_next n r) \<and> (r \<noteq> n - 1 \<longrightarrow> tree_prev t = Some (int (in_prev n r)))"
    proof (cases "r < n")
      case True
      obtain m x p d q where e: "in_order_loop (int n, int r, int n - 1, 0, - 1) = Some (m, x, p, d, q)"
        "in_order_result (m, x, p, d, q) = (if r = n - 1 then - 1 else int (in_prev n r), map int (in_next n r))"
        using in_order_loop_correct [OF True, of 0 "- 1"] by auto
      then show ?thesis using assms(1)
        unfolding ompi_coll_base_topo_build_in_order_bintree_def Let_def at_rank_simps assms(2) ends_def in_order_loop_def [symmetric] e(1)
        by (auto simp: Let_def in_order_result.simps)
    qed simp
  qed
  then show thesis using that by blast
qed

theorem build_in_order_bintree_spans:
  assumes "0 < n" "n < 2 ^ Suc k" "ompi_comm_size comm = int n"
  shows "builds_tree ompi_coll_base_topo_build_in_order_bintree comm (n - 1) k"
proof -
  from in_order_built [OF assms(1,3)] obtain t where t: "\<And>r. r < n \<Longrightarrow> ompi_coll_base_topo_build_in_order_bintree (at_rank comm r) = Ok (Some (t r))"
    "\<And>r. r < n \<Longrightarrow> tree_root (t r) = int (n - 1) \<and> tree_next (t r) = map int (in_next n r)"
    "\<And>r. r < n \<Longrightarrow> r \<noteq> n - 1 \<Longrightarrow> tree_prev (t r) = Some (int (in_prev n r))" by blast
  have "spans n (n - 1) k t" using t(2,3) in_depth_bound assms(2)
    by (intro spans_of_rank_tree [OF in_order_rank_tree [OF assms(1)]]) simp_all
  then show ?thesis using t(1) assms(3) unfolding builds_tree_def by auto
qed

section \<open>Reductions along the in-order tree\<close>

text \<open>
  A reduction along a tree: a process starts with its own value and combines the result of each of its children, in the
  order of its list, from the left. \<open>in_line\<close> is the reduction in the order of the ranks.
\<close>

primrec tree_reduce :: "('a \<Rightarrow> 'a \<Rightarrow> 'a) \<Rightarrow> (nat \<Rightarrow> 'a) \<Rightarrow> (nat \<Rightarrow> nat list) \<Rightarrow> nat \<Rightarrow> nat \<Rightarrow> 'a" where
  "tree_reduce f v nxt 0 r = v r"
| "tree_reduce f v nxt (Suc k) r = fold (\<lambda>c acc. f (tree_reduce f v nxt k c) acc) (nxt r) (v r)"

primrec in_line :: "('a \<Rightarrow> 'a \<Rightarrow> 'a) \<Rightarrow> (nat \<Rightarrow> 'a) \<Rightarrow> nat \<Rightarrow> nat \<Rightarrow> 'a" where
  "in_line f v d 0 = v d"
| "in_line f v d (Suc j) = f (in_line f v d j) (v (d + Suc j))"

lemma in_line_append:
  assumes "\<And>x y z. f (f x y) z = f x (f y z)"
  shows "f (in_line f v d i) (in_line f v (d + Suc i) j) = in_line f v d (Suc (i + j))"
  by (induction j) (simp_all add: assms [symmetric] add.assoc)

lemma tree_reduce_in_order:
  assumes "\<And>x y z. f (f x y) z = f x (f y z)"
  shows "0 < m \<Longrightarrow> m < 2 ^ Suc k \<Longrightarrow> (\<And>x. x < m \<Longrightarrow> nxt (x + d) = map (\<lambda>c. c + d) (in_next m x)) \<Longrightarrow>
    tree_reduce f v nxt k (m - 1 + d) = in_line f v d (m - 1)"
proof (induction k arbitrary: m d)
  case 0
  then show ?case by simp
next
  case (Suc k)
  consider "m = 1" | "m = 2" | "2 < m" using Suc.prems(1) by linarith
  then show ?case
  proof cases
    assume m: "m = 1"
    then show ?thesis using Suc.prems(3) [of 0] by (simp add: in_root [simplified])
  next
    assume m: "m = 2"
    then have "nxt (1 + d) = [d]" "nxt d = []" using Suc.prems(3) [of 1] Suc.prems(3) [of 0] by (simp_all add: in_root [simplified] in_two)
    then show ?thesis using m by (cases k) simp_all
  next
    assume m: "2 < m"
    define h ml where "h = m div 2" and "ml = m - m div 2 - 1"
    have hl: "0 < h" "0 < ml" "h < 2 ^ Suc k" "ml < 2 ^ Suc k" "h < m" "m = h + ml + 1" using m Suc.prems(2) by (simp_all add: h_def ml_def)
    have nl: "nxt (x + d) = map (\<lambda>c. c + d) (in_next h x)" if "x < h" for x
      using Suc.prems(3) [of x] that hl(5) m by (simp add: h_def in_low)
    have low: "tree_reduce f v nxt k (h - 1 + d) = in_line f v d (h - 1)" by (rule Suc.IH [OF hl(1,3) nl])
    have nh: "nxt (x + (d + h)) = map (\<lambda>c. c + (d + h)) (in_next ml x)" if "x < ml" for x
    proof -
      have x: "m div 2 \<le> x + h" "x + h < m - 1" "x + h < m" "x + h - m div 2 = x" using that hl(6) unfolding h_def [symmetric] by linarith+
      have "nxt (x + h + d) = map (\<lambda>c. c + d) (map (\<lambda>c. c + h) (in_next ml x))"
        using Suc.prems(3) [OF x(3)] in_high(2) [OF m x(1,2), folded ml_def, unfolded x(4), folded h_def] by (simp only:)
      then show ?thesis by (simp add: add.commute add.left_commute)
    qed
    have high: "tree_reduce f v nxt k (ml - 1 + (d + h)) = in_line f v (d + h) (ml - 1)" by (rule Suc.IH [OF hl(2,4) nh])
    have "nxt (m - 1 + d) = [m - 2 + d, h - 1 + d]" using Suc.prems(3) [of "m - 1"] m unfolding in_root(3) [OF m] h_def by simp
    moreover have "m - 2 + d = ml - 1 + (d + h)" using hl by linarith
    ultimately have "nxt (m - 1 + d) = [ml - 1 + (d + h), h - 1 + d]" by (simp only:)
    then have "tree_reduce f v nxt (Suc k) (m - 1 + d) = f (in_line f v d (h - 1)) (f (in_line f v (d + h) (ml - 1)) (v (m - 1 + d)))"
      using low high by simp
    also have "f (in_line f v (d + h) (ml - 1)) (v (m - 1 + d)) = in_line f v (d + h) ml"
    proof (cases ml)
      case (Suc j)
      moreover have "m - 1 + d = d + h + Suc j" using hl(6) Suc by linarith
      ultimately show ?thesis by (simp add: add.commute add.left_commute)
    qed (use hl(2) in simp)
    also have "f (in_line f v d (h - 1)) (in_line f v (d + h) ml) = in_line f v d (m - 1)"
    proof -
      have "d + Suc (h - 1) = d + h" "Suc (h - 1 + ml) = m - 1" using hl(1,6) by linarith+
      then show ?thesis using in_line_append [of f v d "h - 1" ml, OF assms] by (simp only:)
    qed
    finally show ?thesis .
  qed
qed

interpretation in_order: rank_tree "Suc m" m "in_prev (Suc m)" "in_next (Suc m)" "in_depth (Suc m)" for m
  using in_order_rank_tree [of "Suc m"] by simp

end
