(* ===== verification/CollTrees.thy ===== *)
theory CollTrees
  imports TreeFan TreeBinomial TreeKnomial TreeChain TreeInOrder
begin

text \<open>
  All trees of \<^verbatim>\<open>coll_base_topo.c\<close> together: they span the communicator, a broadcast along any of them reaches every process
  in whatever order the messages are sent, and the number of rounds is logarithmic where the code means it to be. The bound on
  the size of the communicator keeps every intermediate value of the code in the range of \<^verbatim>\<open>int\<close>.
\<close>

section \<open>Broadcasts with messages in any order\<close>

text \<open>One message after the other: a process that has the data sends it to an element of its list that does not have it.\<close>

inductive bcast_run :: "(nat \<Rightarrow> nat list) \<Rightarrow> nat \<Rightarrow> nat set \<Rightarrow> nat \<Rightarrow> bool" for nxt rt where
  start: "bcast_run nxt rt {rt} 0"
| send: "bcast_run nxt rt H j \<Longrightarrow> p \<in> H \<Longrightarrow> c \<in> set (nxt p) \<Longrightarrow> c \<notin> H \<Longrightarrow> bcast_run nxt rt (insert c H) (Suc j)"

text \<open>No run gets stuck before everybody has the data, and a run that is not stuck is not complete.\<close>

definition bcast_completes :: "nat \<Rightarrow> nat \<Rightarrow> (nat \<Rightarrow> nat list) \<Rightarrow> bool" where
  "bcast_completes n rt nxt \<longleftrightarrow>
     (\<forall>H j. bcast_run nxt rt H j \<longrightarrow> H \<subseteq> {..<n} \<and> card H = Suc j \<and> (if j = n - 1 then H = {..<n} else \<exists>c. bcast_run nxt rt (insert c H) (Suc j)))"

lemma bcast_run_in:
  assumes "\<And>r. r < n \<Longrightarrow> set (nxt r) \<subseteq> {..<n}" "rt < n"
  shows "bcast_run nxt rt H j \<Longrightarrow> rt \<in> H \<and> H \<subseteq> {..<n} \<and> finite H \<and> card H = Suc j"
  by (induction rule: bcast_run.induct) (use assms in \<open>auto dest!: subsetD\<close>)

lemma reached_closed: "rt \<in> H \<Longrightarrow> (\<And>p. p \<in> H \<Longrightarrow> set (nxt p) \<subseteq> H) \<Longrightarrow> reached nxt rt k \<subseteq> H"
  by (induction k) auto

lemma spans_bcast:
  assumes "spans n rt k t" "rt < n"
  shows "bcast_completes n rt (\<lambda>r. map nat (tree_next (t r)))"
proof -
  let ?nx = "\<lambda>r. map nat (tree_next (t r))"
  have sub: "set (?nx r) \<subseteq> {..<n}" if "r < n" for r
  proof -
    have "set (tree_next (t r)) \<subseteq> int ` ({..<n} - {rt})" using assms(1) that unfolding spans_def by fastforce
    then show ?thesis by auto
  qed
  have "H \<subseteq> {..<n} \<and> card H = Suc j \<and> (if j = n - 1 then H = {..<n} else \<exists>c. bcast_run ?nx rt (insert c H) (Suc j))"
    if run: "bcast_run ?nx rt H j" for H j
  proof -
    note H = bcast_run_in [OF sub assms(2) run]
    have full: "j = n - 1 \<longleftrightarrow> H = {..<n}"
      using H assms(2) card_subset_eq [of "{..<n}" H] by auto
    have "\<exists>p \<in> H. \<exists>c \<in> set (?nx p). c \<notin> H" if "H \<noteq> {..<n}"
    proof (rule ccontr)
      assume "\<not> (\<exists>p \<in> H. \<exists>c \<in> set (?nx p). c \<notin> H)"
      then have "reached ?nx rt k \<subseteq> H" using H by (intro reached_closed) auto
      then show False using assms(1) H that unfolding spans_def by blast
    qed
    then show ?thesis using H full bcast_run.send [OF run] by auto
  qed
  then show ?thesis unfolding bcast_completes_def by blast
qed

definition broadcasts :: "(communicator \<Rightarrow> built) \<Rightarrow> communicator \<Rightarrow> nat \<Rightarrow> bool" where
  "broadcasts B comm rt \<longleftrightarrow>
     (\<exists>t. (\<forall>r < nat (ompi_comm_size comm). B (at_rank comm r) = Ok (Some (t r))) \<and>
        bcast_completes (nat (ompi_comm_size comm)) rt (\<lambda>r. map nat (tree_next (t r))))"

lemma builds_broadcasts: "builds_tree B comm rt k \<Longrightarrow> rt < nat (ompi_comm_size comm) \<Longrightarrow> broadcasts B comm rt"
  unfolding builds_tree_def broadcasts_def using spans_bcast by blast

section \<open>Properties\<close>

lemma upto_level_power: "k ^ d \<le> upto_level k (Suc d)"
  by simp

lemma two_power_bound: "n \<le> 2 ^ 20 \<Longrightarrow> n < (2 :: nat) ^ 31"
  by simp

text \<open>The rounds for each of the trees, with a weaker bound that holds for all of them.\<close>

lemma trees_in_rounds:
  assumes "ompi_comm_size comm = int n" "n \<le> 2 ^ 20" "rt < n"
  shows "0 < f \<Longrightarrow> f \<le> MAXTREEFANOUT \<Longrightarrow> n \<le> upto_level f (Suc d) \<Longrightarrow> builds_tree (\<lambda>c. ompi_coll_base_topo_build_tree (int f) c (int rt)) comm rt d"
    and "n \<le> 2 ^ d \<Longrightarrow> builds_tree (\<lambda>c. ompi_coll_base_topo_build_bmtree c (int rt)) comm rt d"
    and "n \<le> 2 ^ d \<Longrightarrow> builds_tree (\<lambda>c. ompi_coll_base_topo_build_in_order_bmtree c (int rt)) comm rt d"
    and "2 \<le> k \<Longrightarrow> n \<le> k ^ d \<Longrightarrow> builds_tree (\<lambda>c. ompi_coll_base_topo_build_kmtree c (int rt) (int k)) comm rt d"
    and "n - 1 \<le> d * nat (max 1 (min fanout (int MAXTREEFANOUT))) \<Longrightarrow> builds_tree (\<lambda>c. ompi_coll_base_topo_build_chain fanout c (int rt)) comm rt d"
    and "n < 2 ^ Suc d \<Longrightarrow> builds_tree ompi_coll_base_topo_build_in_order_bintree comm (n - 1) d"
proof -
  show "0 < f \<Longrightarrow> f \<le> MAXTREEFANOUT \<Longrightarrow> n \<le> upto_level f (Suc d) \<Longrightarrow> builds_tree (\<lambda>c. ompi_coll_base_topo_build_tree (int f) c (int rt)) comm rt d"
    by (rule build_tree_spans [OF _ _ assms(1,3)])
  show "builds_tree (\<lambda>c. ompi_coll_base_topo_build_bmtree c (int rt)) comm rt d" if "n \<le> 2 ^ d"
  proof (rule builds_tree_mono [OF build_bmtree_spans [OF two_power_bound [OF assms(2)] assms(1,3)]])
    have "n - 1 < 2 ^ d" using that assms(3) by linarith
    then show "floorlog 2 (n - 1) \<le> d" by (simp add: floorlog_le)
  qed
  show "builds_tree (\<lambda>c. ompi_coll_base_topo_build_in_order_bmtree c (int rt)) comm rt d" if "n \<le> 2 ^ d"
  proof (rule builds_tree_mono [OF build_in_order_bmtree_spans [OF _ _ assms(1,3)]])
    show "n \<le> 2 ^ min d 20" using that assms(2) by (auto simp: min_def)
  qed auto
  show "2 \<le> k \<Longrightarrow> n \<le> k ^ d \<Longrightarrow> builds_tree (\<lambda>c. ompi_coll_base_topo_build_kmtree c (int rt) (int k)) comm rt d"
    by (rule build_kmtree_spans [OF _ _ assms(1,3)])
  show "n - 1 \<le> d * nat (max 1 (min fanout (int MAXTREEFANOUT))) \<Longrightarrow> builds_tree (\<lambda>c. ompi_coll_base_topo_build_chain fanout c (int rt)) comm rt d"
    by (rule build_chain_spans [OF _ assms(1,3)])
  show "n < 2 ^ Suc d \<Longrightarrow> builds_tree ompi_coll_base_topo_build_in_order_bintree comm (n - 1) d"
    using assms(3) by (intro build_in_order_bintree_spans [OF _ _ assms(1)]) simp_all
qed

lemma rounds_enough:
  assumes "0 < (n :: nat)"
  shows "0 < f \<Longrightarrow> n \<le> upto_level f (Suc n)" "2 \<le> k \<Longrightarrow> n \<le> k ^ n" "n - 1 \<le> n * nat (max 1 z)" "n < 2 ^ Suc n"
proof -
  show "0 < f \<Longrightarrow> n \<le> upto_level f (Suc n)" using upto_level_ge [of f "Suc n"] by simp
  show k: "n \<le> k ^ n" if "2 \<le> k" for k using power_exceeds [OF that, of n] by simp
  have "1 \<le> nat (max 1 z)" by (simp add: le_nat_iff)
  then have "n * 1 \<le> n * nat (max 1 z)" by (rule mult_le_mono2)
  then show "n - 1 \<le> n * nat (max 1 z)" by linarith
  show "n < 2 ^ Suc n" using less_exp [of "Suc n"] by linarith
qed

text \<open>C35: Every tree that the collective operations use spans the communicator: for every size up to a million processes, every
  root, every valid fanout and every radix above 1, each builder returns a tree at every rank, the lists of children together
  have every rank but the root exactly once, each rank has the owner of the list it is in as its parent, and what the root has
  reaches every rank. The in-order binary tree always has the last rank as its root.\<close>

theorem collective_trees_span:
  assumes "ompi_comm_size comm = int n" "n \<le> 2 ^ 20" "rt < n" "1 \<le> fanout" "fanout \<le> int MAXTREEFANOUT" "2 \<le> radix" "radix \<le> 2 ^ 10"
  shows "builds_tree (\<lambda>c. ompi_coll_base_topo_build_tree fanout c (int rt)) comm rt n \<and>
    builds_tree (\<lambda>c. ompi_coll_base_topo_build_bmtree c (int rt)) comm rt n \<and>
    builds_tree (\<lambda>c. ompi_coll_base_topo_build_in_order_bmtree c (int rt)) comm rt n \<and>
    builds_tree (\<lambda>c. ompi_coll_base_topo_build_kmtree c (int rt) radix) comm rt n \<and>
    builds_tree (\<lambda>c. ompi_coll_base_topo_build_chain width c (int rt)) comm rt n \<and>
    builds_tree ompi_coll_base_topo_build_in_order_bintree comm (n - 1) n"
proof -
  obtain f where f: "fanout = int f" "0 < f" "f \<le> MAXTREEFANOUT" using assms(4,5) by (cases fanout) simp_all
  obtain k where k: "radix = int k" "2 \<le> k" using assms(6) by (cases radix) simp_all
  have n: "0 < n" using assms(3) by simp
  note t = trees_in_rounds [OF assms(1-3)] and e = rounds_enough [OF n]
  show ?thesis unfolding f k using t(1) [OF f(2,3) e(1) [OF f(2)]] t(2) [OF e(2) [OF order_refl]] t(3) [OF e(2) [OF order_refl]]
    t(4) [OF k(2) e(2) [OF k(2)]] t(5) [OF e(3)] t(6) [OF e(4)] by blast
qed

theorem collective_trees_span_witness:
  "builds_tree (\<lambda>c. ompi_coll_base_topo_build_kmtree c 2 3) demo_grid 2 6 \<and> builds_tree (\<lambda>c. ompi_coll_base_topo_build_chain 4 c 2) demo_grid 2 6 \<and>
   builds_tree ompi_coll_base_topo_build_in_order_bintree demo_grid 5 6"
  using collective_trees_span [of demo_grid 6 2 3 3 4] demo_grid_wf(3) by (simp add: MAXTREEFANOUT_def)



text \<open>C38: The number of rounds of a broadcast: \<open>d\<close> rounds are enough for \<open>2 ^ d\<close> processes in the two binomial trees and for fewer
  than \<open>2 ^ (d + 1)\<close> in the in-order binary tree, for \<open>k ^ d\<close> processes in the k-nomial tree of radix \<open>k\<close>, for
  \<open>1 + k + ... + k ^ d\<close> in the tree of fanout \<open>k\<close>, and the root and \<open>d\<close> processes in each of the chains.\<close>

theorem broadcast_rounds:
  assumes "ompi_comm_size comm = int n" "n \<le> 2 ^ 20" "rt < n" "2 \<le> k" "k \<le> MAXTREEFANOUT"
  shows "(n \<le> 2 ^ d \<longrightarrow> builds_tree (\<lambda>c. ompi_coll_base_topo_build_bmtree c (int rt)) comm rt d \<and>
      builds_tree (\<lambda>c. ompi_coll_base_topo_build_in_order_bmtree c (int rt)) comm rt d) \<and>
    (n < 2 ^ Suc d \<longrightarrow> builds_tree ompi_coll_base_topo_build_in_order_bintree comm (n - 1) d) \<and>
    (n \<le> k ^ d \<longrightarrow> builds_tree (\<lambda>c. ompi_coll_base_topo_build_kmtree c (int rt) (int k)) comm rt d) \<and>
    (n \<le> (\<Sum>i \<le> d. k ^ i) \<longrightarrow> builds_tree (\<lambda>c. ompi_coll_base_topo_build_tree (int k) c (int rt)) comm rt d) \<and>
    (n \<le> 1 + d * k \<longrightarrow> builds_tree (\<lambda>c. ompi_coll_base_topo_build_chain (int k) c (int rt)) comm rt d)"
proof -
  note t = trees_in_rounds [OF assms(1-3)]
  have "(\<Sum>i \<le> d. k ^ i) = upto_level k (Suc d)" unfolding upto_level_def lessThan_Suc_atMost ..
  moreover have "nat (max 1 (min (int k) (int MAXTREEFANOUT))) = k" using assms(4,5) by (simp add: max_def min_def)
  ultimately show ?thesis using t(1) [of k d] t(2,3,6) [of d] t(4) [of k d] t(5) [of d "int k"] assms(4,5) by (simp del: upto_level_simps)
qed

theorem broadcast_rounds_witness:
  "builds_tree (\<lambda>c. ompi_coll_base_topo_build_bmtree c 2) demo_grid 2 3 \<and> builds_tree (\<lambda>c. ompi_coll_base_topo_build_kmtree c 2 3) demo_grid 2 2"
  using broadcast_rounds [of demo_grid 6 2 3 3] broadcast_rounds [of demo_grid 6 2 3 2] demo_grid_wf(3) by (simp add: MAXTREEFANOUT_def)

text \<open>The first loop of the k-nomial tree.\<close>

lemma log_radix_stuck:
  assumes "radix = 0 \<or> radix = 1" "1 < commsize"
  shows "log_radix radix commsize = None"
proof -
  let ?P = "\<lambda>(i, n :: int). i < commsize \<and> 0 \<le> i \<and> i \<le> 1"
  let ?w = "while_option (\<lambda>(i, n). i < commsize) (\<lambda>(i, n). (i * radix, n + 1)) (1, 0 :: int)"
  have "?w \<noteq> Some e" for e
  proof
    assume e: "?w = Some e"
    have "?P e" using e by (rule while_option_rule [of ?P, rotated]) (use assms in auto)
    then show False using while_option_stop [OF e] by (cases e) simp
  qed
  then have "?w = None" by (rule not_Some_eq [THEN iffD1, OF allI])
  then show ?thesis by (simp add: log_radix_def)
qed



text \<open>C37: A reduction along the in-order binary tree is the reduction in the order of the ranks, for every associative
  operation, commutative or not: the value that the last rank has in the end is the combination of the values of the ranks
  0, 1, ..., n - 1 in this order.\<close>

theorem in_order_reduction_sequential:
  assumes "ompi_comm_size comm = int n" "0 < n" "n < 2 ^ Suc k" "\<And>x y z. f (f x y) z = f x (f y z)"
  shows "\<exists>t. (\<forall>r < n. ompi_coll_base_topo_build_in_order_bintree (at_rank comm r) = Ok (Some (t r))) \<and>
    tree_reduce f v (\<lambda>r. map nat (tree_next (t r))) k (n - 1) = in_line f v 0 (n - 1)"
proof -
  obtain t where t: "\<And>r. r < n \<Longrightarrow> ompi_coll_base_topo_build_in_order_bintree (at_rank comm r) = Ok (Some (t r))"
    "\<And>r. r < n \<Longrightarrow> tree_root (t r) = int (n - 1) \<and> tree_next (t r) = map int (in_next n r)"
    "\<And>r. r < n \<Longrightarrow> r \<noteq> n - 1 \<Longrightarrow> tree_prev (t r) = Some (int (in_prev n r))"
    using in_order_built [OF assms(2,1)] by blast
  have "tree_reduce f v (\<lambda>r. map nat (tree_next (t r))) k (n - 1 + 0) = in_line f v 0 (n - 1)"
    using assms(2,3) t(2) by (intro tree_reduce_in_order [OF assms(4)]) (simp_all add: o_def)
  then show ?thesis using t(1) by auto
qed

theorem in_order_reduction_sequential_witness:
  "\<exists>t. tree_reduce (@) (\<lambda>r. [r]) (\<lambda>r. map nat (tree_next (t r))) 2 5 = [0, 1, 2, 3, 4, 5] \<and>
     ompi_coll_base_topo_build_in_order_bintree (at_rank demo_grid 3) = Ok (Some (t 3))"
  using in_order_reduction_sequential [of demo_grid 6 2 "(@)" "\<lambda>r. [r]"] demo_grid_wf(3) by (auto simp: eval_nat_numeral)

end
