(* ===== verification/BitOps.thy ===== *)
theory BitOps
  imports TreeBinomial
begin

text \<open>
  The bit operations of \<^verbatim>\<open>bit_ops.h\<close>. Each of them has two variants, one with \<^verbatim>\<open>__builtin_clz\<close> and one with a loop; the
  configuration selects one. Both are modelled, with the shifts that leave the range of \<^verbatim>\<open>int\<close> as undefined behaviour.
  The loop of \<^verbatim>\<open>opal_next_poweroftwo\<close> is in \<open>CollTree\<close>.
\<close>

unbundle bit_operations_syntax

section \<open>The operations\<close>

text \<open>The number of zero bits above the highest bit of a 32 bit value, undefined at 0.\<close>

definition builtin_clz :: "int \<Rightarrow> int c_result" where
  "builtin_clz x = (if take_bit 32 x = 0 then UB else Ok (int (length (takeWhile (\<lambda>i. \<not> bit x i) (rev [0..<32])))))"

definition shl_one :: "int \<Rightarrow> int c_result" where
  "shl_one n = (if 0 \<le> n \<and> n < 31 then Ok (push_bit (nat n) 1) else UB)"

fun then_ok :: "'a c_result \<Rightarrow> ('a \<Rightarrow> 'b c_result) \<Rightarrow> 'b c_result" where
  "then_ok (Ok x) f = f x"
| "then_ok (Err e) f = Err e"
| "then_ok UB f = UB"

definition opal_hibit_clz :: "int \<Rightarrow> int \<Rightarrow> int c_result" where
  "opal_hibit_clz val start = then_ok (shl_one start) (\<lambda>b. let msk = val AND (b - 1) in
     if msk = 0 then Ok (- 1) else then_ok (builtin_clz msk) (\<lambda>z. Ok (8 * 4 - 1 - z)))"

text \<open>The loop over the positions below \<open>n\<close>, from the highest.\<close>

primrec hibit_loop :: "int \<Rightarrow> nat \<Rightarrow> int" where
  "hibit_loop val 0 = - 1"
| "hibit_loop val (Suc n) = (if val AND push_bit n 1 \<noteq> 0 then int n else hibit_loop val n)"

definition opal_hibit_loop :: "int \<Rightarrow> int \<Rightarrow> int c_result" where
  "opal_hibit_loop val start = then_ok (shl_one (start - 1)) (\<lambda>msk. Ok (hibit_loop val (nat start)))"

definition opal_cube_dim_clz :: "int \<Rightarrow> int c_result" where
  "opal_cube_dim_clz val = (if 1 \<ge> val then Ok 0 else then_ok (builtin_clz (val - 1)) (\<lambda>z. Ok (8 * 4 - z)))"

text \<open>The loops double a power of two; the last power is the largest, so that it tells whether a shift overflowed.\<close>

definition opal_cube_dim_loop :: "int \<Rightarrow> int c_result" where
  "opal_cube_dim_loop val =
     ends (while_option (\<lambda>(dm, sz). sz < val) (\<lambda>(dm, sz). (dm + 1, push_bit 1 sz)) (0, 1)) (\<lambda>(dm, sz). if sz > INT_MAX then UB else Ok dm)"

definition opal_next_poweroftwo_clz :: "int \<Rightarrow> int c_result" where
  "opal_next_poweroftwo_clz val = (if val = 0 then Ok 1 else then_ok (builtin_clz val) (\<lambda>z. shl_one (8 * 4 - z)))"

definition opal_next_poweroftwo_loop :: "int \<Rightarrow> int c_result" where
  "opal_next_poweroftwo_loop val = ends (opal_next_poweroftwo val) (\<lambda>power2. if power2 > INT_MAX then UB else Ok power2)"

definition opal_next_poweroftwo_inclusive_clz :: "int \<Rightarrow> int c_result" where
  "opal_next_poweroftwo_inclusive_clz val = (if 1 \<ge> val then Ok 1 else then_ok (builtin_clz (val - 1)) (\<lambda>z. shl_one (8 * 4 - z)))"

definition opal_next_poweroftwo_inclusive_loop :: "int \<Rightarrow> int c_result" where
  "opal_next_poweroftwo_inclusive_loop val =
     ends (while_option (\<lambda>power2. power2 < val) (push_bit 1) 1) (\<lambda>power2. if power2 > INT_MAX then UB else Ok power2)"

section \<open>Both variants compute the binary logarithm\<close>

lemma bit_above: "floorlog 2 x \<le> i \<Longrightarrow> \<not> bit (int x) i"
proof -
  assume "floorlog 2 x \<le> i"
  then have "x < 2 ^ i" by (simp add: floorlog_le)
  then have "x div 2 ^ i = 0" by simp
  then show ?thesis by (metis bit_iff_odd even_of_nat even_zero of_nat_numeral of_nat_power zdiv_int)
qed

lemma bit_top:
  assumes "0 < x"
  shows "bit (int x) (floorlog 2 x - 1)"
proof -
  let ?f = "floorlog 2 x - 1"
  have f: "floorlog 2 x = Suc ?f" using assms by (simp add: floorlog_def)
  have "x < 2 ^ Suc ?f" "2 ^ ?f \<le> x" using floorlog_bounds [OF assms, of 2] f by auto
  then have "x div 2 ^ ?f = 1" by (simp add: div_nat_eqI)
  then show ?thesis by (metis bit_iff_odd even_of_nat odd_one of_nat_numeral of_nat_power zdiv_int)
qed

lemma builtin_clz_correct:
  assumes "0 < x" "x < 2 ^ 32"
  shows "builtin_clz (int x) = Ok (32 - int (floorlog 2 x))"
proof -
  let ?f = "floorlog 2 x"
  have f: "0 < ?f" "?f \<le> 32" using assms by (simp_all add: floorlog_le) (simp add: floorlog_def)
  have "take_bit 32 (int x) = int x" using assms(2) by (simp add: take_bit_eq_mod)
  moreover have "takeWhile (\<lambda>i. \<not> bit (int x) i) (rev [0..<32]) = rev [?f..<32]"
  proof -
    have "[0..<32] = [0..<?f] @ [?f..<32]" using upt_add_eq_append [of 0 ?f "32 - ?f"] f(2) by simp
    moreover have "rev [0..<?f] = (?f - 1) # rev [0..<?f - 1]" using f(1) by (cases ?f) simp_all
    ultimately have "rev [0..<32] = rev [?f..<32] @ (?f - 1) # rev [0..<?f - 1]" by simp
    moreover have "takeWhile (\<lambda>i. \<not> bit (int x) i) (rev [?f..<32] @ (?f - 1) # rev [0..<?f - 1]) = rev [?f..<32]"
      using bit_above [of x] bit_top [OF assms(1)] by (subst takeWhile_append2) auto
    ultimately show ?thesis by (simp only:)
  qed
  ultimately show ?thesis using assms(1) f(2) by (simp add: builtin_clz_def)
qed

lemma hibit_loop_correct: "hibit_loop val n = int (floorlog 2 (nat (take_bit n val))) - 1"
proof (induction n)
  case 0
  then show ?case by (simp add: floorlog_def)
next
  case (Suc n)
  have split: "take_bit (Suc n) val = (if bit val n then 2 ^ n else 0) + take_bit n val"
    by (simp add: take_bit_Suc_from_most of_bool_def push_bit_eq_mult)
  show ?case
  proof (cases "bit val n")
    case True
    define r where "r = nat (take_bit n val)"
    have "r < 2 ^ n" using take_bit_int_less_exp [of n val] by (simp add: r_def nat_less_iff)
    moreover have "nat (take_bit (Suc n) val) = 2 ^ n + r" using True by (simp add: split r_def nat_add_distrib nat_power_eq)
    ultimately have "floorlog 2 (nat (take_bit (Suc n) val)) = Suc n" by (intro floorlog_unique) simp_all
    moreover have "val AND push_bit n 1 \<noteq> 0" using True by (simp add: and_exp_eq_0_iff_not_bit push_bit_eq_mult)
    ultimately show ?thesis by simp
  next
    case False
    then have "val AND push_bit n 1 = 0" by (simp add: and_exp_eq_0_iff_not_bit push_bit_eq_mult)
    then show ?thesis using Suc False by (simp add: split)
  qed
qed

text \<open>The number of doublings from 1 to at least \<open>val\<close>.\<close>

definition doublings :: "int \<Rightarrow> nat" where
  "doublings val = floorlog 2 (nat (val - 1))"

lemma doublings_iff: "(2 :: int) ^ d < val \<longleftrightarrow> d < doublings val"
proof -
  have "\<not> d < doublings val \<longleftrightarrow> nat (val - 1) < 2 ^ d" by (simp add: doublings_def floorlog_le not_less)
  also have "\<dots> \<longleftrightarrow> \<not> 2 ^ d < val"
  proof -
    have "nat (val - 1) < 2 ^ d \<longleftrightarrow> val - 1 < int (2 ^ d)"
    proof (cases "0 \<le> val - 1")
      case False
      then have "val - 1 < int (2 ^ d)" by (simp add: order_less_trans [of _ 0])
      then show ?thesis using False by simp
    qed (rule nat_less_iff)
    moreover have "int (2 ^ d) = 2 ^ d" by simp
    ultimately show ?thesis by linarith
  qed
  finally show ?thesis by blast
qed

lemma doubling_loop:
  "while_option (\<lambda>(dm, sz). sz < val) (\<lambda>(dm, sz). (dm + 1, push_bit 1 sz)) (0 :: int, 1 :: int) = Some (int (doublings val), 2 ^ doublings val)"
proof -
  let ?I = "\<lambda>(dm :: int, sz :: int). \<exists>d \<le> doublings val. dm = int d \<and> sz = 2 ^ d"
  let ?f = "\<lambda>(dm :: int, sz :: int). nat (int (doublings val) - dm)"
  have "\<exists>t. while_option (\<lambda>(dm, sz). sz < val) (\<lambda>(dm, sz). (dm + 1, push_bit 1 sz)) (0, 1) = Some t \<and> ?I t \<and> \<not> (case t of (dm, sz) \<Rightarrow> sz < val)"
  proof (rule while_ends [where f = ?f])
    show "?I (0, 1)" by (auto intro: exI [of _ 0])
    fix st assume "?I st" and b: "case st of (dm, sz) \<Rightarrow> sz < val"
    then obtain d where d: "st = (int d, 2 ^ d)" "d \<le> doublings val" by auto
    then have "d < doublings val" using b by (simp add: doublings_iff)
    then have "?I (int d + 1, 2 ^ Suc d)" by (auto intro: exI [of _ "Suc d"])
    then show "?I ((\<lambda>(dm, sz). (dm + 1, push_bit 1 sz)) st) \<and> ?f ((\<lambda>(dm, sz). (dm + 1, push_bit 1 sz)) st) < ?f st"
      using \<open>d < doublings val\<close> by (simp add: d push_bit_eq_mult mult.commute)
  qed
  then obtain d where "while_option (\<lambda>(dm, sz). sz < val) (\<lambda>(dm, sz). (dm + 1, push_bit 1 sz)) (0, 1) = Some (int d, 2 ^ d)"
    "d \<le> doublings val" "\<not> 2 ^ d < val" by auto
  then show ?thesis by (simp add: doublings_iff)
qed

lemma doubling_loop_only: "while_option (\<lambda>power2. power2 < val) (push_bit 1) (1 :: int) = Some (2 ^ doublings val)"
proof -
  let ?I = "\<lambda>p :: int. \<exists>d \<le> doublings val. p = 2 ^ d"
  let ?f = "\<lambda>p :: int. nat (2 ^ doublings val - p)"
  have "\<exists>t. while_option (\<lambda>power2. power2 < val) (push_bit 1) (1 :: int) = Some t \<and> ?I t \<and> \<not> t < val"
  proof (rule while_ends [where f = ?f])
    show "?I 1" by (auto intro: exI [of _ 0])
    fix p assume "?I p" and b: "p < val"
    then obtain d where d: "p = 2 ^ d" "d \<le> doublings val" by auto
    then have "d < doublings val" using b by (simp add: doublings_iff)
    then have "(2 :: int) ^ Suc d \<le> 2 ^ doublings val" by (intro power_increasing) simp_all
    moreover have "push_bit 1 p = 2 ^ Suc d" by (simp add: d push_bit_eq_mult)
    moreover have "(0 :: int) < 2 ^ d" by simp
    ultimately show "?I (push_bit 1 p) \<and> ?f (push_bit 1 p) < ?f p" using \<open>d < doublings val\<close> d(1) by (auto intro: exI [of _ "Suc d"])
  qed
  then obtain d where "while_option (\<lambda>power2. power2 < val) (push_bit 1) (1 :: int) = Some (2 ^ d)" "d \<le> doublings val" "\<not> 2 ^ d < val" by auto
  then show ?thesis by (simp add: doublings_iff)
qed

lemma doublings_small: "val \<le> 2 ^ 30 \<Longrightarrow> doublings val \<le> 30"
  using doublings_iff [of 30 val] by (meson leD not_less)

lemma shl_one_ok: "n \<le> 30 \<Longrightarrow> shl_one (int n) = Ok (2 ^ n)"
  by (simp add: shl_one_def push_bit_eq_mult)

lemma power_in_range: "n \<le> 30 \<Longrightarrow> \<not> (2 :: int) ^ n > INT_MAX"
proof -
  assume "n \<le> 30"
  then have "(2 :: int) ^ n \<le> 2 ^ 30" by (intro power_increasing) simp_all
  then show ?thesis by (simp add: INT_MAX_def)
qed

lemma clz_doublings:
  assumes "1 < val" "val \<le> 2 ^ 31"
  shows "builtin_clz (val - 1) = Ok (32 - int (doublings val))"
proof -
  have "0 < nat (val - 1)" "nat (val - 1) < 2 ^ 32" using assms by (simp_all add: nat_less_iff)
  then show ?thesis using builtin_clz_correct [of "nat (val - 1)"] assms(1) by (simp add: doublings_def)
qed

lemma hibit_variants:
  assumes "1 \<le> start" "start \<le> 30"
  shows "\<exists>h. opal_hibit_clz val start = Ok h \<and> opal_hibit_loop val start = Ok h \<and>
    (\<forall>i < nat start. bit val i \<longrightarrow> int i \<le> h) \<and> (if h = - 1 then val mod 2 ^ nat start = 0 else 0 \<le> h \<and> h < start \<and> bit val (nat h))"
proof -
  define n where "n = nat start"
  have n: "start = int n" "1 \<le> n" "n \<le> 30" using assms by (simp_all add: n_def)
  define x where "x = nat (take_bit n val)"
  have x: "take_bit n val = int x" "x < 2 ^ n" using take_bit_int_less_exp [of n val] by (simp_all add: x_def nat_less_iff)
  have "(2 :: nat) ^ n \<le> 2 ^ 30" using n(3) by (intro power_increasing) simp_all
  then have x32: "x < 2 ^ 32" using x(2) by simp
  let ?h = "int (floorlog 2 x) - 1"
  have "val AND (2 ^ n - 1) = int x" using x(1) by (simp add: take_bit_eq_mask mask_eq_exp_minus_1)
  then have "opal_hibit_clz val start = Ok ?h"
    using builtin_clz_correct [OF _ x32] by (cases "x = 0") (simp_all add: opal_hibit_clz_def n shl_one_ok floorlog_def)
  moreover have "start - 1 = int (n - 1)" using n by simp
  then have "opal_hibit_loop val start = Ok ?h"
    using shl_one_ok [of "n - 1"] n by (simp add: opal_hibit_loop_def hibit_loop_correct x(1))
  moreover have b: "bit val i \<longleftrightarrow> bit (int x) i" if "i < n" for i using that by (simp add: bit_take_bit_iff flip: x(1))
  have "int i \<le> ?h" if "i < n" "bit val i" for i
    using bit_above [of x i] b [OF that(1)] that(2) by linarith
  moreover have "if ?h = - 1 then val mod 2 ^ n = 0 else 0 \<le> ?h \<and> ?h < start \<and> bit val (nat ?h)"
  proof (cases "x = 0")
    case True
    then show ?thesis using x(1) by (simp add: floorlog_def take_bit_eq_mod)
  next
    case False
    have f: "floorlog 2 x \<noteq> 0" "floorlog 2 x \<le> n" using False x(2) by (simp_all add: floorlog_le) (simp add: floorlog_def)
    then have "floorlog 2 x - 1 < n" by simp
    then have "bit val (floorlog 2 x - 1)" using b bit_top [of x] False by simp
    moreover have "nat ?h = floorlog 2 x - 1" by simp
    ultimately show ?thesis using f n(1) by simp
  qed
  ultimately show ?thesis unfolding n_def by blast
qed

section \<open>Properties\<close>

text \<open>C40: The two variants of the bit operations agree, and both are right, wherever the variant with the loop is defined for
  a value of the range the callers use: the dimension of the cube is the least \<open>d\<close> with \<open>val \<le> 2 ^ d\<close>; the next power of two is the
  least one above the value, or the least one that is not below it; and the highest bit of the lowest \<open>start\<close> bits is found,
  or -1 when there is none.\<close>

theorem bit_ops_variants_agree:
  assumes "0 \<le> val" "val < 2 ^ 30" "1 \<le> start" "start \<le> 30"
  shows "(\<exists>d. opal_cube_dim_clz val = Ok (int d) \<and> opal_cube_dim_loop val = Ok (int d) \<and>
      opal_next_poweroftwo_inclusive_clz val = Ok (2 ^ d) \<and> opal_next_poweroftwo_inclusive_loop val = Ok (2 ^ d) \<and>
      (\<forall>e. val \<le> 2 ^ e \<longleftrightarrow> d \<le> e)) \<and>
    (\<exists>d. opal_next_poweroftwo_clz val = Ok (2 ^ d) \<and> opal_next_poweroftwo_loop val = Ok (2 ^ d) \<and> (\<forall>e. val < 2 ^ e \<longleftrightarrow> d \<le> e)) \<and>
    (\<exists>h. opal_hibit_clz val start = Ok h \<and> opal_hibit_loop val start = Ok h \<and>
      (\<forall>i < nat start. bit val i \<longrightarrow> int i \<le> h) \<and> (if h = - 1 then val mod 2 ^ nat start = 0 else 0 \<le> h \<and> h < start \<and> bit val (nat h)))"
proof (intro conjI)
  have d: "doublings val \<le> 30" using assms(2) by (intro doublings_small) simp
  have "val \<le> 2 ^ e \<longleftrightarrow> doublings val \<le> e" for e using doublings_iff [of e val] by (meson not_less)
  moreover have "opal_cube_dim_loop val = Ok (int (doublings val))" "opal_next_poweroftwo_inclusive_loop val = Ok (2 ^ doublings val)"
    unfolding opal_cube_dim_loop_def opal_next_poweroftwo_inclusive_loop_def doubling_loop doubling_loop_only ends_def
    using power_in_range [OF d] by simp_all
  moreover have "opal_cube_dim_clz val = Ok (int (doublings val)) \<and> opal_next_poweroftwo_inclusive_clz val = Ok (2 ^ doublings val)"
  proof (cases "1 < val")
    case True
    then show ?thesis using clz_doublings [OF True] assms(2) shl_one_ok [OF d]
      by (simp add: opal_cube_dim_clz_def opal_next_poweroftwo_inclusive_clz_def)
  next
    case False
    then have "doublings val = 0" by (simp add: doublings_def floorlog_def)
    then show ?thesis using False by (simp add: opal_cube_dim_clz_def opal_next_poweroftwo_inclusive_clz_def)
  qed
  ultimately show "\<exists>d. opal_cube_dim_clz val = Ok (int d) \<and> opal_cube_dim_loop val = Ok (int d) \<and>
      opal_next_poweroftwo_inclusive_clz val = Ok (2 ^ d) \<and> opal_next_poweroftwo_inclusive_loop val = Ok (2 ^ d) \<and> (\<forall>e. val \<le> 2 ^ e \<longleftrightarrow> d \<le> e)"
    by blast
next
  define x where "x = nat val"
  have v: "val = int x" "x < 2 ^ 30" using assms(1,2) by (simp_all add: x_def nat_less_iff)
  have f: "floorlog 2 x \<le> 30" using v(2) by (simp add: floorlog_le)
  have "val < 2 ^ e \<longleftrightarrow> floorlog 2 x \<le> e" for e unfolding floorlog_le v(1) by (metis of_nat_less_iff of_nat_numeral of_nat_power)
  moreover have "opal_next_poweroftwo_loop val = Ok (2 ^ floorlog 2 x)"
    using power_in_range [OF f] by (simp add: opal_next_poweroftwo_loop_def v(1) next_poweroftwo_correct ends_def)
  moreover have "opal_next_poweroftwo_clz val = Ok (2 ^ floorlog 2 x)"
  proof (cases "x = 0")
    case False
    then show ?thesis using builtin_clz_correct [of x] v(2) shl_one_ok [OF f] by (simp add: opal_next_poweroftwo_clz_def v(1))
  qed (simp add: opal_next_poweroftwo_clz_def v(1) floorlog_def)
  ultimately show "\<exists>d. opal_next_poweroftwo_clz val = Ok (2 ^ d) \<and> opal_next_poweroftwo_loop val = Ok (2 ^ d) \<and> (\<forall>e. val < 2 ^ e \<longleftrightarrow> d \<le> e)" by blast
next
  show "\<exists>h. opal_hibit_clz val start = Ok h \<and> opal_hibit_loop val start = Ok h \<and>
      (\<forall>i < nat start. bit val i \<longrightarrow> int i \<le> h) \<and> (if h = - 1 then val mod 2 ^ nat start = 0 else 0 \<le> h \<and> h < start \<and> bit val (nat h))"
    by (rule hibit_variants [OF assms(3,4)])
qed

theorem bit_ops_variants_agree_witness:
  "opal_cube_dim_clz 5 = opal_cube_dim_loop 5 \<and> opal_next_poweroftwo_clz 5 = opal_next_poweroftwo_loop 5 \<and> opal_hibit_clz 5 3 = opal_hibit_loop 5 3"
  using bit_ops_variants_agree [of 5 3] by auto

text \<open>Outside of this range the variants part. For a value above \<open>2 ^ 30\<close> the loop of the cube dimension shifts its power out of the
  range of \<^verbatim>\<open>int\<close>, while the other variant still returns the dimension 31; and for \<open>start\<close> 0 the loop for the highest bit starts
  with a shift by -1, while the other variant returns -1.\<close>

theorem bit_ops_variants_differ:
  assumes "2 ^ 30 < val" "val \<le> INT_MAX"
  shows "opal_cube_dim_clz val = Ok 31 \<and> opal_cube_dim_loop val = UB \<and> opal_hibit_clz val 0 = Ok (- 1) \<and> opal_hibit_loop val 0 = UB"
proof -
  have "doublings val = 31" using doublings_iff [of 30 val] doublings_iff [of 31 val] assms by (simp add: INT_MAX_def)
  then show ?thesis using clz_doublings [of val] assms
    by (simp add: opal_cube_dim_clz_def opal_cube_dim_loop_def doubling_loop [simplified] ends_def opal_hibit_clz_def opal_hibit_loop_def shl_one_def INT_MAX_def)
qed

theorem bit_ops_variants_differ_witness: "opal_cube_dim_clz 2000000000 = Ok 31 \<and> opal_cube_dim_loop 2000000000 = UB"
  using bit_ops_variants_differ [of 2000000000] by (simp add: INT_MAX_def)

end
