(* ===== verification/Spec2Isabelle.thy ===== *)
theory Spec2Isabelle
  imports AmtThreads BindP2P BindColl TopoBind DimsCreate CollTrees BitOps
begin

text \<open>
  EduMPI is Open MPI with event tracing: every traced MPI function records an entry with its name, data sizes,
  communicator, partner and times, and a monitor thread of each process writes the entries to a PostgreSQL
  database while the program runs.

  \<^bold>\<open>Parts of the program and their theories.\<close>

  \<^item> \<open>EduPrelude\<close>: C types, buffers with an offset (a store outside an array is \<open>None\<close>), truncating division, strings.
  \<^item> \<open>PgCopy\<close>: the encoders of the PostgreSQL binary COPY format (\<^verbatim>\<open>src/ompi/mpi/c/pgcopy.c\<close>), a reader of
    that format, and the locale \<open>pg_field\<close> that the fixed-size encoders share.
  \<^item> \<open>Qentry\<close>: the event entry with its lifecycle word (\<^verbatim>\<open>init.h\<close>), and what fills it in (\<open>initQentry\<close>,
    \<open>edumpi_comm_label\<close>, \<open>edumpi_world_rank\<close>, \<open>timespec_diff\<close> of \<^verbatim>\<open>init.c\<close>; the partner mask of
    \<^verbatim>\<open>pml_ob1_isend.c\<close>).
  \<^item> \<open>CopyRow\<close>: \<open>qentryToBinary\<close>, one entry as a row of sixteen columns.
  \<^item> \<open>Fifo\<close>: the queue contract between those who log and those who write out, as a locale.
  \<^item> \<open>AmtRing\<close>, \<open>AmtThreads\<close>: the multi-producer ring of \<^verbatim>\<open>edumpi_ring.h\<close>, first without interference, then with every
    interleaving of the atomic accesses of any number of producers and the consumer.
  \<^item> \<open>SpRing\<close>: the single-producer ring of the default mode and the event queue (\<open>getWritingRingPos\<close>, the reader).
  \<^item> \<open>Monitor\<close>: the monitor thread \<open>SQLMonitorFunc\<close> as a state machine that records its calls into libpq.
  \<^item> \<open>Startup\<close>: the start and the end of the analysis, \<open>MPI_Init\<close>, \<open>MPI_Init_thread\<close>, \<open>MPI_Finalize\<close>.
  \<^item> \<open>Bindings\<close>: what the MPI bindings share: the checks of \<^verbatim>\<open>bindings.h\<close>, the macros of \<^verbatim>\<open>errhandler.h\<close>, the
    predicates of \<^verbatim>\<open>communicator.h\<close>, the tracing statements, and the contract \<open>traced\<close> of a traced call.
  \<^item> \<open>BindP2P\<close>, \<open>BindColl\<close>: the point-to-point and collective bindings, one definition per file of
    \<^verbatim>\<open>src/ompi/mpi/c\<close>, with the name of the function.

  \<^bold>\<open>How they interact.\<close> A binding claims a slot of the ring (\<open>edumpi_amt_ring_claim\<close> with \<^verbatim>\<open>EDUMPI_AMT_MODE\<close>, else
  \<open>getWritingRingPos\<close>), stamps the start, fills the entry in, checks its arguments, calls the selected component and
  stamps the end. The monitor takes entries from the ring in claim order, waits for entries that are not finished,
  encodes them and sends them in COPY commands that it restarts every second; at the end of the run it drains the ring.

  \<^bold>\<open>State and errors.\<close> C structures are records with the names of their members (primed where Isabelle has the name).
  Integers are words where the code relies on their width (tickets, counters, sizes) and \<^typ>\<open>int\<close> elsewhere. A
  function that may leave an array returns an option. A binding is in continuation-passing style, so that every
  \<^verbatim>\<open>return\<close> and every use of the error macros is a branch that drops the rest of the function; its outcome is a
  code with the final state, an error handler that does not return, or \<open>Undefined\<close> for a null dereference.

  \<^bold>\<open>What the lemmas show.\<close>

  \<^item> Encoding: every encoder stays in its buffer and is inverted by the reader; a row takes at most 363 of 2048 bytes
    and decodes to the columns of the entry.
  \<^item> Rings: claims are accounted for, a drain takes a prefix in claim order and judges each entry as documented;
    under interleaving slots are never shared, and every ticket is handled exactly once and in order. The default ring
    keeps unread entries except at its wrap, where it loses them.
  \<^item> Monitor: in every interleaving with the application each COPY command it issued is readable; the shutdown ends and
    writes what is left; the start of the analysis establishes the invariant this rests on.
  \<^item> Bindings: a traced call is never undefined on legal handles, records its entry, calls its component exactly once
    with the caller's arguments if and only if they are valid and there is something to do, ends its entry exactly
    then, and reports an error to exactly one handler with the code it returns. The exceptions that the code has are
    theorems of their own: entries that are never finished, names that are cut, and null pointers that are dereferenced.
  \<^item> End to end (this theory): the row that the database reads back for a send says what was called, where and when.

  \<^bold>\<open>Parameters.\<close> Code that is not part of the sources, or whose choice is made at run time, is an argument: the C
  library (\<^verbatim>\<open>getenv\<close>, the allocator, clocks, the bits of a double), \<open>ompi_mpi_init\<close>, the error handlers, the liveness
  of peers, and the selected PML and collective components (\<open>component\<close>). Of a component the contract needs that it
  keeps the identity of the entry it is given (\<open>component_ok\<close>); the functions of the sources that write to entries
  from inside a component satisfy it (the interpretations of \<open>entry_writer\<close>).

  \<^bold>\<open>Bounds and fuel.\<close> No loop has fuel: the drain ends by a measure on its batch, the encoders and the checks of the
  bindings recurse on lists, and loops that wait (the monitor, a producer that retries) are steps of a relation.
  Sizes are those of the code: 2048 bytes for a row, 64 for a label, 30 for names, 50 for the partner mask.

  \<^bold>\<open>Not modelled.\<close> The accesses of \<open>AmtThreads\<close> are sequentially consistent, so the memory orders of the source are not
  examined. Left out are: the one-sided, neighborhood and remaining non-blocking collective bindings and
  \<open>MPI_Isendrecv\<close>, \<open>MPI_Sendrecv_replace\<close> (they have the structure of those modelled); the hwloc binding of the
  monitor thread in \<open>initializeQueue\<close>; debugging output; reference counts, \<^verbatim>\<open>SPC_RECORD\<close> and
  \<^verbatim>\<open>MEMCHECKER\<close> annotations in the bindings; the components (PML, BTL, coll, osc), the datatype engine and the
  runtime, which are unchanged Open MPI code apart from passing the entry on; the Fortran and Java interfaces and
  OpenSHMEM; the bundled packages, the build system, the SQL schema, documentation and tests.
\<close>

section \<open>From a call to its row\<close>

text \<open>What the database reads for an entry.\<close>

definition stored_row :: "(rat \<Rightarrow> uint64) \<Rightarrow> byte list \<Rightarrow> qentry \<Rightarrow> db_row option" where
  "stored_row dbl jid e =
     (case qentryToBinary dbl (Some jid) e (0, (replicate 2048 0, 0)) of
        None \<Rightarrow> None
      | Some (_, (buffer, off)) \<Rightarrow>
          (case read_row (take off buffer) of Some (cols, []) \<Rightarrow> decode_row cols | _ \<Rightarrow> None))"

lemma stored_row_entry:
  assumes "wf_entry e" and "c_ranges e"
  shows "stored_row dbl jid e = Some (row_of_entry dbl jid e)"
proof -
  have "length (row_image dbl jid e) \<le> 363" by (rule length_row_image [OF assms(1)])
  then show ?thesis
    using qentryToBinary_writes [OF assms(1), of 0 dbl jid "replicate 2048 0" 0] read_row_image [OF assms(1), of dbl jid "[]"]
      decode_row_fields [OF assms] by (simp add: stored_row_def)
qed

lemma recorded_row:
  assumes "recorded L name ct comm e" and "c_ranges e"
  shows "\<exists>row. stored_row dbl jid e = Some row \<and> fun_name row = ascii name \<and> communicationtype row = ascii ct \<and>
    communicationarea row = take 63 (label_text (world (env L)) comm) \<and>
    processorname_col row = take (proc_name_length (env L)) (proc_name (env L)) \<and>
    processrank_col row = processrank (env L) \<and> time_start row = tv_sec (t_start L) * 1000000 \<and> time_end row = unix_us (end' e)"
proof -
  have "wf_entry e" using assms(1) by (simp add: recorded_def)
  then have "stored_row dbl jid e = Some (row_of_entry dbl jid e)" using assms(2) by (rule stored_row_entry)
  then show ?thesis using assms(1) by (simp add: row_of_entry_def recorded_def)
qed

text \<open>C11: From a call to its row. A blocking send that returns leaves an entry that the monitor encodes without leaving
  its buffer, and the row that the database reads back names the function, the kind of communication, the communicator,
  the host and the rank of the caller and the start of the call; and its end, when the arguments let it reach the PML.\<close>

theorem send_reaches_table:
  assumes "(name, mode, send) \<in> set blocking_sends" and "lib_ok L" "fresh_call s" "param_check L \<or> comm \<noteq> Comm_NULL"
    and "send L buf cnt type dest tag comm s = Returned rc s'" and "c_ranges (item s')"
  shows "\<exists>row. stored_row dbl jid (item s') = Some row \<and> fun_name row = ascii name \<and> communicationtype row = ascii ''p2p'' \<and>
    communicationarea row = take 63 (label_text (world (env L)) comm) \<and>
    processorname_col row = take (proc_name_length (env L)) (proc_name (env L)) \<and>
    processrank_col row = processrank (env L) \<and> time_start row = tv_sec (t_start L) * 1000000 \<and>
    (send_valid L buf cnt type dest tag comm \<and> \<not> ft_blocks_p2p L comm dest \<longrightarrow> time_end row = unix_us (t_end L))"
proof -
  note t = blocking_sends_contract [OF assms(1-4), of buf cnt type dest tag, unfolded assms(5)]
  then have r: "recorded L name ''p2p'' comm (item s')" by (simp add: traced_def)
  have "send_valid L buf cnt type dest tag comm \<and> \<not> ft_blocks_p2p L comm dest \<longrightarrow> end' (item s') = t_end L"
    using t by (auto simp: traced_def)
  with recorded_row [OF r assms(6), of dbl jid] show ?thesis by auto
qed

definition partner_lib :: mpi_lib where
  "partner_lib = demo_lib\<lparr>component := \<lambda>b s. (0, s\<lparr>item := mark_partner 2 (item s)\<rparr>)\<rparr>"

lemma partner_lib_ok: "lib_ok partner_lib"
  using demo_lib_ok(1) pml_partner.component_upd [where L = demo_lib and rc = "\<lambda>_. 0"] by (simp add: lib_ok_def partner_lib_def)

lemma partner_lib_send:
  obtains s' where "MPI_Ssend partner_lib 64 1 demo_type 2 7 MPI_COMM_WORLD demo_call = Returned 0 s'" "c_ranges (item s')"
proof -
  obtain e where b: "\<forall>k. begin_event partner_lib 2 ''MPI_Ssend'' 9 0 0 ''p2p'' 3 demo_type None MPI_COMM_WORLD 1 None k demo_call =
      k (demo_call\<lparr>item := e\<rparr>)"
    and r: "running (recorded partner_lib ''MPI_Ssend'' ''p2p'' MPI_COMM_WORLD) [] zero_timespec (demo_call\<lparr>item := e\<rparr>)"
      "partnerrank e = edumpi_world_rank MPI_COMM_WORLD 2"
    using begin_event_runs [OF partner_lib_ok demo_fresh, of 9 "''MPI_Ssend''" "''p2p''" 3 2 0 0 demo_type None MPI_COMM_WORLD 1 None]
    by auto
  let ?s = "demo_call\<lparr>item := (mark_partner 2 e)\<lparr>end' := t_end partner_lib\<rparr>, invoked := [],
    backend := [send_call ''send'' MCA_PML_BASE_SEND_SYNCHRONOUS 64 1 demo_type 2 7 MPI_COMM_WORLD]\<rparr>"
  have "MPI_Ssend partner_lib 64 1 demo_type 2 7 MPI_COMM_WORLD demo_call = Returned 0 ?s"
    unfolding MPI_Ssend_def
    by (simp only: b) (simp add: Let_def OMPI_ERR_INIT_FINALIZE_def OMPI_ERRHANDLER_CHECK_def OMPI_ERRHANDLER_RETURN_def with_comm_def
        OMPI_CHECK_DATATYPE_FOR_SEND_def OMPI_CHECK_USER_BUFFER_def ft_p2p_def component_call_def end_event_def send_call_def
        demo_valid_simps demo_call_def partner_lib_def MPI_PROC_NULL_def mpi_codes)
  moreover have "c_ranges (item ?s)"
    using r by (simp add: c_ranges_def running_def recorded_def mark_partner_def mark_coll_partner_def Let_def edumpi_world_rank_def
        partner_lib_def demo_lib_def demo_env_def split: option.splits)
  ultimately show thesis by (rule that)
qed

theorem send_reaches_table_witness:
  "\<exists>s' row. MPI_Ssend partner_lib 64 1 demo_type 2 7 MPI_COMM_WORLD demo_call = Returned 0 s' \<and>
     stored_row (\<lambda>_. 0) (ascii ''7'') (item s') = Some row \<and> fun_name row = ascii ''MPI_Ssend'' \<and> time_end row = 6000000"
proof -
  obtain s' where s: "MPI_Ssend partner_lib 64 1 demo_type 2 7 MPI_COMM_WORLD demo_call = Returned 0 s'" "c_ranges (item s')"
    by (rule partner_lib_send)
  have m: "(''MPI_Ssend'', MCA_PML_BASE_SEND_SYNCHRONOUS, MPI_Ssend) \<in> set blocking_sends" by (simp add: blocking_sends_def)
  have c: "param_check partner_lib \<or> MPI_COMM_WORLD \<noteq> Comm_NULL" by simp
  have v: "send_valid partner_lib 64 1 demo_type 2 7 MPI_COMM_WORLD" "\<not> ft_blocks_p2p partner_lib MPI_COMM_WORLD 2"
    "unix_us (t_end partner_lib) = 6000000"
    by (simp_all add: send_valid_def demo_valid_simps partner_lib_def MPI_PROC_NULL_def ft_blocks_p2p_def unix_us_def)
  show ?thesis
    using send_reaches_table [OF m partner_lib_ok demo_fresh c s, of "\<lambda>_. 0" "ascii ''7''"] s(1) v by fastforce
qed

end
